(* ===== verification/Prelude.thy ===== *)
theory Prelude
  imports Main "HOL-Library.Word"
begin

unbundle bit_operations_syntax

text \<open>
  Shared vocabulary of the development: the machine integer types of the C code, the constants
  of \<^verbatim>\<open>include/mm/pmm.h\<close> and \<^verbatim>\<open>include/mm/vmm.h\<close>, C's integer
  conversions, and the collections of facts that the component theories fill and use.
\<close>

section \<open>Machine integers and constants\<close>

type_synonym u8 = "8 word"
type_synonym u16 = "16 word"
type_synonym u32 = "32 word"
type_synonym u64 = "64 word"

abbreviation PAGE_SIZE_4KB :: u64 where "PAGE_SIZE_4KB \<equiv> 0x1000"
abbreviation PAGE_SIZE_2MB :: u64 where "PAGE_SIZE_2MB \<equiv> 0x200000"
abbreviation PAGE_MASK_4KB :: u64 where "PAGE_MASK_4KB \<equiv> NOT 0xFFF"
abbreviation KERNEL_OFFSET :: u64 where "KERNEL_OFFSET \<equiv> 0xFFFFFFFF80000000"
abbreviation DIRECT_OFFSET :: u64 where "DIRECT_OFFSET \<equiv> 0xFFFF800000000000"

text \<open>
  The conversions between C's \<^verbatim>\<open>int\<close> and \<^verbatim>\<open>uint64_t\<close> that the code relies on: an
  \<^verbatim>\<open>int\<close> is a 32-bit word read as two's complement.
\<close>

definition int_of_u64 :: "u64 \<Rightarrow> int" where
  "int_of_u64 x = sint (ucast x :: u32)"

definition u64_of_int32 :: "u32 \<Rightarrow> u64" where
  "u64_of_int32 i = scast i"

text \<open>Fact collections: frame facts of loads and stores, and the invariants' introduction rules.\<close>

named_theorems frame_simps
named_theorems layout_simps
named_theorems inv_intros

lemma not_bit_out [simp]: "LENGTH('a) \<le> n \<Longrightarrow> \<not> bit (w :: 'a::len word) n"
  using bit_imp_le_length [of w n] by auto

lemma unat_diff_Suc_less: "(j :: 'a::len word) < count \<Longrightarrow> unat (count - (j + 1)) < unat (count - j)"
  by (metis add_diff_cancel diff_diff_add measure_unat right_minus_eq less_irrefl)

lemma word_le_Suc_cases: "(i :: 'a::len word) < n \<Longrightarrow> i \<le> k \<longleftrightarrow> k = i \<or> i + 1 \<le> k"
  by (auto simp: inc_less_eq_iff)

end
