(* ===== verification/Memory.thy ===== *)
theory Memory
  imports Prelude
begin

text \<open>
  The byte-addressed memory with its little-endian loads and stores, and the facts on
  page-aligned addresses that every component with a structure in raw memory needs.
\<close>

section \<open>Byte memory\<close>

type_synonym mem = "u64 \<Rightarrow> u8"

primrec load_bytes :: "nat \<Rightarrow> mem \<Rightarrow> u64 \<Rightarrow> u64" where
  "load_bytes 0 m a = 0"
| "load_bytes (Suc n) m a = (ucast (m a) OR push_bit 8 (load_bytes n m (a + 1)))"

primrec store_bytes :: "nat \<Rightarrow> mem \<Rightarrow> u64 \<Rightarrow> u64 \<Rightarrow> mem" where
  "store_bytes 0 m a v = m"
| "store_bytes (Suc n) m a v = store_bytes n (m(a := ucast v)) (a + 1) (drop_bit 8 v)"

definition ld8 :: "mem \<Rightarrow> u64 \<Rightarrow> u8" where
  "ld8 m a = m a"

definition ld16 :: "mem \<Rightarrow> u64 \<Rightarrow> u16" where
  "ld16 m a = ucast (load_bytes 2 m a)"

definition ld32 :: "mem \<Rightarrow> u64 \<Rightarrow> u32" where
  "ld32 m a = ucast (load_bytes 4 m a)"

definition ld64 :: "mem \<Rightarrow> u64 \<Rightarrow> u64" where
  "ld64 m a = load_bytes 8 m a"

definition st32 :: "mem \<Rightarrow> u64 \<Rightarrow> u32 \<Rightarrow> mem" where
  "st32 m a v = store_bytes 4 m a (ucast v)"

definition st64 :: "mem \<Rightarrow> u64 \<Rightarrow> u64 \<Rightarrow> mem" where
  "st64 m a v = store_bytes 8 m a v"

lemma store_bytes_other:
  "(\<And>k. k < n \<Longrightarrow> b \<noteq> a + of_nat k) \<Longrightarrow> store_bytes n m a v b = m b"
proof (induction n arbitrary: m a v)
  case (Suc n)
  have "b \<noteq> a" using Suc.prems [of 0] by simp
  moreover have "b \<noteq> (a + 1) + of_nat k" if "k < n" for k
    using Suc.prems [of "Suc k"] that by (simp add: ac_simps)
  ultimately show ?case using Suc.IH by simp
qed simp

lemma load_bytes_cong:
  "(\<And>k. k < n \<Longrightarrow> m (a + of_nat k) = m' (a + of_nat k)) \<Longrightarrow>
    load_bytes n m a = load_bytes n m' a"
proof (induction n arbitrary: a)
  case (Suc n)
  have "m (a + 1 + of_nat k) = m' (a + 1 + of_nat k)" if "k < n" for k
    using Suc.prems [of "Suc k"] that by (simp add: ac_simps)
  then have "load_bytes n m (a + 1) = load_bytes n m' (a + 1)" by (rule Suc.IH)
  moreover have "m a = m' a" using Suc.prems [of 0] by simp
  ultimately show ?case by simp
qed simp

lemma load_store_disjoint:
  assumes "\<And>k l. k < n \<Longrightarrow> l < n' \<Longrightarrow> b + of_nat l \<noteq> a + of_nat k"
  shows "load_bytes n' (store_bytes n m a v) b = load_bytes n' m b"
  by (rule load_bytes_cong) (use assms in \<open>auto intro!: store_bytes_other\<close>)

lemma store_bytes_head: "n < 2 ^ 64 - 1 \<Longrightarrow> store_bytes n m (a + 1) v a = m a"
proof (rule store_bytes_other)
  fix k assume n: "n < 2 ^ 64 - 1" "k < n"
  show "a \<noteq> a + 1 + of_nat k"
  proof
    assume "a = a + 1 + of_nat k"
    then have "(of_nat (Suc k) :: u64) = 0" by (simp add: add.assoc)
    then have "2 ^ 64 dvd Suc k" by (simp only: word_of_nat_eq_0_iff len_of_numeral_defs) simp
    with n show False by (auto dest: dvd_imp_le)
  qed
qed

lemma load_store_same:
  "n \<le> 8 \<Longrightarrow> load_bytes n (store_bytes n m a v) a = take_bit (8 * n) v"
proof (induction n arbitrary: m a v)
  case (Suc n)
  have hd: "store_bytes n (m(a := ucast v)) (a + 1) (drop_bit 8 v) a = ucast v"
    using Suc.prems by (subst store_bytes_head) auto
  have tl: "load_bytes n (store_bytes n (m(a := ucast v)) (a + 1) (drop_bit 8 v)) (a + 1)
      = take_bit (8 * n) (drop_bit 8 v)"
    using Suc by simp
  show ?case
    by (rule bit_word_eqI) (auto simp: hd tl bit_simps)
qed simp

text \<open>The typed accesses.\<close>

lemma ld64_st64_same [simp]: "ld64 (st64 m a v) a = v"
  by (rule bit_word_eqI) (simp add: ld64_def st64_def load_store_same bit_simps)

lemma ld32_st32_same [simp]: "ld32 (st32 m a v) a = v"
  by (rule bit_word_eqI) (simp add: ld32_def st32_def load_store_same bit_simps)

lemma st64_other: "(\<And>k. k < 8 \<Longrightarrow> b \<noteq> a + of_nat k) \<Longrightarrow> st64 m a v b = m b"
  by (simp add: st64_def store_bytes_other)

lemma st32_other: "(\<And>k. k < 4 \<Longrightarrow> b \<noteq> a + of_nat k) \<Longrightarrow> st32 m a v b = m b"
  by (simp add: st32_def store_bytes_other)

section \<open>Page-aligned addresses\<close>

definition page_aligned :: "u64 \<Rightarrow> bool" where
  "page_aligned a \<longleftrightarrow> a AND 0xFFF = 0"

lemma page_aligned_bit: "page_aligned a \<longleftrightarrow> (\<forall>n < 12. \<not> bit a n)"
proof -
  have mask: "(0xFFF :: u64) = mask 12" by (simp add: mask_eq_exp_minus_1)
  show ?thesis
  proof
    assume "page_aligned a"
    then have 0: "a AND mask 12 = 0" by (simp add: page_aligned_def mask)
    have "bit a n = bit (a AND mask 12) n" if "n < 12" for n
      using that by (simp add: bit_simps)
    with 0 show "\<forall>n < 12. \<not> bit a n" by simp
  next
    assume "\<forall>n < 12. \<not> bit a n"
    then show "page_aligned a"
      unfolding page_aligned_def mask by (intro bit_word_eqI) (auto simp: bit_simps)
  qed
qed

lemma lt_page_bit: "(x :: u64) < 0x1000 \<Longrightarrow> 12 \<le> n \<Longrightarrow> \<not> bit x n"
proof -
  assume x: "x < 0x1000" and n: "12 \<le> n"
  have "x AND mask 12 = x"
    using x by (intro less_mask_eq) simp
  with n have "bit x n = bit (x AND mask 12) n" by simp
  with n show ?thesis by (simp add: bit_simps)
qed

lemma page_add_or:
  assumes "page_aligned a" and "x < 0x1000"
  shows "a + x = a OR x"
proof -
  have "a AND x = 0"
    using assms by (intro bit_word_eqI) (auto simp: page_aligned_bit bit_simps dest: lt_page_bit [of x] leI)
  then show ?thesis using word_plus_and_or [of a x] by simp
qed

lemma page_offset_eq:
  assumes "page_aligned a" "page_aligned b" "x < 0x1000" "y < 0x1000"
  shows "a + x = b + y \<longleftrightarrow> a = b \<and> x = y"
proof
  assume "a + x = b + y"
  then have eq: "a OR x = b OR y" using assms by (simp add: page_add_or)
  have "bit a n = bit b n \<and> bit x n = bit y n" for n
    using arg_cong [OF eq, of "\<lambda>w. bit w n"] assms lt_page_bit [of x n] lt_page_bit [of y n]
    by (cases "n < 12") (auto simp: bit_simps page_aligned_bit)
  then show "a = b \<and> x = y" by (auto intro: bit_word_eqI)
qed simp

lemma page_mask_offset:
  assumes "page_aligned a" "x < 0x1000"
  shows "(a + x) AND PAGE_MASK_4KB = a"
proof (rule bit_word_eqI)
  fix n assume n: "n < LENGTH(64)"
  have mask: "(0xFFF :: u64) = mask 12" by (simp add: mask_eq_exp_minus_1)
  show "bit ((a + x) AND PAGE_MASK_4KB) n = bit a n"
    unfolding mask using assms n lt_page_bit [OF assms(2), of n]
    by (auto simp: page_add_or bit_simps page_aligned_bit)
qed

text \<open>
  Fields of structures at page-aligned addresses: an access of \<^verbatim>\<open>n\<close> bytes at offset \<^verbatim>\<open>x\<close> of
  page \<^verbatim>\<open>a\<close> and one of \<^verbatim>\<open>n'\<close> bytes at offset \<^verbatim>\<open>y\<close> of page \<^verbatim>\<open>b\<close> do not meet when the pages or
  the byte ranges differ.
\<close>

lemma page_load_store_disjoint:
  assumes pg: "page_aligned a" "page_aligned b"
    and x: "unat x + n \<le> 4096" and y: "unat y + n' \<le> 4096"
    and d: "a \<noteq> b \<or> unat x + n \<le> unat y \<or> unat y + n' \<le> unat x"
  shows "load_bytes n' (store_bytes n m (a + x) v) (b + y) = load_bytes n' m (b + y)"
proof (rule load_store_disjoint)
  fix k l assume kl: "k < n" "l < n'"
  have ux: "unat (x + of_nat k) = unat x + k" and uy: "unat (y + of_nat l) = unat y + l"
    using kl x y by (simp_all add: unat_word_ariths unat_of_nat)
  have "x + of_nat k < 0x1000" "y + of_nat l < 0x1000"
    using kl x y by (simp_all add: word_less_nat_alt ux uy)
  then have "a + (x + of_nat k) = b + (y + of_nat l) \<longleftrightarrow> a = b \<and> x + of_nat k = y + of_nat l"
    using pg by (rule page_offset_eq [rotated 2])
  moreover have "x + of_nat k \<noteq> y + of_nat l" if "a = b"
    using d that kl by (auto simp: ux uy dest!: arg_cong [where f = unat])
  ultimately show "b + y + of_nat l \<noteq> a + x + of_nat k"
    by (auto simp: ac_simps)
qed

lemma ld64_st64_page [frame_simps]:
  assumes "page_aligned a" "page_aligned b" "unat x + 8 \<le> 4096" "unat y + 8 \<le> 4096"
    and "a \<noteq> b \<or> unat x + 8 \<le> unat y \<or> unat y + 8 \<le> unat x"
  shows "ld64 (st64 m (a + x) v) (b + y) = ld64 m (b + y)"
  using assms by (simp add: ld64_def st64_def page_load_store_disjoint)

lemma ld32_st64_page [frame_simps]:
  assumes "page_aligned a" "page_aligned b" "unat x + 8 \<le> 4096" "unat y + 4 \<le> 4096"
    and "a \<noteq> b \<or> unat x + 8 \<le> unat y \<or> unat y + 4 \<le> unat x"
  shows "ld32 (st64 m (a + x) v) (b + y) = ld32 m (b + y)"
  using assms by (simp add: ld32_def st64_def page_load_store_disjoint)

lemma ld64_st32_page [frame_simps]:
  assumes "page_aligned a" "page_aligned b" "unat x + 4 \<le> 4096" "unat y + 8 \<le> 4096"
    and "a \<noteq> b \<or> unat x + 4 \<le> unat y \<or> unat y + 8 \<le> unat x"
  shows "ld64 (st32 m (a + x) v) (b + y) = ld64 m (b + y)"
  using assms by (simp add: ld64_def st32_def page_load_store_disjoint)

lemma ld32_st32_page [frame_simps]:
  assumes "page_aligned a" "page_aligned b" "unat x + 4 \<le> 4096" "unat y + 4 \<le> 4096"
    and "a \<noteq> b \<or> unat x + 4 \<le> unat y \<or> unat y + 4 \<le> unat x"
  shows "ld32 (st32 m (a + x) v) (b + y) = ld32 m (b + y)"
  using assms by (simp add: ld32_def st32_def page_load_store_disjoint)

lemmas page_access_0 [frame_simps] =
  ld64_st64_page [where x = 0, simplified] ld64_st64_page [where y = 0, simplified]
  ld64_st32_page [where y = 0, simplified] ld32_st64_page [where x = 0, simplified]
  ld64_st64_page [where x = 0 and y = 0, simplified]

text \<open>The bits of a value in memory, and writing zero over zero.\<close>

lemma load_bytes_bit:
  "n \<le> 8 \<Longrightarrow> bit (load_bytes n m a) i \<longleftrightarrow> i < 8 * n \<and> bit (m (a + of_nat (i div 8))) (i mod 8)"
proof (induction n arbitrary: a i)
  case (Suc n)
  have b8: "bit (m a) i \<Longrightarrow> i < 8" for i using bit_imp_le_length [of "m a" i] by simp
  show ?case
  proof (cases "i < 8")
    case True
    then show ?thesis by (auto simp: bit_simps)
  next
    case False
    then have i: "a + 1 + of_nat ((i - 8) div 8) = a + of_nat (i div 8)" "(i - 8) mod 8 = i mod 8" "8 \<le> i"
      by (auto simp: le_mod_geq le_div_geq)
    have "bit (load_bytes (Suc n) m a) i \<longleftrightarrow> i < 64 \<and> bit (load_bytes n m (a + 1)) (i - 8)"
      using False b8 by (auto simp: bit_simps)
    also have "\<dots> \<longleftrightarrow> i < 64 \<and> i - 8 < 8 * n \<and> bit (m (a + of_nat (i div 8))) (i mod 8)"
      using Suc.IH [of "a + 1" "i - 8"] Suc.prems i(1,2) by simp
    finally show ?thesis using False Suc.prems by auto
  qed
qed simp

lemma ld64_zero: "ld64 m a = 0 \<Longrightarrow> k < 8 \<Longrightarrow> m (a + of_nat k) = 0"
proof (rule bit_word_eqI)
  fix n :: nat
  assume *: "ld64 m a = 0" "k < 8" "n < LENGTH(8)"
  then have "\<not> bit (load_bytes 8 m a) (8 * k + n)" by (simp add: ld64_def)
  then show "bit (m (a + of_nat k)) n = bit 0 n" using * load_bytes_bit [of 8 m a "8 * k + n"] by simp
qed

lemma store_bytes_zero: "(\<And>k. k < n \<Longrightarrow> m (a + of_nat k) = 0) \<Longrightarrow> store_bytes n m a 0 = m"
proof (induction n arbitrary: m a)
  case (Suc n)
  have "m(a := 0) = m" using Suc.prems [of 0] by auto
  moreover have "m (a + 1 + of_nat k) = 0" if "k < n" for k using Suc.prems [of "Suc k"] that by (simp add: ac_simps)
  ultimately show ?case using Suc.IH [of m "a + 1"] by simp
qed simp

lemma st64_zero: "ld64 m a = 0 \<Longrightarrow> st64 m a 0 = m"
  unfolding st64_def by (rule store_bytes_zero) (rule ld64_zero)

end
