(* ===== verification/Machine.thy ===== *)
theory Machine
  imports Memory
begin

text \<open>
  The processor and the devices as the C code sees them through
  \<^verbatim>\<open>arch/x86_64/inlineasm.c\<close>, and the spin lock of \<^verbatim>\<open>kernel/spinlock.c\<close>. Registers and memory are
  state; what a device answers is outside the program, so port and MMIO reads take their
  values from two arbitrary functions of the state (one value per read, counted), and every
  write is appended to a log in program order.

  \<^verbatim>\<open>kmem\<close> is kernel virtual memory (the heap, the boot information), \<^verbatim>\<open>pmem\<close> is physical memory as
  reached through the direct map. The two are kept apart: the frames behind the heap are
  taken from the physical allocator, which never gives the same frame to a page table.
\<close>

section \<open>State\<close>

record machine =
  cpu_rflags :: u64
  cpu_cr3 :: u64
  cpu_msr :: "u32 \<Rightarrow> u64"
  port_out :: "(u16 \<times> u8) list"
  port_in :: "nat \<Rightarrow> u16 \<Rightarrow> u8"
  port_reads :: nat
  mmio_out :: "(u64 \<times> u32) list"
  mmio_in :: "nat \<Rightarrow> u64 \<Rightarrow> u32"
  mmio_reads :: nat
  tlb_invalidated :: "u64 list"
  kmem :: mem
  pmem :: mem

section \<open>Inline assembly\<close>

definition outb :: "u16 \<Rightarrow> u8 \<Rightarrow> 'a machine_scheme \<Rightarrow> 'a machine_scheme" where
  "outb port val s = s\<lparr>port_out := port_out s @ [(port, val)]\<rparr>"

definition inb :: "u16 \<Rightarrow> 'a machine_scheme \<Rightarrow> u8 \<times> 'a machine_scheme" where
  "inb port s = (port_in s (port_reads s) port, s\<lparr>port_reads := Suc (port_reads s)\<rparr>)"

definition invalidate :: "u64 \<Rightarrow> 'a machine_scheme \<Rightarrow> 'a machine_scheme" where
  "invalidate vaddr s = s\<lparr>tlb_invalidated := tlb_invalidated s @ [vaddr]\<rparr>"

definition read_cr3 :: "'a machine_scheme \<Rightarrow> u64" where
  "read_cr3 s = cpu_cr3 s"

definition write_cr3 :: "u64 \<Rightarrow> 'a machine_scheme \<Rightarrow> 'a machine_scheme" where
  "write_cr3 paddr s = s\<lparr>cpu_cr3 := paddr\<rparr>"

definition read_msr :: "u32 \<Rightarrow> 'a machine_scheme \<Rightarrow> u32 \<times> u32" where
  "read_msr index s = (ucast (cpu_msr s index), ucast (drop_bit 32 (cpu_msr s index)))"

definition write_msr :: "u32 \<Rightarrow> u32 \<Rightarrow> u32 \<Rightarrow> 'a machine_scheme \<Rightarrow> 'a machine_scheme" where
  "write_msr index low high s =
     s\<lparr>cpu_msr := (cpu_msr s)(index := push_bit 32 (ucast high) OR ucast low)\<rparr>"

definition read_rflags :: "'a machine_scheme \<Rightarrow> u64" where
  "read_rflags s = cpu_rflags s"

definition write_rflags :: "u64 \<Rightarrow> 'a machine_scheme \<Rightarrow> 'a machine_scheme" where
  "write_rflags f s = s\<lparr>cpu_rflags := f\<rparr>"

abbreviation RFLAGS_IF :: u64 where "RFLAGS_IF \<equiv> 0x200"

definition sti :: "'a machine_scheme \<Rightarrow> 'a machine_scheme" where
  "sti s = s\<lparr>cpu_rflags := cpu_rflags s OR RFLAGS_IF\<rparr>"

definition cli :: "'a machine_scheme \<Rightarrow> 'a machine_scheme" where
  "cli s = s\<lparr>cpu_rflags := cpu_rflags s AND NOT RFLAGS_IF\<rparr>"

lemma read_write_msr: "read_msr i (write_msr i l h s) = (l, h)"
  by (simp add: read_msr_def write_msr_def)
    (auto intro!: bit_word_eqI simp: bit_simps)

text \<open>Volatile 32-bit device registers.\<close>

definition mmio_read32 :: "u64 \<Rightarrow> 'a machine_scheme \<Rightarrow> u32 \<times> 'a machine_scheme" where
  "mmio_read32 a s = (mmio_in s (mmio_reads s) a, s\<lparr>mmio_reads := Suc (mmio_reads s)\<rparr>)"

definition mmio_write32 :: "u64 \<Rightarrow> u32 \<Rightarrow> 'a machine_scheme \<Rightarrow> 'a machine_scheme" where
  "mmio_write32 a v s = s\<lparr>mmio_out := mmio_out s @ [(a, v)]\<rparr>"

section \<open>Spin lock\<close>

text \<open>
  \<^verbatim>\<open>spin_lock_irqsave\<close> turns interrupts off and spins on an atomic test-and-set. On the one
  processor that runs this code a lock that is already taken can only be released by code
  that never gets to run, so the loop does not return: that is the result \<^verbatim>\<open>None\<close>.
\<close>

record spinlock =
  lock :: bool

definition spin_lock_irqsave ::
  "spinlock \<Rightarrow> 'a machine_scheme \<Rightarrow> (u64 \<times> spinlock \<times> 'a machine_scheme) option" where
  "spin_lock_irqsave l s =
     (let fl = read_rflags s; s1 = cli s
      in if lock l then None else Some (fl, l\<lparr>lock := True\<rparr>, s1))"

definition spin_lock_irqrestore ::
  "spinlock \<Rightarrow> u64 \<Rightarrow> 'a machine_scheme \<Rightarrow> spinlock \<times> 'a machine_scheme" where
  "spin_lock_irqrestore l fl s = (l\<lparr>lock := False\<rparr>, write_rflags fl s)"

lemma spin_lock_free:
  "\<not> lock l \<Longrightarrow> spin_lock_irqsave l s =
     Some (cpu_rflags s, l\<lparr>lock := True\<rparr>, s\<lparr>cpu_rflags := cpu_rflags s AND NOT RFLAGS_IF\<rparr>)"
  by (simp add: spin_lock_irqsave_def read_rflags_def cli_def)

lemma spin_lock_held: "lock l \<Longrightarrow> spin_lock_irqsave l s = None"
  by (simp add: spin_lock_irqsave_def)

end
