(* ===== verification/Pmm.thy ===== *)
theory Pmm
  imports Machine "HOL-Library.Monad_Syntax"
begin

text \<open>
  The physical page allocator, \<^verbatim>\<open>mm/pmm.c\<close>. The bitmap is an array of bytes that starts at
  the linker symbol \<^verbatim>\<open>kernel_end\<close>; it is modelled as a function of the byte offset, total,
  because the code can read past its end: what lies there is whatever memory follows. A set bit
  means the frame is in use.
\<close>

section \<open>The bitmap macros\<close>

definition BITMAP_TEST :: "(u64 \<Rightarrow> u8) \<Rightarrow> u64 \<Rightarrow> bool" where
  "BITMAP_TEST bm k \<longleftrightarrow> bm (k div 8) AND push_bit (unat (k mod 8)) 1 \<noteq> 0"

definition BITMAP_SET :: "(u64 \<Rightarrow> u8) \<Rightarrow> u64 \<Rightarrow> (u64 \<Rightarrow> u8)" where
  "BITMAP_SET bm k = bm(k div 8 := bm (k div 8) OR push_bit (unat (k mod 8)) 1)"

definition BITMAP_CLR :: "(u64 \<Rightarrow> u8) \<Rightarrow> u64 \<Rightarrow> (u64 \<Rightarrow> u8)" where
  "BITMAP_CLR bm k = bm(k div 8 := bm (k div 8) AND NOT (push_bit (unat (k mod 8)) 1))"

lemma BITMAP_TEST_bit: "BITMAP_TEST bm k \<longleftrightarrow> bit (bm (k div 8)) (unat (k mod 8))"
  by (simp add: BITMAP_TEST_def bit_iff_and_push_bit_not_eq_0)

lemma bit_index_eq: "(k :: u64) div 8 = j div 8 \<and> unat (k mod 8) = unat (j mod 8) \<longleftrightarrow> k = j"
proof
  assume "k div 8 = j div 8 \<and> unat (k mod 8) = unat (j mod 8)"
  then have "k div 8 = j div 8" "k mod 8 = j mod 8" by (auto simp only: word_unat_eq_iff)
  then show "k = j" by (metis div_mult_mod_eq)
qed simp

lemma BITMAP_TEST_SET [simp]: "BITMAP_TEST (BITMAP_SET bm k) j \<longleftrightarrow> j = k \<or> BITMAP_TEST bm j"
proof -
  have "unat (j mod 8) < 8" by (simp add: unat_mod)
  then show ?thesis
    using bit_index_eq [of k j]
    by (auto simp: BITMAP_TEST_bit BITMAP_SET_def bit_simps)
qed

lemma BITMAP_TEST_CLR [simp]: "BITMAP_TEST (BITMAP_CLR bm k) j \<longleftrightarrow> j \<noteq> k \<and> BITMAP_TEST bm j"
proof -
  have "unat (j mod 8) < 8" by (simp add: unat_mod)
  then show ?thesis
    using bit_index_eq [of k j]
    by (auto simp: BITMAP_TEST_bit BITMAP_CLR_def bit_simps)
qed

lemma BITMAP_SET_CLR: "BITMAP_TEST bm k \<Longrightarrow> BITMAP_SET (BITMAP_CLR bm k) k = bm"
proof -
  assume "BITMAP_TEST bm k"
  then have "(bm (k div 8) AND NOT (push_bit (unat (k mod 8)) 1)) OR push_bit (unat (k mod 8)) 1
      = bm (k div 8)"
    by (intro bit_word_eqI) (auto simp: BITMAP_TEST_bit bit_simps)
  then show ?thesis by (auto simp: BITMAP_CLR_def BITMAP_SET_def fun_eq_iff)
qed

lemma BITMAP_CLR_SET: "\<not> BITMAP_TEST bm k \<Longrightarrow> BITMAP_CLR (BITMAP_SET bm k) k = bm"
proof -
  assume "\<not> BITMAP_TEST bm k"
  then have "(bm (k div 8) OR push_bit (unat (k mod 8)) 1) AND NOT (push_bit (unat (k mod 8)) 1)
      = bm (k div 8)"
    by (intro bit_word_eqI) (auto simp: BITMAP_TEST_bit bit_simps)
  then show ?thesis by (auto simp: BITMAP_CLR_def BITMAP_SET_def fun_eq_iff)
qed

section \<open>State and operations\<close>

record pmm = machine +
  pmm_lock :: spinlock
  bitmap :: "u64 \<Rightarrow> u8"
  total_pages :: u64

text \<open>The search loop of \<^verbatim>\<open>pmm_alloc_page\<close>: \<^verbatim>\<open>for (i = 0; i < total_pages; i++)\<close>.\<close>

function pmm_scan :: "u64 \<Rightarrow> 'a pmm_scheme \<Rightarrow> u64 \<times> 'a pmm_scheme" where
  "pmm_scan i s =
     (if i < total_pages s then
        if \<not> BITMAP_TEST (bitmap s) i
        then (i * PAGE_SIZE_4KB, s\<lparr>bitmap := BITMAP_SET (bitmap s) i\<rparr>)
        else pmm_scan (i + 1) s
      else (0, s))"
  by pat_completeness auto
termination
proof (relation "measure (\<lambda>(i, s). unat (total_pages s - i))")
  fix i :: u64 and s :: "'a pmm_scheme"
  assume "i < total_pages s"
  then show "((i + 1, s), i, s) \<in> measure (\<lambda>(i, s). unat (total_pages s - i))"
    by (simp add: unat_diff_Suc_less)
qed simp

declare pmm_scan.simps [simp del]

definition pmm_alloc_page :: "'a pmm_scheme \<Rightarrow> (u64 \<times> 'a pmm_scheme) option" where
  "pmm_alloc_page s = do {
     (rflags, l, s1) \<leftarrow> spin_lock_irqsave (pmm_lock s) s;
     let (r, s2) = pmm_scan 0 (s1\<lparr>pmm_lock := l\<rparr>);
         (l', s3) = spin_lock_irqrestore (pmm_lock s2) rflags s2
     in Some (r, s3\<lparr>pmm_lock := l'\<rparr>)
   }"

text \<open>
  \<^verbatim>\<open>pmm_alloc_pages\<close> counts in \<^verbatim>\<open>int\<close>: \<^verbatim>\<open>i\<close> and \<^verbatim>\<open>pages_count\<close> are 32-bit words, sign-extended where
  the code mixes them with \<^verbatim>\<open>uint64_t\<close>. \<^verbatim>\<open>pmm_clash\<close> is the inner loop, the first used frame
  \<^verbatim>\<open>i + j\<close> with \<^verbatim>\<open>1 \<le> j < pages_count\<close>; the outer loop is partial, since its counter can wrap.
\<close>

function pmm_clash :: "(u64 \<Rightarrow> u8) \<Rightarrow> u64 \<Rightarrow> u64 \<Rightarrow> u64 \<Rightarrow> u64 option" where
  "pmm_clash bm i count j =
     (if j < count then if BITMAP_TEST bm (i + j) then Some j else pmm_clash bm i count (j + 1)
      else None)"
  by pat_completeness auto
termination
proof (relation "measure (\<lambda>(bm, i, count, j). unat (count - j))")
  fix bm :: "u64 \<Rightarrow> u8" and i count j :: u64
  assume "j < count"
  then show "((bm, i, count, j + 1), bm, i, count, j) \<in> measure (\<lambda>(bm, i, count, j). unat (count - j))"
    by (simp add: unat_diff_Suc_less)
qed simp

declare pmm_clash.simps [simp del]

function pmm_mark :: "(u64 \<Rightarrow> u8) \<Rightarrow> u64 \<Rightarrow> u64 \<Rightarrow> u64 \<Rightarrow> (u64 \<Rightarrow> u8)" where
  "pmm_mark bm i count j =
     (if j < count then pmm_mark (BITMAP_SET bm (i + j)) i count (j + 1) else bm)"
  by pat_completeness auto
termination
proof (relation "measure (\<lambda>(bm, i, count, j). unat (count - j))")
  fix bm :: "u64 \<Rightarrow> u8" and i count j :: u64
  assume "j < count"
  then show "((BITMAP_SET bm (i + j), i, count, j + 1), bm, i, count, j)
      \<in> measure (\<lambda>(bm, i, count, j). unat (count - j))"
    by (simp add: unat_diff_Suc_less)
qed simp

declare pmm_mark.simps [simp del]

partial_function (option) pmm_find_run ::
  "(u64 \<Rightarrow> u8) \<Rightarrow> u64 \<Rightarrow> u64 \<Rightarrow> u32 \<Rightarrow> u32 option option" where
  "pmm_find_run bm npages count i =
     (if u64_of_int32 i \<le> npages then
        if BITMAP_TEST bm (u64_of_int32 i) then pmm_find_run bm npages count (i + 1)
        else (case pmm_clash bm (u64_of_int32 i) count 1 of
                None \<Rightarrow> Some (Some i)
              | Some j \<Rightarrow> pmm_find_run bm npages count (i + ucast j + 1))
      else Some None)"

definition pmm_alloc_pages :: "u32 \<Rightarrow> 'a pmm_scheme \<Rightarrow> (u64 \<times> 'a pmm_scheme) option" where
  "pmm_alloc_pages pages_count s =
     (if pages_count = 0 then Some (0, s)
      else if total_pages s < u64_of_int32 pages_count then Some (0, s)
      else do {
        found \<leftarrow> pmm_find_run (bitmap s) (total_pages s) (u64_of_int32 pages_count) 0;
        case found of
          None \<Rightarrow> Some (0, s)
        | Some i \<Rightarrow> Some (u64_of_int32 (i * 0x1000),
            s\<lparr>bitmap := pmm_mark (bitmap s) (u64_of_int32 i) (u64_of_int32 pages_count) 0\<rparr>)
      })"

definition pmm_free_page :: "u64 \<Rightarrow> 'a pmm_scheme \<Rightarrow> 'a pmm_scheme" where
  "pmm_free_page paddr s =
     (let b = paddr div PAGE_SIZE_4KB
      in if total_pages s \<le> b then s
         else if \<not> BITMAP_TEST (bitmap s) b then s
         else s\<lparr>bitmap := BITMAP_CLR (bitmap s) b\<rparr>)"

section \<open>The single-frame allocator\<close>

text \<open>The abstract view: the frames below \<^verbatim>\<open>total_pages\<close> whose bit is clear, and the lowest of them.\<close>

definition free_frames :: "'a pmm_scheme \<Rightarrow> u64 set" where
  "free_frames s = {k. k < total_pages s \<and> \<not> BITMAP_TEST (bitmap s) k}"

definition lowest_free :: "'a pmm_scheme \<Rightarrow> u64 option" where
  "lowest_free s = (if free_frames s = {} then None else Some (Min (free_frames s)))"

lemma pmm_scan_eq:
  "pmm_scan i s = (let F = {k \<in> free_frames s. i \<le> k}
     in if F = {} then (0, s)
        else (Min F * PAGE_SIZE_4KB, s\<lparr>bitmap := BITMAP_SET (bitmap s) (Min F)\<rparr>))"
proof (induction i s rule: pmm_scan.induct)
  case (1 i s)
  let ?F = "{k \<in> free_frames s. i \<le> k}"
  consider "i < total_pages s" "\<not> BITMAP_TEST (bitmap s) i"
    | "i < total_pages s" "BITMAP_TEST (bitmap s) i" | "\<not> i < total_pages s" by blast
  then show ?case
  proof cases
    case 1
    then have "i \<in> ?F" by (simp add: free_frames_def)
    moreover from this have "Min ?F = i" by (intro Min_eqI) auto
    ultimately show ?thesis using 1 by (subst pmm_scan.simps) (auto simp: Let_def)
  next
    case 2
    then have "?F = {k \<in> free_frames s. i + 1 \<le> k}"
      using word_le_Suc_cases [OF 2(1)] by (auto simp: free_frames_def)
    with 1 2 show ?thesis by (subst pmm_scan.simps) simp
  next
    case 3
    then have "?F = {}" by (auto simp: free_frames_def)
    with 3 show ?thesis by (subst pmm_scan.simps) (simp add: Let_def)
  qed
qed

lemma pmm_alloc_page_eq:
  assumes "\<not> lock (pmm_lock s)"
  shows "pmm_alloc_page s = Some (case lowest_free s of
      None \<Rightarrow> (0, s)
    | Some k \<Rightarrow> (k * PAGE_SIZE_4KB, s\<lparr>bitmap := BITMAP_SET (bitmap s) k\<rparr>))"
proof -
  have "(pmm_lock s)\<lparr>lock := False\<rparr> = pmm_lock s" using assms by simp
  moreover have "free_frames (s\<lparr>cpu_rflags := f, pmm_lock := l\<rparr>) = free_frames s" for f l
    by (simp add: free_frames_def)
  ultimately show ?thesis
    by (simp add: pmm_alloc_page_def spin_lock_free [OF assms] pmm_scan_eq spin_lock_irqrestore_def
        write_rflags_def lowest_free_def Let_def split: option.split prod.split)
qed

lemma pmm_alloc_page_locked: "lock (pmm_lock s) \<Longrightarrow> pmm_alloc_page s = None"
  by (simp add: pmm_alloc_page_def spin_lock_held)

lemma lowest_free_Some:
  assumes "lowest_free s = Some k"
  shows "k < total_pages s" "\<not> BITMAP_TEST (bitmap s) k"
    "\<And>j. j < k \<Longrightarrow> BITMAP_TEST (bitmap s) j"
proof -
  have k: "k = Min (free_frames s)" "free_frames s \<noteq> {}"
    using assms by (auto simp: lowest_free_def split: if_splits)
  then have "k \<in> free_frames s" by simp
  then show lt: "k < total_pages s" "\<not> BITMAP_TEST (bitmap s) k" by (auto simp: free_frames_def)
  show "BITMAP_TEST (bitmap s) j" if "j < k" for j
  proof (rule ccontr)
    assume "\<not> BITMAP_TEST (bitmap s) j"
    with that lt have "j \<in> free_frames s" by (auto simp: free_frames_def)
    with k that show False by (simp add: leD)
  qed
qed

lemma lowest_free_None: "lowest_free s = None \<longleftrightarrow> free_frames s = {}"
  by (simp add: lowest_free_def)

text \<open>Frame numbers and frame addresses; physical memory has less than \<^verbatim>\<open>2 ^ 52\<close> frames.\<close>

lemma frame_addr_div:
  assumes "k < n" "n \<le> 0x10000000000000"
  shows "k * PAGE_SIZE_4KB div PAGE_SIZE_4KB = k" and "k * PAGE_SIZE_4KB = 0 \<longleftrightarrow> k = 0"
    and "page_aligned (k * PAGE_SIZE_4KB)"
proof -
  have k: "unat k < 2 ^ 52" using assms by (simp add: word_less_nat_alt word_le_nat_alt)
  then have u: "unat (k * PAGE_SIZE_4KB) = unat k * 4096" by (simp add: unat_word_ariths)
  then have "unat (k * PAGE_SIZE_4KB div PAGE_SIZE_4KB) = unat k" by (simp add: unat_div)
  then show "k * PAGE_SIZE_4KB div PAGE_SIZE_4KB = k" by (simp only: word_unat_eq_iff)
  then show "k * PAGE_SIZE_4KB = 0 \<longleftrightarrow> k = 0" by auto
  have "k * PAGE_SIZE_4KB = push_bit 12 k" by (simp add: push_bit_eq_mult)
  then show "page_aligned (k * PAGE_SIZE_4KB)"
    by (simp add: page_aligned_bit bit_push_bit_iff)
qed

section \<open>The contiguous allocator\<close>

lemma pmm_clash_None:
  "pmm_clash bm i count j = None \<longleftrightarrow> (\<forall>l. j \<le> l \<and> l < count \<longrightarrow> \<not> BITMAP_TEST bm (i + l))"
proof (induction bm i count j rule: pmm_clash.induct)
  case (1 bm i count j)
  show ?case
  proof (cases "j < count")
    case True
    with 1 word_le_Suc_cases [OF True] show ?thesis by (subst pmm_clash.simps) auto
  next
    case False
    then show ?thesis by (subst pmm_clash.simps) auto
  qed
qed

lemma pmm_clash_Some:
  "pmm_clash bm i count j = Some l \<Longrightarrow> j \<le> l \<and> l < count \<and> BITMAP_TEST bm (i + l)"
proof (induction bm i count j rule: pmm_clash.induct)
  case (1 bm i count j)
  show ?case
  proof (cases "j < count \<and> \<not> BITMAP_TEST bm (i + j)")
    case True
    with 1 word_le_Suc_cases [of j count l] show ?thesis
      by (subst (asm) (2) pmm_clash.simps) auto
  next
    case False
    with "1.prems" show ?thesis by (subst (asm) pmm_clash.simps) (auto split: if_splits)
  qed
qed

lemma pmm_mark_test:
  "BITMAP_TEST (pmm_mark bm i count j) k \<longleftrightarrow>
    BITMAP_TEST bm k \<or> (\<exists>l. j \<le> l \<and> l < count \<and> k = i + l)"
proof (induction bm i count j rule: pmm_mark.induct)
  case (1 bm i count j)
  show ?case
  proof (cases "j < count")
    case True
    with 1 word_le_Suc_cases [OF True] show ?thesis by (subst pmm_mark.simps) auto
  next
    case False
    then show ?thesis by (subst pmm_mark.simps) auto
  qed
qed

text \<open>
  With fewer than \<^verbatim>\<open>2 ^ 31\<close> frames the \<^verbatim>\<open>int\<close> counter does not wrap, and the search is a first-fit
  search over natural numbers.
\<close>

definition run_free :: "(u64 \<Rightarrow> u8) \<Rightarrow> nat \<Rightarrow> nat \<Rightarrow> bool" where
  "run_free bm c i \<longleftrightarrow> (\<forall>l < c. \<not> BITMAP_TEST bm (of_nat (i + l)))"

lemma u64_of_int32_nat: "n < 2 ^ 31 \<Longrightarrow> u64_of_int32 (of_nat n) = of_nat n"
proof -
  assume n: "n < 2 ^ 31"
  then have "sint (of_nat n :: u32) = int n"
    by (simp add: signed_of_nat take_bit_nat_eq_self signed_take_bit_int_eq_self)
  then show ?thesis
    unfolding u64_of_int32_def scast_eq by simp
qed

lemma pmm_clash_run_free:
  assumes "c < 2 ^ 31" "0 < c" "i + c < 2 ^ 32" "\<not> BITMAP_TEST bm (of_nat i)"
  shows "pmm_clash bm (of_nat i) (of_nat c) 1 = None \<longleftrightarrow> run_free bm c i"
proof -
  have "(\<forall>l. 1 \<le> l \<and> l < (of_nat c :: u64) \<longrightarrow> \<not> BITMAP_TEST bm (of_nat i + l))
      \<longleftrightarrow> (\<forall>l. 1 \<le> l \<and> l < c \<longrightarrow> \<not> BITMAP_TEST bm (of_nat (i + l)))"  (is "?L \<longleftrightarrow> ?R")
  proof
    assume L: ?L
    show ?R
    proof (intro allI impI)
      fix l assume l: "1 \<le> l \<and> l < c"
      then have "1 \<le> (of_nat l :: u64) \<and> (of_nat l :: u64) < of_nat c"
        using assms(1) by (simp add: word_le_nat_alt word_less_nat_alt unat_of_nat)
      with L show "\<not> BITMAP_TEST bm (of_nat (i + l))" by simp
    qed
  next
    assume R: ?R
    show ?L
    proof (intro allI impI)
      fix l :: u64 assume l: "1 \<le> l \<and> l < of_nat c"
      then have "1 \<le> unat l \<and> unat l < c"
        using assms(1) by (simp add: word_le_nat_alt word_less_nat_alt unat_of_nat)
      with R have "\<not> BITMAP_TEST bm (of_nat (i + unat l))" by blast
      then show "\<not> BITMAP_TEST bm (of_nat i + l)" by simp
    qed
  qed
  moreover have "run_free bm c i \<longleftrightarrow> ?R"
    using assms(2,4) unfolding run_free_def by (metis One_nat_def Suc_leI add.right_neutral neq0_conv)
  ultimately show ?thesis by (simp add: pmm_clash_None)
qed

definition first_run :: "(u64 \<Rightarrow> u8) \<Rightarrow> nat \<Rightarrow> nat \<Rightarrow> nat \<Rightarrow> nat option \<Rightarrow> bool" where
  "first_run bm c N i r \<longleftrightarrow>
     (case r of
        None \<Rightarrow> \<forall>m. i \<le> m \<and> m \<le> N \<longrightarrow> \<not> run_free bm c m
      | Some n \<Rightarrow> i \<le> n \<and> n \<le> N \<and> run_free bm c n \<and> (\<forall>m. i \<le> m \<and> m < n \<longrightarrow> \<not> run_free bm c m))"

lemma first_run_skip:
  assumes "first_run bm c N j r" "i \<le> j" and bad: "\<And>m. i \<le> m \<Longrightarrow> m < j \<Longrightarrow> \<not> run_free bm c m"
  shows "first_run bm c N i r"
proof -
  have "m < j \<or> j \<le> m" for m by arith
  with assms show ?thesis
    unfolding first_run_def by (cases r) (simp_all, (meson order.trans)+)
qed

lemma pmm_find_run_eq:
  assumes "N + c < 2 ^ 31" "0 < c" "i \<le> N + c"
  shows "\<exists>r. pmm_find_run bm (of_nat N) (of_nat c) (of_nat i) = Some (map_option of_nat r) \<and>
    first_run bm c N i r"
  using assms(3)
proof (induction "N + c - i" arbitrary: i rule: less_induct)
  case less
  have i32: "u64_of_int32 (of_nat i) = of_nat i"
    using assms less.prems by (intro u64_of_int32_nat) simp
  have iN: "(of_nat i :: u64) \<le> of_nat N \<longleftrightarrow> i \<le> N"
    using assms less.prems by (simp add: word_le_nat_alt unat_of_nat)
  have skip: ?case
    if e: "pmm_find_run bm (of_nat N) (of_nat c) (of_nat i)
           = pmm_find_run bm (of_nat N) (of_nat c) (of_nat j)"
      and j: "i < j" "j \<le> N + c" and bad: "\<And>m. i \<le> m \<Longrightarrow> m < j \<Longrightarrow> \<not> run_free bm c m" for j
  proof -
    have "N + c - j < N + c - i" using j by linarith
    from less.hyps [OF this j(2)] e obtain r where
      "pmm_find_run bm (of_nat N) (of_nat c) (of_nat i) = Some (map_option of_nat r)"
      and "first_run bm c N j r" by auto
    then show ?thesis using first_run_skip [of bm c N j r i] bad j(1) by auto
  qed
  show ?case
  proof (cases "i \<le> N")
    case False
    then have "first_run bm c N i None" unfolding first_run_def by auto
    moreover have "pmm_find_run bm (of_nat N) (of_nat c) (of_nat i) = Some (map_option of_nat None)"
      using False iN i32 by (subst pmm_find_run.simps) simp
    ultimately show ?thesis by blast
  next
    case le: True
    show ?thesis
    proof (cases "BITMAP_TEST bm (of_nat i)")
      case True
      show ?thesis
      proof (rule skip [of "i + 1"])
        show "pmm_find_run bm (of_nat N) (of_nat c) (of_nat i)
            = pmm_find_run bm (of_nat N) (of_nat c) (of_nat (i + 1))"
          using le True iN i32 by (subst pmm_find_run.simps) (simp add: ac_simps)
        show "\<not> run_free bm c m" if "i \<le> m" "m < i + 1" for m
          using that True assms(2) by (auto simp: run_free_def intro!: exI [of _ 0] dest: le_antisym)
      qed (use le assms in simp_all)
    next
      case clear: False
      have rf: "pmm_clash bm (of_nat i) (of_nat c) 1 = None \<longleftrightarrow> run_free bm c i"
        using assms less.prems clear by (intro pmm_clash_run_free) simp_all
      show ?thesis
      proof (cases "pmm_clash bm (of_nat i) (of_nat c) 1")
        case None
        then have "pmm_find_run bm (of_nat N) (of_nat c) (of_nat i) = Some (map_option of_nat (Some i))"
          using le clear iN i32 by (subst pmm_find_run.simps) simp
        moreover have "first_run bm c N i (Some i)" using None rf le unfolding first_run_def by auto
        ultimately show ?thesis by blast
      next
        case (Some l)
        from pmm_clash_Some [OF this] have l: "1 \<le> unat l" "unat l < c"
          and used: "BITMAP_TEST bm (of_nat (i + unat l))"
          using assms by (auto simp: word_le_nat_alt word_less_nat_alt unat_of_nat)
        show ?thesis
        proof (rule skip [of "i + unat l + 1"])
          have "(ucast l :: u32) = of_nat (unat l)" by simp
          then show "pmm_find_run bm (of_nat N) (of_nat c) (of_nat i)
              = pmm_find_run bm (of_nat N) (of_nat c) (of_nat (i + unat l + 1))"
            using Some le clear iN i32 by (subst pmm_find_run.simps) (simp add: ac_simps)
          show "\<not> run_free bm c m" if "i \<le> m" "m < i + unat l + 1" for m
          proof -
            have "i + unat l = m + (i + unat l - m)" "i + unat l - m < c" using that l by linarith+
            with used show ?thesis unfolding run_free_def by metis
          qed
        qed (use le l in simp_all)
      qed
    qed
  qed
qed

lemma pmm_mark_run:
  assumes "c < 2 ^ 31"
  shows "BITMAP_TEST (pmm_mark bm (of_nat n) (of_nat c) 0) k \<longleftrightarrow>
    BITMAP_TEST bm k \<or> (\<exists>l < c. k = of_nat (n + l))"
proof -
  have "(\<exists>l. 0 \<le> l \<and> l < of_nat c \<and> k = of_nat n + l) \<longleftrightarrow> (\<exists>l < c. k = of_nat (n + l))"
  proof
    assume "\<exists>l. 0 \<le> l \<and> l < of_nat c \<and> k = of_nat n + l"
    then obtain l where l: "l < of_nat c" "k = of_nat n + l" by blast
    then have "unat l < c" "k = of_nat (n + unat l)"
      using assms by (simp_all add: word_less_nat_alt unat_of_nat)
    then show "\<exists>l < c. k = of_nat (n + l)" by blast
  next
    assume "\<exists>l < c. k = of_nat (n + l)"
    then obtain l where l: "l < c" "k = of_nat (n + l)" by blast
    then have "(of_nat l :: u64) < of_nat c" "k = of_nat n + of_nat l"
      using assms by (simp_all add: word_less_nat_alt unat_of_nat)
    then show "\<exists>l. 0 \<le> l \<and> l < of_nat c \<and> k = of_nat n + l" using word_zero_le by blast
  qed
  then show ?thesis by (simp add: pmm_mark_test)
qed

lemma pmm_alloc_pages_eq:
  assumes "0 < c" "c \<le> unat (total_pages s)" "unat (total_pages s) + c < 2 ^ 31"
  shows "\<exists>r. first_run (bitmap s) c (unat (total_pages s)) 0 r \<and>
    pmm_alloc_pages (of_nat c) s = Some (case r of
        None \<Rightarrow> (0, s)
      | Some n \<Rightarrow> (u64_of_int32 (of_nat (n * 4096)),
          s\<lparr>bitmap := pmm_mark (bitmap s) (of_nat n) (of_nat c) 0\<rparr>))"
proof -
  define N where "N = unat (total_pages s)"
  have c0: "(of_nat c :: u32) \<noteq> 0" and c64: "u64_of_int32 (of_nat c) = of_nat c"
    using assms by (auto simp: unat_eq_zero [symmetric] unat_of_nat intro: u64_of_int32_nat)
  have le: "\<not> total_pages s < of_nat c"
    using assms by (simp add: word_less_nat_alt unat_of_nat)
  have tp: "total_pages s = of_nat N" by (simp add: N_def)
  obtain r where r: "first_run (bitmap s) c N 0 r"
    and run: "pmm_find_run (bitmap s) (of_nat N) (of_nat c) (of_nat 0) = Some (map_option of_nat r)"
    using pmm_find_run_eq [of N c 0 "bitmap s"] assms by (auto simp: N_def)
  have "u64_of_int32 (of_nat n) = of_nat n" if "r = Some n" for n
    using r that assms by (intro u64_of_int32_nat) (simp add: first_run_def N_def)
  then have "pmm_alloc_pages (of_nat c) s = Some (case r of
        None \<Rightarrow> (0, s)
      | Some n \<Rightarrow> (u64_of_int32 (of_nat (n * 4096)),
          s\<lparr>bitmap := pmm_mark (bitmap s) (of_nat n) (of_nat c) 0\<rparr>))"
    using run c0 c64 le by (cases r) (simp_all add: pmm_alloc_pages_def tp)
  with r show ?thesis by (auto simp: N_def)
qed

section \<open>The interface to the rest of the kernel\<close>

text \<open>\<^verbatim>\<open>n\<close> allocations in a row: the addresses in order, and the final state.\<close>

fun alloc_many :: "('s \<Rightarrow> (u64 \<times> 's) option) \<Rightarrow> nat \<Rightarrow> 's \<Rightarrow> (u64 list \<times> 's) option" where
  "alloc_many alloc 0 s = Some ([], s)"
| "alloc_many alloc (Suc n) s =
     (case alloc s of None \<Rightarrow> None
      | Some (a, s1) \<Rightarrow>
          (case alloc_many alloc n s1 of None \<Rightarrow> None | Some (as, s2) \<Rightarrow> Some (a # as, s2)))"

text \<open>
  What the users of frames rely on: an allocation succeeds in being made, a non-zero address is
  a page that was not in use and now is, and freeing a used page undoes exactly that.
\<close>

locale frame_source =
  fixes alloc :: "'s \<Rightarrow> (u64 \<times> 's) option"
    and free :: "u64 \<Rightarrow> 's \<Rightarrow> 's"
    and used :: "'s \<Rightarrow> u64 \<Rightarrow> bool"
    and ok :: "'s \<Rightarrow> bool"
  assumes alloc_total: "ok s \<Longrightarrow> \<exists>a s'. alloc s = Some (a, s')"
    and alloc_ok: "ok s \<Longrightarrow> alloc s = Some (a, s') \<Longrightarrow> ok s'"
    and alloc_fresh: "ok s \<Longrightarrow> alloc s = Some (a, s') \<Longrightarrow> a \<noteq> 0 \<Longrightarrow>
      page_aligned a \<and> \<not> used s a \<and> used s' a"
    and alloc_other: "ok s \<Longrightarrow> alloc s = Some (a, s') \<Longrightarrow> b \<noteq> a \<Longrightarrow> used s' b = used s b"
    and free_ok: "ok s \<Longrightarrow> ok (free a s)"
    and free_used: "ok s \<Longrightarrow> used s a \<Longrightarrow> used (free a s) b \<longleftrightarrow> b \<noteq> a \<and> used s b"
begin

lemma alloc_many_total: "ok s \<Longrightarrow> \<exists>as s'. alloc_many alloc n s = Some (as, s') \<and> ok s'"
proof (induction n arbitrary: s)
  case (Suc n)
  from alloc_total [OF Suc.prems] obtain a s1 where a: "alloc s = Some (a, s1)" by blast
  from Suc.IH [OF alloc_ok [OF Suc.prems a]] a show ?case by auto
qed simp

lemma alloc_many_fresh:
  "ok s \<Longrightarrow> alloc_many alloc n s = Some (as, s') \<Longrightarrow>
    distinct (filter (\<lambda>a. a \<noteq> 0) as) \<and> (\<forall>a \<in> set as. a \<noteq> 0 \<longrightarrow> page_aligned a \<and> \<not> used s a \<and> used s' a)
    \<and> (\<forall>b. b \<notin> set as \<longrightarrow> used s' b = used s b) \<and> (\<forall>b. b \<noteq> 0 \<longrightarrow> used s b \<longrightarrow> used s' b)"
proof (induction n arbitrary: s as)
  case (Suc n)
  from Suc.prems obtain a s1 bs where
    a: "alloc s = Some (a, s1)" and bs: "alloc_many alloc n s1 = Some (bs, s')" and as: "as = a # bs"
    by (auto split: option.splits)
  have ok1: "ok s1" using alloc_ok Suc.prems(1) a by blast
  have other: "used s1 b = used s b" if "b \<noteq> a" for b using alloc_other Suc.prems(1) a that by blast
  have fresh: "page_aligned a \<and> \<not> used s a \<and> used s1 a" if "a \<noteq> 0"
    using alloc_fresh Suc.prems(1) a that by blast
  note IH = Suc.IH [OF ok1 bs]
  have notin: "a \<noteq> 0 \<Longrightarrow> a \<notin> set bs" using IH fresh by blast
  show ?case unfolding as using IH fresh other notin by (auto; metis)
qed simp

end

definition frame_used :: "'a pmm_scheme \<Rightarrow> u64 \<Rightarrow> bool" where
  "frame_used s a \<longleftrightarrow>
     page_aligned a \<and> a div PAGE_SIZE_4KB < total_pages s \<and> BITMAP_TEST (bitmap s) (a div PAGE_SIZE_4KB)"

definition pmm_ok :: "'a pmm_scheme \<Rightarrow> bool" where
  "pmm_ok s \<longleftrightarrow> \<not> lock (pmm_lock s) \<and> total_pages s \<le> 0x10000000000000"

lemma page_aligned_mult: "page_aligned a \<Longrightarrow> a div PAGE_SIZE_4KB * PAGE_SIZE_4KB = a"
proof -
  assume "page_aligned a"
  then have "bit (push_bit 12 (drop_bit 12 a)) n = bit a n" for n
    using bit_imp_le_length [of a n] by (cases "n < 12") (auto simp: page_aligned_bit bit_simps)
  then have "push_bit 12 (drop_bit 12 a) = a" by (simp add: bit_eq_iff)
  then show ?thesis by (simp add: push_bit_eq_mult drop_bit_eq_div)
qed

interpretation pmm: frame_source pmm_alloc_page pmm_free_page frame_used pmm_ok
proof unfold_locales
  fix s :: "'a pmm_scheme" and a b s'
  assume ok: "pmm_ok s"
  then show "\<exists>a s'. pmm_alloc_page s = Some (a, s')"
    by (simp add: pmm_ok_def pmm_alloc_page_eq split: option.split)
  show "pmm_ok (pmm_free_page a s)"
    using ok by (simp add: pmm_ok_def pmm_free_page_def Let_def)
  show "frame_used (pmm_free_page a s) b \<longleftrightarrow> b \<noteq> a \<and> frame_used s b" if "frame_used s a"
  proof -
    have "a div PAGE_SIZE_4KB = b div PAGE_SIZE_4KB \<longleftrightarrow> a = b" if "page_aligned b"
      using \<open>frame_used s a\<close> that page_aligned_mult frame_used_def by metis
    with that show ?thesis by (auto simp: frame_used_def pmm_free_page_def Let_def)
  qed
  assume al: "pmm_alloc_page s = Some (a, s')"
  show "pmm_ok s'" using ok al by (auto simp: pmm_ok_def pmm_alloc_page_eq split: option.splits)
  {
    assume "a \<noteq> 0"
    then obtain k where k: "lowest_free s = Some k" "a = k * PAGE_SIZE_4KB"
      "s' = s\<lparr>bitmap := BITMAP_SET (bitmap s) k\<rparr>"
      using ok al by (auto simp: pmm_ok_def pmm_alloc_page_eq split: option.splits)
    with frame_addr_div [of k "total_pages s"] lowest_free_Some [OF k(1)] ok
    show "page_aligned a \<and> \<not> frame_used s a \<and> frame_used s' a"
      by (simp add: frame_used_def pmm_ok_def)
  }
  show "frame_used s' b = frame_used s b" if "b \<noteq> a"
  proof (cases "lowest_free s")
    case (Some k)
    then have k: "a = k * PAGE_SIZE_4KB" "s' = s\<lparr>bitmap := BITMAP_SET (bitmap s) k\<rparr>"
      using ok al by (auto simp: pmm_ok_def pmm_alloc_page_eq)
    have "b div PAGE_SIZE_4KB \<noteq> k" if "page_aligned b"
      using k(1) \<open>b \<noteq> a\<close> page_aligned_mult [OF that] by auto
    then show ?thesis by (auto simp: frame_used_def k(2))
  qed (use ok al in \<open>auto simp: pmm_ok_def pmm_alloc_page_eq\<close>)
qed

section \<open>Properties\<close>

text \<open>
  C8: a call of \<^verbatim>\<open>pmm_alloc_page\<close> with the lock free returns with the lock free and the flags
  restored; it gives the lowest frame whose bit is clear, sets that bit and changes nothing
  else, and when no frame is free it gives 0 and changes nothing.
\<close>

theorem pmm_alloc_page_lowest:
  assumes "\<not> lock (pmm_lock s)"
  shows "(free_frames s = {} \<and> pmm_alloc_page s = Some (0, s)) \<or>
    (\<exists>k. k < total_pages s \<and> \<not> BITMAP_TEST (bitmap s) k \<and> (\<forall>j < k. BITMAP_TEST (bitmap s) j) \<and>
      pmm_alloc_page s = Some (k * PAGE_SIZE_4KB, s\<lparr>bitmap := BITMAP_SET (bitmap s) k\<rparr>))"
proof (cases "lowest_free s")
  case None
  then show ?thesis using pmm_alloc_page_eq [OF assms] lowest_free_None [of s] by simp
next
  case (Some k)
  then show ?thesis using pmm_alloc_page_eq [OF assms] lowest_free_Some [OF Some] by auto
qed

definition pmm_example :: pmm where
  "pmm_example = \<lparr>cpu_rflags = 0x202, cpu_cr3 = 0, cpu_msr = (\<lambda>_. 0), port_out = [], port_in = (\<lambda>_ _. 0),
     port_reads = 0, mmio_out = [], mmio_in = (\<lambda>_ _. 0), mmio_reads = 0, tlb_invalidated = [],
     kmem = (\<lambda>_. 0), pmem = (\<lambda>_. 0), pmm_lock = \<lparr>lock = False\<rparr>,
     bitmap = (\<lambda>i. if i = 0 then 0x5F else 0xFF), total_pages = 16\<rparr>"

text \<open>The example: 16 frames, of which the frames 5 and 7 are free.\<close>

lemma pmm_example_lowest: "lowest_free pmm_example = Some 5"
proof -
  have "BITMAP_TEST (bitmap pmm_example) j" if "j < 5" for j :: u64
  proof -
    have "j \<in> {0, 1, 2, 3, 4}" using that by unat_arith
    then show ?thesis by (auto simp: pmm_example_def BITMAP_TEST_def)
  qed
  then have "5 \<le> k" if "k \<in> free_frames pmm_example" for k
    using that by (auto simp: free_frames_def simp flip: not_less)
  moreover have "5 \<in> free_frames pmm_example"
    by (simp add: free_frames_def pmm_example_def BITMAP_TEST_def)
  ultimately show ?thesis by (auto simp: lowest_free_def intro!: Min_eqI)
qed

theorem pmm_alloc_page_lowest_witness:
  "pmm_alloc_page pmm_example
     = Some (0x5000, pmm_example\<lparr>bitmap := BITMAP_SET (bitmap pmm_example) 5\<rparr>)"
proof -
  have free: "\<not> lock (pmm_lock pmm_example)" by (simp add: pmm_example_def)
  have "free_frames pmm_example \<noteq> {}"
    using pmm_example_lowest lowest_free_None [of pmm_example] by auto
  moreover have "k = 5" if "\<not> BITMAP_TEST (bitmap pmm_example) k" "\<forall>j < k. BITMAP_TEST (bitmap pmm_example) j"
    for k using that lowest_free_Some [OF pmm_example_lowest] by (metis linorder_less_linear)
  ultimately obtain k where "k = 5" and "pmm_alloc_page pmm_example
      = Some (k * PAGE_SIZE_4KB, pmm_example\<lparr>bitmap := BITMAP_SET (bitmap pmm_example) k\<rparr>)"
    using pmm_alloc_page_lowest [OF free] by blast
  then show ?thesis by simp
qed

text \<open>
  C26: freeing the frame that \<^verbatim>\<open>pmm_alloc_page\<close> has just given restores the state, bitmap bytes
  included.
\<close>

theorem pmm_alloc_free_restores:
  assumes "pmm_ok s" "free_frames s \<noteq> {}" "pmm_alloc_page s = Some (a, s')"
  shows "pmm_free_page a s' = s"
proof -
  obtain k where k: "lowest_free s = Some k" using assms(2) lowest_free_None [of s] by fastforce
  note kf = lowest_free_Some [OF k]
  have "a = k * PAGE_SIZE_4KB" "s' = s\<lparr>bitmap := BITMAP_SET (bitmap s) k\<rparr>"
    using assms k by (auto simp: pmm_ok_def pmm_alloc_page_eq)
  with frame_addr_div(1) [OF kf(1)] kf assms(1) show ?thesis
    by (simp add: pmm_free_page_def pmm_ok_def BITMAP_CLR_SET)
qed

theorem pmm_alloc_free_restores_witness:
  "\<exists>a s'. pmm_alloc_page pmm_example = Some (a, s') \<and> a = 0x5000 \<and> s' \<noteq> pmm_example \<and>
    pmm_free_page a s' = pmm_example"
proof -
  have ok: "pmm_ok pmm_example" by (simp add: pmm_ok_def pmm_example_def)
  have ne: "free_frames pmm_example \<noteq> {}"
    using pmm_example_lowest lowest_free_None [of pmm_example] by auto
  let ?s' = "pmm_example\<lparr>bitmap := BITMAP_SET (bitmap pmm_example) 5\<rparr>"
  have al: "pmm_alloc_page pmm_example = Some (0x5000, ?s')"
    using ok pmm_example_lowest by (simp add: pmm_ok_def pmm_alloc_page_eq)
  have "BITMAP_TEST (bitmap ?s') 5 \<noteq> BITMAP_TEST (bitmap pmm_example) 5"
    using lowest_free_Some(2) [OF pmm_example_lowest] by simp
  then have "?s' \<noteq> pmm_example" by metis
  with al pmm_alloc_free_restores [OF ok ne al] show ?thesis by blast
qed

text \<open>
  C9: any number of allocations in a row return; the frames they give (the non-zero addresses)
  are page-aligned and pairwise distinct, none was in use before, all are in use afterwards,
  and no frame that was in use becomes free.
\<close>

theorem pmm_alloc_many_fresh:
  assumes "pmm_ok s"
  shows "\<exists>as s'. alloc_many pmm_alloc_page n s = Some (as, s') \<and>
    distinct (filter (\<lambda>a. a \<noteq> 0) as) \<and>
    (\<forall>a \<in> set as. a \<noteq> 0 \<longrightarrow> page_aligned a \<and> \<not> frame_used s a \<and> frame_used s' a) \<and>
    (\<forall>b. b \<noteq> 0 \<longrightarrow> frame_used s b \<longrightarrow> frame_used s' b)"
  using pmm.alloc_many_total [OF assms, of n] pmm.alloc_many_fresh [OF assms, of n] by metis

theorem pmm_alloc_many_fresh_witness:
  "\<exists>as s'. alloc_many pmm_alloc_page 3 pmm_example = Some (as, s') \<and>
    distinct (filter (\<lambda>a. a \<noteq> 0) as)"
proof -
  have "pmm_ok pmm_example" by (simp add: pmm_ok_def pmm_example_def)
  from pmm_alloc_many_fresh [OF this, of 3] show ?thesis by blast
qed

text \<open>
  C27: with fewer than \<^verbatim>\<open>2 ^ 19\<close> frames (2 GiB, the range of the code's \<^verbatim>\<open>int\<close> product)
  \<^verbatim>\<open>pmm_alloc_pages\<close> returns, and it is a first-fit search: it gives the address of the lowest run of
  \<^verbatim>\<open>c\<close> clear bits that starts at or below frame \<^verbatim>\<open>total_pages\<close>, sets exactly the bits of the run,
  and gives 0 with the state unchanged when there is no such run.
\<close>

theorem pmm_alloc_pages_first_fit:
  assumes "0 < c" "c \<le> unat (total_pages s)" "unat (total_pages s) < 2 ^ 19"
  shows "(pmm_alloc_pages (of_nat c) s = Some (0, s) \<and>
      (\<forall>m \<le> unat (total_pages s). \<not> run_free (bitmap s) c m)) \<or>
    (\<exists>n s'. pmm_alloc_pages (of_nat c) s = Some (of_nat n * PAGE_SIZE_4KB, s') \<and>
      n \<le> unat (total_pages s) \<and> run_free (bitmap s) c n \<and> (\<forall>m < n. \<not> run_free (bitmap s) c m) \<and>
      s' = s\<lparr>bitmap := bitmap s'\<rparr> \<and>
      (\<forall>k. BITMAP_TEST (bitmap s') k \<longleftrightarrow> BITMAP_TEST (bitmap s) k \<or> (\<exists>l < c. k = of_nat (n + l))))"
proof -
  have N: "unat (total_pages s) + c < 2 ^ 31" using assms by simp
  obtain r where r: "first_run (bitmap s) c (unat (total_pages s)) 0 r"
    and eq: "pmm_alloc_pages (of_nat c) s = Some (case r of None \<Rightarrow> (0, s)
      | Some n \<Rightarrow> (u64_of_int32 (of_nat (n * 4096)),
          s\<lparr>bitmap := pmm_mark (bitmap s) (of_nat n) (of_nat c) 0\<rparr>))"
    using pmm_alloc_pages_eq [OF assms(1,2) N] by blast
  show ?thesis
  proof (cases r)
    case None
    with r eq show ?thesis by (simp add: first_run_def)
  next
    case (Some n)
    with r assms have n: "n * 4096 < 2 ^ 31" by (simp add: first_run_def)
    have "u64_of_int32 (of_nat (n * 4096)) = of_nat n * PAGE_SIZE_4KB"
      using u64_of_int32_nat [OF n] by simp
    moreover have "c < 2 ^ 31" using N by simp
    ultimately show ?thesis
      using r eq Some by (intro disjI2 exI conjI) (auto simp: first_run_def pmm_mark_run)
  qed
qed

theorem pmm_alloc_pages_first_fit_witness:
  "\<exists>r. pmm_alloc_pages (of_nat 4) pmm_example = Some r"
proof -
  have "4 \<le> unat (total_pages pmm_example)" "unat (total_pages pmm_example) < 2 ^ 19"
    by (simp_all add: pmm_example_def)
  from pmm_alloc_pages_first_fit [OF _ this] show ?thesis by auto
qed

definition pmm_last_free :: pmm where
  "pmm_last_free = pmm_example\<lparr>bitmap := (\<lambda>i. if i = 0 then 0x7F else 0), total_pages := 8\<rparr>"

text \<open>
  C28: the search does not stop at the end of memory. With 8 frames of which only the last is
  free, and a clear byte after the 1-byte bitmap, a request for two frames gives frames 7 and
  8, and frame 8 does not exist.
\<close>

theorem pmm_alloc_pages_past_end:
  "\<exists>s'. pmm_alloc_pages 2 pmm_last_free = Some (0x7000, s') \<and>
    \<not> 8 < total_pages pmm_last_free \<and> BITMAP_TEST (bitmap s') 8 \<and>
    \<not> BITMAP_TEST (bitmap pmm_last_free) 8"
proof -
  let ?bm = "bitmap pmm_last_free"
  have bm: "?bm = (\<lambda>i. if i = 0 then 0x7F else 0)" by (simp add: pmm_last_free_def)
  have T: "BITMAP_TEST ?bm 0" "BITMAP_TEST ?bm 1" "BITMAP_TEST ?bm 2" "BITMAP_TEST ?bm 3"
    "BITMAP_TEST ?bm 4" "BITMAP_TEST ?bm 5" "BITMAP_TEST ?bm 6" "\<not> BITMAP_TEST ?bm 7" "\<not> BITMAP_TEST ?bm 8"
    by (simp_all add: bm BITMAP_TEST_def)
  have clash: "pmm_clash ?bm 7 2 1 = None"
    using T by (subst pmm_clash.simps, subst pmm_clash.simps) simp
  have "pmm_find_run ?bm 8 2 0 = Some (Some 7)"
    using T clash by (simp add: pmm_find_run.simps u64_of_int32_def)
  then have "pmm_alloc_pages 2 pmm_last_free = Some (0x7000, pmm_last_free\<lparr>bitmap := pmm_mark ?bm 7 2 0\<rparr>)"
    by (simp add: pmm_alloc_pages_def u64_of_int32_def) (simp add: pmm_last_free_def)
  moreover have "BITMAP_TEST (pmm_mark ?bm 7 2 0) 8"
    using pmm_mark_run [of 2 ?bm 7 8] by (auto intro!: exI [of _ 1])
  ultimately show ?thesis using T(9) by (simp add: pmm_last_free_def)
qed

text \<open>
  C29: \<^verbatim>\<open>pmm_free_page(0)\<close>, which the unmapping loops call for every page that was not mapped,
  makes the reserved frame 0 free: the next allocation hands out frame 0, whose address is the
  value for "no memory", although other frames may be free.
\<close>

theorem pmm_free_null_then_alloc:
  assumes "pmm_ok s" "0 < total_pages s" "BITMAP_TEST (bitmap s) 0"
  shows "pmm_alloc_page (pmm_free_page 0 s) = Some (0, s)"
proof -
  let ?t = "s\<lparr>bitmap := BITMAP_CLR (bitmap s) 0\<rparr>"
  have t: "pmm_free_page 0 s = ?t" using assms by (simp add: pmm_free_page_def)
  have "0 \<in> free_frames ?t" using assms by (simp add: free_frames_def)
  then have "lowest_free ?t = Some 0" by (auto simp: lowest_free_def intro!: Min_eqI)
  with assms t show ?thesis by (simp add: pmm_alloc_page_eq pmm_ok_def BITMAP_SET_CLR)
qed

theorem pmm_free_null_then_alloc_witness:
  "pmm_alloc_page (pmm_free_page 0 pmm_example) = Some (0, pmm_example) \<and>
    free_frames pmm_example \<noteq> {}"
proof -
  have "pmm_ok pmm_example" "0 < total_pages pmm_example" "BITMAP_TEST (bitmap pmm_example) 0"
    by (simp_all add: pmm_ok_def pmm_example_def BITMAP_TEST_def)
  from pmm_free_null_then_alloc [OF this] show ?thesis
    using pmm_example_lowest lowest_free_None [of pmm_example] by auto
qed

end
