(* ===== verification/Dlist_Links.thy ===== *)
theory Dlist_Links
  imports Prelude
begin

text \<open>
  The interface of the kernel's intrusive doubly linked lists, which the buddy allocator, the
  slab caches and the two range lists share: the abstraction of a chain of nodes to a HOL list,
  and the laws of insertion and removal, proved once from the laws of the link fields.
\<close>

section \<open>Intrusive doubly linked lists\<close>

text \<open>
  \<^verbatim>\<open>dll nx pv p h xs\<close>: following the next-fields \<^verbatim>\<open>nx\<close> from \<^verbatim>\<open>h\<close> visits exactly the nodes \<^verbatim>\<open>xs\<close> and
  ends in NULL, and every node's prev-field holds its predecessor, \<^verbatim>\<open>p\<close> for the first.
\<close>

fun dll :: "(u64 \<Rightarrow> u64) \<Rightarrow> (u64 \<Rightarrow> u64) \<Rightarrow> u64 \<Rightarrow> u64 \<Rightarrow> u64 list \<Rightarrow> bool" where
  "dll nx pv p h [] \<longleftrightarrow> h = 0"
| "dll nx pv p h (a # xs) \<longleftrightarrow> h = a \<and> a \<noteq> 0 \<and> pv a = p \<and> dll nx pv a (nx a) xs"

lemma dll_cong:
  "(\<And>a. a \<in> set xs \<Longrightarrow> nx a = nx' a \<and> pv a = pv' a) \<Longrightarrow> dll nx pv p h xs = dll nx' pv' p h xs"
  by (induction xs arbitrary: p h) auto

lemma dll_null [simp]: "dll nx pv p 0 xs \<longleftrightarrow> xs = []"
  by (cases xs) auto

lemma dll_nonnull: "dll nx pv p h xs \<Longrightarrow> h \<noteq> 0 \<Longrightarrow> xs \<noteq> [] \<and> hd xs = h"
  by (cases xs) auto

lemma dll_zero_notin: "dll nx pv p h xs \<Longrightarrow> 0 \<notin> set xs"
  by (induction xs arbitrary: p h) auto

lemma dll_push:
  assumes "dll nx pv 0 h xs" "distinct xs" "a \<notin> set xs" "a \<noteq> 0"
    and "nx' a = h" "pv' a = 0"
    and other: "\<And>b. b \<in> set xs \<Longrightarrow> nx' b = nx b \<and> pv' b = (if b = h then a else pv b)"
  shows "dll nx' pv' 0 a (a # xs)"
proof (cases xs)
  case Nil
  with assms show ?thesis by simp
next
  case (Cons b bs)
  with assms have "dll nx pv b (nx b) bs" "h = b" "b \<noteq> 0" by auto
  moreover have "dll nx' pv' b (nx b) bs = dll nx pv b (nx b) bs"
    using assms(2) other \<open>h = b\<close> Cons by (intro dll_cong) auto
  ultimately show ?thesis using assms Cons by simp
qed

lemma dll_prev: "dll nx pv p h (xs @ a # ys) \<Longrightarrow> pv a = last (p # xs)"
  by (induction xs arbitrary: p h) auto

lemma dll_next: "dll nx pv p h (xs @ a # ys) \<Longrightarrow> nx a = (if ys = [] then 0 else hd ys)"
proof (induction xs arbitrary: p h)
  case Nil
  then show ?case by (cases ys) auto
qed auto

lemma dll_unlink:
  assumes "dll nx pv p h (xs @ a # ys)" "distinct (xs @ a # ys)" "p \<notin> set (xs @ a # ys)"
    and "\<And>b. b \<in> set (xs @ ys) \<Longrightarrow> nx' b = (if b = pv a then nx a else nx b)"
    and "\<And>b. b \<in> set (xs @ ys) \<Longrightarrow> pv' b = (if b = nx a then pv a else pv b)"
  shows "dll nx' pv' p (if pv a = p then nx a else h) (xs @ ys)"
  using assms
proof (induction xs arbitrary: p h)
  case Nil
  show ?case
  proof (cases ys)
    case ys: (Cons b bs)
    have "dll nx' pv' b (nx b) bs = dll nx pv b (nx b) bs"
      using Nil ys by (intro dll_cong) auto
    with Nil ys show ?thesis by auto
  qed (use Nil in auto)
next
  case (Cons x xs)
  have IH: "dll nx' pv' x (if pv a = x then nx a else nx x) (xs @ ys)"
    using Cons.prems by (intro Cons.IH) auto
  have pva: "pv a \<in> set (x # xs)"
    using dll_prev [OF Cons.prems(1)] last_in_set [of "x # xs"] by simp
  have nxa: "nx a \<noteq> x"
    using dll_next [OF Cons.prems(1)] Cons.prems(1,2) by (cases ys) auto
  show ?case
    using IH pva nxa Cons.prems by auto
qed

lemma dll_prev_null:
  assumes "dll nx pv 0 h (xs @ a # ys)"
  shows "pv a = 0 \<longleftrightarrow> xs = []"
  using dll_prev [OF assms] dll_zero_notin [OF assms] last_in_set [of xs]
  by (metis last.simps UnI1 set_append)

lemma dll_prev_cases:
  assumes "dll nx pv 0 h xs" "a \<in> set xs"
  shows "pv a = 0 \<or> pv a \<in> set xs"
proof -
  have "dll nx pv q g zs \<Longrightarrow> a \<in> set zs \<Longrightarrow> pv a \<in> set (q # zs)" for q g zs
    by (induction zs arbitrary: q g) auto
  from this [OF assms] show ?thesis by auto
qed

lemma dll_next_cases:
  assumes "dll nx pv p h xs" "a \<in> set xs"
  shows "nx a = 0 \<or> nx a \<in> set xs"
  using assms
proof (induction xs arbitrary: p h)
  case (Cons x xs)
  then show ?case by (cases xs) auto
qed simp

text \<open>
  The interface: the link fields of a node in a store \<^verbatim>\<open>'m\<close>, and the laws of a store whose nodes
  do not overlap. Each component interprets it on its own field accessors.
\<close>

locale dlist =
  fixes nxt prv :: "'m \<Rightarrow> u64 \<Rightarrow> u64"
    and set_nxt set_prv :: "'m \<Rightarrow> u64 \<Rightarrow> u64 \<Rightarrow> 'm"
    and node :: "u64 \<Rightarrow> bool"
  assumes node_nonnull: "node a \<Longrightarrow> a \<noteq> 0"
    and nxt_set_nxt: "node a \<Longrightarrow> node b \<Longrightarrow> nxt (set_nxt m a v) b = (if a = b then v else nxt m b)"
    and prv_set_prv: "node a \<Longrightarrow> node b \<Longrightarrow> prv (set_prv m a v) b = (if a = b then v else prv m b)"
    and nxt_set_prv: "node a \<Longrightarrow> node b \<Longrightarrow> nxt (set_prv m a v) b = nxt m b"
    and prv_set_nxt: "node a \<Longrightarrow> node b \<Longrightarrow> prv (set_nxt m a v) b = prv m b"
begin

lemmas links = nxt_set_nxt prv_set_prv nxt_set_prv prv_set_nxt

lemma push_frame:
  assumes "node a" "node b" "b \<noteq> a" "b \<noteq> h" "h \<noteq> 0 \<longrightarrow> node h"
  shows "nxt (if h \<noteq> 0 then set_prv (set_nxt (set_prv m a 0) a h) h a else set_nxt (set_prv m a 0) a h) b
      = nxt m b"
    and "prv (if h \<noteq> 0 then set_prv (set_nxt (set_prv m a 0) a h) h a else set_nxt (set_prv m a 0) a h) b
      = prv m b"
    and "nxt (if h \<noteq> 0 then set_prv (set_prv (set_nxt m a h) a 0) h a else set_prv (set_nxt m a h) a 0) b
      = nxt m b"
    and "prv (if h \<noteq> 0 then set_prv (set_prv (set_nxt m a h) a 0) h a else set_prv (set_nxt m a h) a 0) b
      = prv m b"
  using assms by (auto simp: links)

text \<open>Inserting \<^verbatim>\<open>a\<close> before the head \<^verbatim>\<open>h\<close>, whichever of its two fields is written first.\<close>

lemma push_prev_first:
  assumes "dll (nxt m) (prv m) 0 h xs" "distinct xs" "a \<notin> set xs" "node a" "\<And>b. b \<in> set xs \<Longrightarrow> node b"
    and m': "m' = (if h \<noteq> 0 then set_prv (set_nxt (set_prv m a 0) a h) h a
      else set_nxt (set_prv m a 0) a h)"
  shows "dll (nxt m') (prv m') 0 a (a # xs)"
proof (rule dll_push [OF assms(1,2,3)])
  have h: "h \<noteq> 0 \<longrightarrow> node h \<and> h \<noteq> a"
    using assms(1,3,5) by (cases xs) auto
  then show "nxt m' a = h" "prv m' a = 0" "a \<noteq> 0"
    using assms(4) node_nonnull by (auto simp: m' links)
  show "nxt m' b = nxt m b \<and> prv m' b = (if b = h then a else prv m b)" if "b \<in> set xs" for b
    using that h assms(3,4,5) node_nonnull by (auto simp: m' links)
qed

lemma push_next_first:
  assumes "dll (nxt m) (prv m) 0 h xs" "distinct xs" "a \<notin> set xs" "node a" "\<And>b. b \<in> set xs \<Longrightarrow> node b"
    and m': "m' = (if h \<noteq> 0 then set_prv (set_prv (set_nxt m a h) a 0) h a
      else set_prv (set_nxt m a h) a 0)"
  shows "dll (nxt m') (prv m') 0 a (a # xs)"
proof (rule dll_push [OF assms(1,2,3)])
  have h: "h \<noteq> 0 \<longrightarrow> node h \<and> h \<noteq> a"
    using assms(1,3,5) by (cases xs) auto
  then show "nxt m' a = h" "prv m' a = 0" "a \<noteq> 0"
    using assms(4) node_nonnull by (auto simp: m' links)
  show "nxt m' b = nxt m b \<and> prv m' b = (if b = h then a else prv m b)" if "b \<in> set xs" for b
    using that h assms(3,4,5) node_nonnull by (auto simp: m' links)
qed

text \<open>Unlinking \<^verbatim>\<open>a\<close>, whichever neighbour is written first; the fields of \<^verbatim>\<open>a\<close> are read again after the first write.\<close>

lemma neighbours:
  assumes "dll (nxt m) (prv m) 0 h (xs @ a # ys)" "distinct (xs @ a # ys)"
    and "\<And>b. b \<in> set (xs @ a # ys) \<Longrightarrow> node b"
  shows "prv m a \<noteq> 0 \<Longrightarrow> node (prv m a) \<and> prv m a \<noteq> a" "nxt m a \<noteq> 0 \<Longrightarrow> node (nxt m a) \<and> nxt m a \<noteq> a"
    "node a"
proof -
  have "node (prv m a) \<and> prv m a \<noteq> a" if "prv m a \<noteq> 0"
  proof -
    have "prv m a \<in> set xs"
      using dll_prev [OF assms(1)] that last_in_set [of xs] by (cases "xs = []") simp_all
    with assms(2,3) show ?thesis by auto
  qed
  moreover have "node (nxt m a) \<and> nxt m a \<noteq> a" if "nxt m a \<noteq> 0"
  proof -
    have "nxt m a \<in> set ys"
      using dll_next [OF assms(1)] that hd_in_set [of ys] by (cases "ys = []") simp_all
    with assms(2,3) show ?thesis by auto
  qed
  ultimately show "prv m a \<noteq> 0 \<Longrightarrow> node (prv m a) \<and> prv m a \<noteq> a"
    "nxt m a \<noteq> 0 \<Longrightarrow> node (nxt m a) \<and> nxt m a \<noteq> a" by blast+
  show "node a" using assms(3) by simp
qed

lemma unlink_prev_first:
  assumes d: "dll (nxt m) (prv m) 0 h (xs @ a # ys)" and dist: "distinct (xs @ a # ys)"
    and nodes: "\<And>b. b \<in> set (xs @ a # ys) \<Longrightarrow> node b"
    and m1: "m1 = (if prv m a \<noteq> 0 then set_nxt m (prv m a) (nxt m a) else m)"
    and m2: "m2 = (if nxt m1 a \<noteq> 0 then set_prv m1 (nxt m1 a) (prv m1 a) else m1)"
  shows "dll (nxt m2) (prv m2) 0 (if prv m a \<noteq> 0 then h else nxt m a) (xs @ ys)"
proof -
  note nb = neighbours [OF d dist nodes]
  have keep: "nxt m1 a = nxt m a" "prv m1 a = prv m a" using nb by (auto simp: m1 links)
  have "dll (nxt m2) (prv m2) 0 (if prv m a = 0 then nxt m a else h) (xs @ ys)"
  proof (rule dll_unlink [OF d dist])
    show "0 \<notin> set (xs @ a # ys)" using nodes node_nonnull by blast
  next
    fix b assume "b \<in> set (xs @ ys)"
    with nodes have b: "node b" by auto
    with nb keep node_nonnull [OF b]
    show "nxt m2 b = (if b = prv m a then nxt m a else nxt m b)"
      and "prv m2 b = (if b = nxt m a then prv m a else prv m b)"
      by (auto simp: m2 m1 links)
  qed
  then show ?thesis by (auto split: if_splits)
qed

lemma unlink_next_first:
  assumes d: "dll (nxt m) (prv m) 0 h (xs @ a # ys)" and dist: "distinct (xs @ a # ys)"
    and nodes: "\<And>b. b \<in> set (xs @ a # ys) \<Longrightarrow> node b"
    and m1: "m1 = (if nxt m a \<noteq> 0 then set_prv m (nxt m a) (prv m a) else m)"
    and m2: "m2 = (if prv m1 a \<noteq> 0 then set_nxt m1 (prv m1 a) (nxt m1 a) else m1)"
  shows "dll (nxt m2) (prv m2) 0 (if prv m a \<noteq> 0 then h else nxt m a) (xs @ ys)"
    and "prv m1 a = prv m a" "nxt m1 a = nxt m a"
proof -
  note nb = neighbours [OF d dist nodes]
  show keep: "prv m1 a = prv m a" "nxt m1 a = nxt m a" using nb by (auto simp: m1 links)
  have "dll (nxt m2) (prv m2) 0 (if prv m a = 0 then nxt m a else h) (xs @ ys)"
  proof (rule dll_unlink [OF d dist])
    show "0 \<notin> set (xs @ a # ys)" using nodes node_nonnull by blast
  next
    fix b assume "b \<in> set (xs @ ys)"
    with nodes have b: "node b" by auto
    with nb keep node_nonnull [OF b]
    show "nxt m2 b = (if b = prv m a then nxt m a else nxt m b)"
      and "prv m2 b = (if b = nxt m a then prv m a else prv m b)"
      by (auto simp: m2 m1 links)
  qed
  then show "dll (nxt m2) (prv m2) 0 (if prv m a \<noteq> 0 then h else nxt m a) (xs @ ys)"
    by (auto split: if_splits)
qed

end

text \<open>
  A family of such lists over one store, with pairwise different nodes: the lists of the buddy
  allocator by order, those of the slab allocator by cache and kind.
\<close>

definition family_ok :: "(u64 \<Rightarrow> bool) \<Rightarrow> 'i set \<Rightarrow> ('i \<Rightarrow> u64 list) \<Rightarrow> bool" where
  "family_ok nd I X \<longleftrightarrow> (\<forall>i \<in> I. distinct (X i) \<and> (\<forall>a \<in> set (X i). nd a) \<and>
     (\<forall>j \<in> I. i \<noteq> j \<longrightarrow> set (X i) \<inter> set (X j) = {}))"

definition dlls :: "(u64 \<Rightarrow> u64) \<Rightarrow> (u64 \<Rightarrow> u64) \<Rightarrow> ('i \<Rightarrow> u64) \<Rightarrow> 'i set \<Rightarrow> ('i \<Rightarrow> u64 list) \<Rightarrow> bool" where
  "dlls nx pv H I X \<longleftrightarrow> (\<forall>i \<in> I. dll nx pv 0 (H i) (X i))"

lemma dlls_cong:
  assumes "\<And>i. i \<in> I \<Longrightarrow> H i = H' i" "\<And>i a. i \<in> I \<Longrightarrow> a \<in> set (X i) \<Longrightarrow> nx a = nx' a \<and> pv a = pv' a"
  shows "dlls nx pv H I X = dlls nx' pv' H' I X"
proof -
  have "dll nx pv 0 (H i) (X i) = dll nx' pv' 0 (H' i) (X i)" if "i \<in> I" for i
    using dll_cong [of "X i" nx nx' pv pv'] assms that by metis
  then show ?thesis by (simp add: dlls_def)
qed

lemma family_disjoint: "family_ok nd I X \<Longrightarrow> i \<in> I \<Longrightarrow> j \<in> I \<Longrightarrow> i \<noteq> j \<Longrightarrow> a \<in> set (X i) \<Longrightarrow> a \<notin> set (X j)"
  unfolding family_ok_def by blast

lemma family_node: "family_ok nd I X \<Longrightarrow> i \<in> I \<Longrightarrow> a \<in> set (X i) \<Longrightarrow> nd a"
  unfolding family_ok_def by blast

lemma family_push:
  assumes "family_ok nd I X" "nd a" "\<And>i. i \<in> I \<Longrightarrow> a \<notin> set (X i)" "i \<in> I"
  shows "family_ok nd I (X(i := a # X i))"
  using assms unfolding family_ok_def by auto

lemma family_remove:
  assumes "family_ok nd I X" "i \<in> I"
  shows "family_ok nd I (X(i := remove1 a (X i)))"
  using assms unfolding family_ok_def by (auto dest: set_remove1_subset [THEN subsetD])

context dlist
begin

lemma family_push_dlls:
  assumes d: "dlls (nxt m) (prv m) H I X" and fam: "family_ok node I X" and i: "i \<in> I"
    and a: "node a" "\<And>j. j \<in> I \<Longrightarrow> a \<notin> set (X j)"
    and m': "m' = (if H i \<noteq> 0 then set_prv (set_nxt (set_prv m a 0) a (H i)) (H i) a
        else set_nxt (set_prv m a 0) a (H i)) \<or>
      m' = (if H i \<noteq> 0 then set_prv (set_prv (set_nxt m a (H i)) a 0) (H i) a
        else set_prv (set_nxt m a (H i)) a 0)"
  shows "dlls (nxt m') (prv m') (H(i := a)) I (X(i := a # X i))"
  unfolding dlls_def
proof
  fix j assume j: "j \<in> I"
  have di: "dll (nxt m) (prv m) 0 (H k) (X k)" if "k \<in> I" for k using d that by (simp add: dlls_def)
  have dist: "distinct (X i)" and nodes: "b \<in> set (X i) \<Longrightarrow> node b" for b
    using fam i by (auto simp: family_ok_def)
  show "dll (nxt m') (prv m') 0 ((H(i := a)) j) ((X(i := a # X i)) j)"
  proof (cases "j = i")
    case True
    with push_prev_first [OF di [OF i] dist a(2) [OF i] a(1) nodes]
      push_next_first [OF di [OF i] dist a(2) [OF i] a(1) nodes] m' show ?thesis by auto
  next
    case False
    have h: "H i \<noteq> 0 \<longrightarrow> H i \<in> set (X i)" using dll_nonnull [OF di [OF i]] by (cases "X i") auto
    have "nxt m b = nxt m' b \<and> prv m b = prv m' b" if b: "b \<in> set (X j)" for b
    proof -
      have nb: "node b" "b \<noteq> a" using b a(2) [OF j] family_node [OF fam j] by auto
      moreover have "b \<noteq> H i"
        using h family_disjoint [OF fam j i False b] node_nonnull [OF nb(1)] by auto
      moreover have "H i \<noteq> 0 \<longrightarrow> node (H i)" using h nodes by blast
      ultimately show ?thesis using m' push_frame [of a b "H i" m] a(1) by auto
    qed
    then have "dll (nxt m) (prv m) 0 (H j) (X j) = dll (nxt m') (prv m') 0 (H j) (X j)"
      by (rule dll_cong)
    with di [OF j] False show ?thesis by simp
  qed
qed

lemma family_unlink_dlls:
  assumes d: "dlls (nxt m) (prv m) H I X" and fam: "family_ok node I X" and i: "i \<in> I" and a: "a \<in> set (X i)"
    and m': "(m1 = (if prv m a \<noteq> 0 then set_nxt m (prv m a) (nxt m a) else m) \<and>
        m' = (if nxt m1 a \<noteq> 0 then set_prv m1 (nxt m1 a) (prv m1 a) else m1)) \<or>
      (m1 = (if nxt m a \<noteq> 0 then set_prv m (nxt m a) (prv m a) else m) \<and>
        m' = (if prv m1 a \<noteq> 0 then set_nxt m1 (prv m1 a) (nxt m1 a) else m1))"
  shows "dlls (nxt m') (prv m') (H(i := if prv m a \<noteq> 0 then H i else nxt m a)) I (X(i := remove1 a (X i)))"
    and "prv m1 a = prv m a" "nxt m1 a = nxt m a"
    and "\<And>b. node b \<Longrightarrow> b \<notin> set (X i) \<Longrightarrow> nxt m' b = nxt m b \<and> prv m' b = prv m b"
proof -
  have di: "dll (nxt m) (prv m) 0 (H k) (X k)" if "k \<in> I" for k using d that by (simp add: dlls_def)
  obtain xs ys where Xi: "X i = xs @ a # ys" and nx: "a \<notin> set xs" using split_list_first [OF a] by blast
  have "distinct (X i)" "\<forall>b \<in> set (X i). node b" using fam i unfolding family_ok_def by blast+
  then have dist: "distinct (xs @ a # ys)" and nodes: "b \<in> set (xs @ a # ys) \<Longrightarrow> node b" for b
    unfolding Xi by blast+
  have da: "dll (nxt m) (prv m) 0 (H i) (xs @ a # ys)" using di [OF i] by (simp add: Xi)
  note nb = neighbours [OF da dist nodes]
  show keep: "prv m1 a = prv m a" "nxt m1 a = nxt m a" using m' nb by (auto simp: links)
  have near: "prv m a = 0 \<or> prv m a \<in> set (X i)" "nxt m a = 0 \<or> nxt m a \<in> set (X i)"
    using dll_prev_cases [OF di [OF i] a] dll_next_cases [OF di [OF i] a] .
  show other: "nxt m' b = nxt m b \<and> prv m' b = prv m b" if b: "node b" "b \<notin> set (X i)" for b
  proof -
    have "b \<noteq> prv m a" "b \<noteq> nxt m a" using near b node_nonnull by auto
    with m' nb keep b(1) show ?thesis by (auto simp: links)
  qed
  show "dlls (nxt m') (prv m') (H(i := if prv m a \<noteq> 0 then H i else nxt m a)) I (X(i := remove1 a (X i)))"
    unfolding dlls_def
  proof
    fix j assume j: "j \<in> I"
    show "dll (nxt m') (prv m') 0 ((H(i := if prv m a \<noteq> 0 then H i else nxt m a)) j)
        ((X(i := remove1 a (X i))) j)"
    proof (cases "j = i")
      case True
      have "remove1 a (X i) = xs @ ys" using nx by (simp add: Xi remove1_append)
      moreover have "dll (nxt m') (prv m') 0 (if prv m a \<noteq> 0 then H i else nxt m a) (xs @ ys)"
        using m' unlink_prev_first [OF da dist nodes, of m1 m'] unlink_next_first(1) [OF da dist nodes, of m1 m']
        by auto
      ultimately show ?thesis using True by simp
    next
      case False
      have "dll (nxt m) (prv m) 0 (H j) (X j) = dll (nxt m') (prv m') 0 (H j) (X j)"
        by (rule dll_cong) (use other family_node [OF fam j] family_disjoint [OF fam j i False] in metis)
      with di [OF j] False show ?thesis by simp
    qed
  qed
qed

end

end
