(* ===== verification/Buddy_Abs.thy ===== *)
theory Buddy_Abs
  imports Prelude
begin

text \<open>
  The abstract buddy system behind \<^verbatim>\<open>mm/buddy.c\<close>: the heap is \<^verbatim>\<open>TOTAL_PAGES\<close> pages, a block is
  a page number with an order, the state is one list of free page numbers per order (in list
  order, since the code allocates from the front), and the allocated blocks are a ghost set. The
  operations are the code's loops on these lists; the invariant says that free and allocated
  blocks tile the heap and that no free block has a free buddy.
\<close>

abbreviation MAX_ORDERS :: nat where "MAX_ORDERS \<equiv> 12"
abbreviation TOTAL_PAGES :: nat where "TOTAL_PAGES \<equiv> 4096"

type_synonym block = "nat \<times> nat"
type_synonym free_lists = "nat \<Rightarrow> nat list"

definition pages :: "block \<Rightarrow> nat set" where
  "pages b = {fst b ..< fst b + 2 ^ snd b}"

definition block_ok :: "block \<Rightarrow> bool" where
  "block_ok b \<longleftrightarrow> snd b \<le> MAX_ORDERS \<and> 2 ^ snd b dvd fst b \<and> fst b + 2 ^ snd b \<le> TOTAL_PAGES"

definition tiling :: "block set \<Rightarrow> bool" where
  "tiling B \<longleftrightarrow> (\<forall>b \<in> B. block_ok b) \<and> (\<forall>b \<in> B. \<forall>c \<in> B. b \<noteq> c \<longrightarrow> pages b \<inter> pages c = {}) \<and>
     (\<Union>b \<in> B. pages b) = {..<TOTAL_PAGES}"

definition free_blocks :: "free_lists \<Rightarrow> block set" where
  "free_blocks L = {(n, i). i \<le> MAX_ORDERS \<and> n \<in> set (L i)}"

definition no_buddies :: "block set \<Rightarrow> bool" where
  "no_buddies F \<longleftrightarrow> (\<forall>n i. (n, i) \<in> F \<longrightarrow> i < MAX_ORDERS \<longrightarrow> (flip_bit i n, i) \<notin> F)"

definition buddy_inv :: "free_lists \<Rightarrow> block set \<Rightarrow> bool" where
  "buddy_inv L A \<longleftrightarrow> tiling (free_blocks L \<union> A) \<and> free_blocks L \<inter> A = {} \<and>
     (\<forall>i \<le> MAX_ORDERS. distinct (L i)) \<and> no_buddies (free_blocks L)"

section \<open>The operations\<close>

fun abs_split :: "nat \<Rightarrow> nat \<Rightarrow> nat \<Rightarrow> free_lists \<Rightarrow> free_lists" where
  "abs_split n 0 ord L = L"
| "abs_split n (Suc i) ord L =
     (if Suc i > ord then abs_split n i ord (L(i := flip_bit i n # L i)) else L)"

function abs_first :: "nat \<Rightarrow> free_lists \<Rightarrow> nat option" where
  "abs_first i L = (if i \<le> MAX_ORDERS then if L i \<noteq> [] then Some i else abs_first (i + 1) L else None)"
  by pat_completeness auto
termination by (relation "measure (\<lambda>(i, L). 13 - i)") auto

declare abs_first.simps [simp del]

definition abs_alloc :: "nat \<Rightarrow> free_lists \<Rightarrow> (nat \<times> free_lists) option" where
  "abs_alloc ord L =
     (case abs_first ord L of
        None \<Rightarrow> None
      | Some i \<Rightarrow> let n = hd (L i) in Some (n, abs_split n i ord (L(i := tl (L i)))))"

function abs_merge :: "nat \<Rightarrow> nat \<Rightarrow> free_lists \<Rightarrow> nat \<times> nat \<times> free_lists" where
  "abs_merge n i L =
     (if i < MAX_ORDERS \<and> flip_bit i n \<in> set (L i)
      then abs_merge (min n (flip_bit i n)) (i + 1) (L(i := remove1 (flip_bit i n) (L i)))
      else (n, i, L))"
  by pat_completeness auto
termination by (relation "measure (\<lambda>(n, i, L). 12 - i)") auto

declare abs_merge.simps [simp del]

definition abs_free :: "nat \<Rightarrow> nat \<Rightarrow> free_lists \<Rightarrow> free_lists" where
  "abs_free n i L = (case abs_merge n i L of (n', i', L') \<Rightarrow> L'(i' := n' # L' i'))"

section \<open>Blocks and buddies\<close>

lemma flip_bit_cases:
  assumes "(2 :: nat) ^ i dvd n"
  shows "(2 ^ Suc i dvd n \<and> flip_bit i n = n + 2 ^ i) \<or>
    (2 ^ i \<le> n \<and> 2 ^ Suc i dvd n - 2 ^ i \<and> flip_bit i n = n - 2 ^ i)"
proof -
  obtain k where k: "n = push_bit i k" using assms by (auto simp: push_bit_eq_mult mult.commute)
  have "flip_bit i (push_bit i k) = push_bit i (flip_bit 0 k)"
    by (rule bit_eqI) (auto simp: bit_simps)
  with k have e: "n = 2 ^ i * k" "flip_bit i n = 2 ^ i * flip_bit 0 k"
    by (simp_all add: push_bit_eq_mult mult.commute)
  show ?thesis
  proof (cases "even k")
    case True
    then show ?thesis using e by (auto simp: flip_bit_0 algebra_simps elim!: evenE)
  next
    case False
    then show ?thesis using e by (auto simp: flip_bit_0 algebra_simps elim!: oddE)
  qed
qed

lemma flip_bit_twice [simp]: "flip_bit i (flip_bit i n) = (n :: nat)"
  by (rule bit_eqI) (auto simp: bit_simps)

lemma dvd_flip_bit: "(2 :: nat) ^ i dvd n \<Longrightarrow> 2 ^ i dvd flip_bit i n"
  using flip_bit_cases [of i n] by auto

lemma dvd_min_flip_bit: "(2 :: nat) ^ i dvd n \<Longrightarrow> 2 ^ Suc i dvd min n (flip_bit i n)"
  using flip_bit_cases [of i n] by auto

lemma min_flip_bit:
  assumes "2 ^ Suc i dvd (n :: nat)"
  shows "flip_bit i n = n + 2 ^ i"
proof -
  have "2 ^ i dvd n" using assms by (meson dvd_trans le_imp_power_dvd lessI less_imp_le)
  then consider "flip_bit i n = n + 2 ^ i" | "2 ^ i \<le> n" "2 ^ Suc i dvd n - 2 ^ i"
    using flip_bit_cases by blast
  then show ?thesis
  proof cases
    case 2
    then have "(2 :: nat) ^ Suc i dvd 2 ^ i" using assms dvd_diffD1 by blast
    moreover have "\<not> (2 :: nat) ^ Suc i dvd 2 ^ i" by (rule nat_dvd_not_less) simp_all
    ultimately show ?thesis by blast
  qed
qed

lemma dvd_less_add_le: "(a :: nat) dvd n \<Longrightarrow> a dvd m \<Longrightarrow> n < m \<Longrightarrow> n + a \<le> m"
proof -
  assume "a dvd n" "a dvd m" "n < m"
  then have "a \<le> m - n" by (intro dvd_imp_le dvd_diff_nat) simp_all
  with \<open>n < m\<close> show ?thesis by simp
qed

lemma pages_merge:
  assumes "(2 :: nat) ^ i dvd n"
  shows "pages (n, i) \<union> pages (flip_bit i n, i) = pages (min n (flip_bit i n), Suc i)"
    and "pages (n, i) \<inter> pages (flip_bit i n, i) = {}"
  using flip_bit_cases [OF assms] by (auto simp: pages_def)

lemma pages_nonempty [simp]: "pages b \<noteq> {}"
  by (simp add: pages_def)

lemma block_ok_merge:
  assumes "block_ok (n, i)" "block_ok (flip_bit i n, i)" "i < MAX_ORDERS"
  shows "block_ok (min n (flip_bit i n), Suc i)"
  using assms dvd_min_flip_bit [of i n] flip_bit_cases [of i n] by (auto simp: block_ok_def)

lemma block_ok_split:
  assumes "block_ok (n, Suc i)"
  shows "block_ok (n, i)" "block_ok (flip_bit i n, i)"
proof -
  have d: "2 ^ Suc i dvd n" using assms by (simp add: block_ok_def)
  then have "2 ^ i dvd n" by (meson dvd_trans le_imp_power_dvd lessI less_imp_le)
  with assms min_flip_bit [OF d] show "block_ok (n, i)" "block_ok (flip_bit i n, i)"
    by (auto simp: block_ok_def)
qed

lemma flip_bit_in_heap:
  assumes "block_ok (n, i)" "i < MAX_ORDERS"
  shows "block_ok (flip_bit i n, i)"
proof -
  have n: "n + 2 ^ i \<le> 4096" "2 ^ i dvd n" using assms by (auto simp: block_ok_def)
  moreover have "(2 :: nat) ^ i > 0" by simp
  ultimately have "n < 4096" by linarith
  have d: "(2 :: nat) ^ Suc i dvd 4096"
    using assms(2) le_imp_power_dvd [of "Suc i" 12 "2 :: nat"] by simp
  from flip_bit_cases [OF n(2)] have "flip_bit i n + 2 ^ i \<le> 4096"
    using n dvd_less_add_le [OF _ d \<open>n < 4096\<close>] by auto
  with dvd_flip_bit [OF n(2)] assms show ?thesis by (simp add: block_ok_def)
qed

section \<open>Tilings\<close>

lemma tilingD:
  assumes "tiling B"
  shows "b \<in> B \<Longrightarrow> block_ok b" "b \<in> B \<Longrightarrow> c \<in> B \<Longrightarrow> p \<in> pages b \<Longrightarrow> p \<in> pages c \<Longrightarrow> b = c"
    "p < TOTAL_PAGES \<Longrightarrow> \<exists>b \<in> B. p \<in> pages b"
  using assms unfolding tiling_def by blast+

lemma tiling_replace:
  assumes t: "tiling (C \<union> B)" and d: "C \<inter> B = {}"
    and same: "(\<Union>c \<in> C'. pages c) = (\<Union>c \<in> C. pages c)"
    and ok: "\<And>c. c \<in> C' \<Longrightarrow> block_ok c"
    and disj: "\<And>c c'. c \<in> C' \<Longrightarrow> c' \<in> C' \<Longrightarrow> c \<noteq> c' \<Longrightarrow> pages c \<inter> pages c' = {}"
  shows "tiling (C' \<union> B)" "C' \<inter> B = {}"
proof -
  have cb: "pages c \<inter> pages b = {}" if "c \<in> C'" "b \<in> B" for c b
  proof -
    have "pages c \<subseteq> (\<Union>c \<in> C. pages c)" using same that(1) by blast
    moreover have "pages x \<inter> pages b = {}" if "x \<in> C" for x
      using tilingD(2) [OF t] that \<open>b \<in> B\<close> d by blast
    ultimately show ?thesis by blast
  qed
  then show "C' \<inter> B = {}" using pages_nonempty by blast
  have "(\<Union>b \<in> C' \<union> B. pages b) = {..<TOTAL_PAGES}"
    using t same unfolding tiling_def by auto
  moreover have "pages b \<inter> pages c = {}" if "b \<in> C' \<union> B" "c \<in> C' \<union> B" "b \<noteq> c" for b c
    using that cb [of b c] cb [of c b] disj [of b c] t unfolding tiling_def by blast
  moreover have "\<forall>b \<in> C' \<union> B. block_ok b" using ok t unfolding tiling_def by blast
  ultimately show "tiling (C' \<union> B)" unfolding tiling_def by blast
qed

lemma tiling_merge:
  assumes t: "tiling (insert (n, i) (insert (flip_bit i n, i) B))"
    and nin: "(n, i) \<notin> B" "(flip_bit i n, i) \<notin> B" and i: "i < MAX_ORDERS"
  shows "tiling (insert (min n (flip_bit i n), Suc i) B)" "(min n (flip_bit i n), Suc i) \<notin> B"
proof -
  let ?C = "{(n, i), (flip_bit i n, i)}" and ?C' = "{(min n (flip_bit i n), Suc i)}"
  have ok: "block_ok (n, i)" "block_ok (flip_bit i n, i)" using tilingD(1) [OF t] by auto
  then have dv: "2 ^ i dvd n" by (simp add: block_ok_def)
  have "tiling (?C' \<union> B) \<and> ?C' \<inter> B = {}"
    using t nin block_ok_merge [OF ok i] pages_merge(1) [OF dv]
    by (intro conjI tiling_replace [of ?C B ?C']) auto
  then show "tiling (insert (min n (flip_bit i n), Suc i) B)" "(min n (flip_bit i n), Suc i) \<notin> B"
    by auto
qed

lemma tiling_split:
  assumes t: "tiling (insert (n, Suc i) B)" and nin: "(n, Suc i) \<notin> B"
  shows "tiling (insert (n, i) (insert (flip_bit i n, i) B))"
    "(n, i) \<notin> B" "(flip_bit i n, i) \<notin> B" "flip_bit i n = n + 2 ^ i"
proof -
  let ?C = "{(n, Suc i)}" and ?C' = "{(n, i), (flip_bit i n, i)}"
  have ok: "block_ok (n, Suc i)" using tilingD(1) [OF t] by auto
  then have d: "2 ^ Suc i dvd n" by (simp add: block_ok_def)
  then have d': "2 ^ i dvd n" by (meson dvd_trans le_imp_power_dvd lessI less_imp_le)
  show fl: "flip_bit i n = n + 2 ^ i" using min_flip_bit [OF d] .
  then have "min n (flip_bit i n) = n" by simp
  with pages_merge [OF d'] have "pages (n, i) \<union> pages (flip_bit i n, i) = pages (n, Suc i)"
    "pages (n, i) \<inter> pages (flip_bit i n, i) = {}" by simp_all
  then have "tiling (?C' \<union> B) \<and> ?C' \<inter> B = {}"
    using t nin block_ok_split [OF ok] by (intro conjI tiling_replace [of ?C B ?C']) auto
  then show "tiling (insert (n, i) (insert (flip_bit i n, i) B))" "(n, i) \<notin> B" "(flip_bit i n, i) \<notin> B"
    by auto
qed

text \<open>A page number heads at most one block of a tiling.\<close>

lemma tiling_unique:
  assumes "tiling B" "(n, i) \<in> B" "(n, j) \<in> B"
  shows "i = j"
  using tilingD(2) [OF assms(1-3), of n] by (simp add: pages_def)

section \<open>The invariant\<close>

lemma free_blocks_Cons:
  "i \<le> MAX_ORDERS \<Longrightarrow> free_blocks (L(i := n # L i)) = insert (n, i) (free_blocks L)"
  by (auto simp: free_blocks_def split: if_splits)

lemma free_blocks_remove1:
  "distinct (L i) \<Longrightarrow> free_blocks (L(i := remove1 n (L i))) = free_blocks L - {(n, i)}"
  by (auto simp: free_blocks_def split: if_splits)

lemma free_blocks_mem: "(n, i) \<in> free_blocks L \<longleftrightarrow> i \<le> MAX_ORDERS \<and> n \<in> set (L i)"
  by (simp add: free_blocks_def)

text \<open>
  Between the steps of the code's loops one block \<^verbatim>\<open>(n, i)\<close> is in hand: it is in no list, and the
  free blocks, the allocated ones and it tile the heap.
\<close>

definition in_hand :: "nat \<Rightarrow> nat \<Rightarrow> free_lists \<Rightarrow> block set \<Rightarrow> bool" where
  "in_hand n i L A \<longleftrightarrow> tiling (insert (n, i) (free_blocks L \<union> A)) \<and> (n, i) \<notin> free_blocks L \<union> A \<and>
     free_blocks L \<inter> A = {} \<and> (\<forall>j \<le> MAX_ORDERS. distinct (L j)) \<and> no_buddies (free_blocks L)"

lemma in_hand_block_ok: "in_hand n i L A \<Longrightarrow> block_ok (n, i)"
  unfolding in_hand_def using tilingD(1) by blast

lemma in_hand_notin: "in_hand n i L A \<Longrightarrow> j \<le> MAX_ORDERS \<Longrightarrow> n \<notin> set (L j)"
  unfolding in_hand_def using tiling_unique [of _ n i j] free_blocks_mem [of n j L] by blast

lemma buddy_inv_takeI:
  assumes "buddy_inv L A" "i \<le> MAX_ORDERS" "n \<in> set (L i)"
  shows "in_hand n i (L(i := remove1 n (L i))) A"
proof -
  have d: "distinct (L i)" using assms by (simp add: buddy_inv_def)
  have mem: "(n, i) \<in> free_blocks L" using assms by (simp add: free_blocks_mem)
  then have "insert (n, i) (free_blocks L - {(n, i)} \<union> A) = free_blocks L \<union> A" by blast
  moreover have "(n, i) \<notin> A" "(free_blocks L - {(n, i)}) \<inter> A = {}" "no_buddies (free_blocks L - {(n, i)})"
    using assms(1) mem unfolding buddy_inv_def no_buddies_def by blast+
  ultimately show ?thesis
    using assms(1) unfolding in_hand_def free_blocks_remove1 [of L i, OF d] buddy_inv_def by simp
qed

lemma in_hand_split:
  assumes "in_hand n (Suc i) L A" "Suc i \<le> MAX_ORDERS"
  shows "in_hand n i (L(i := flip_bit i n # L i)) A"
proof -
  let ?B = "free_blocks L \<union> A"
  have t: "tiling (insert (n, Suc i) ?B)" and nin: "(n, Suc i) \<notin> ?B"
    using assms(1) by (simp_all add: in_hand_def)
  note sp = tiling_split [OF t nin]
  have nb: "no_buddies (insert (flip_bit i n, i) (free_blocks L))"
    unfolding no_buddies_def
  proof (intro allI impI notI)
    fix m j
    assume m: "(m, j) \<in> insert (flip_bit i n, i) (free_blocks L)" and j: "j < MAX_ORDERS"
      and b: "(flip_bit j m, j) \<in> insert (flip_bit i n, i) (free_blocks L)"
    have "\<not> ((m, j) \<in> free_blocks L \<and> (flip_bit j m, j) \<in> free_blocks L)"
      using assms(1) j unfolding in_hand_def no_buddies_def by blast
    with m b sp(2) have "flip_bit j m = m" by auto (metis flip_bit_twice)+
    moreover have "flip_bit j m \<noteq> m" by (metis bit_flip_bit_iff possible_bit_nat)
    ultimately show False by blast
  qed
  have fb: "free_blocks (L(i := flip_bit i n # L i)) = insert (flip_bit i n, i) (free_blocks L)"
    using assms(2) by (intro free_blocks_Cons) simp
  have "distinct (flip_bit i n # L i)"
    using assms sp(3) by (auto simp: in_hand_def free_blocks_mem)
  moreover have "(n, i) \<noteq> (flip_bit i n, i)" using sp(4) by simp
  ultimately show ?thesis
    unfolding in_hand_def fb using sp(1-3) nb assms(1)
    by (simp add: in_hand_def insert_commute)
qed

lemma in_hand_merge:
  assumes h: "in_hand n i L A" and i: "i < MAX_ORDERS" and m: "flip_bit i n \<in> set (L i)"
  shows "in_hand (min n (flip_bit i n)) (Suc i) (L(i := remove1 (flip_bit i n) (L i))) A"
proof -
  let ?m = "flip_bit i n" and ?L' = "L(i := remove1 (flip_bit i n) (L i))"
  have d: "distinct (L i)" using h i by (simp add: in_hand_def)
  note fb = free_blocks_remove1 [of L i, OF d, of ?m]
  let ?B = "free_blocks ?L' \<union> A"
  have "(?m, i) \<in> free_blocks L" using i m by (simp add: free_blocks_mem)
  with h have mA: "(?m, i) \<in> free_blocks L" "(?m, i) \<notin> A" unfolding in_hand_def by blast+
  then have "insert (n, i) (insert (?m, i) ?B) = insert (n, i) (free_blocks L \<union> A)" unfolding fb by blast
  then have t: "tiling (insert (n, i) (insert (?m, i) ?B))" using h by (simp add: in_hand_def)
  have nin: "(n, i) \<notin> ?B" "(?m, i) \<notin> ?B" using h mA unfolding fb in_hand_def by blast+
  note mg = tiling_merge [OF t nin i]
  have nb: "no_buddies (free_blocks ?L')" using h unfolding fb in_hand_def no_buddies_def by blast
  have "(free_blocks L - {(?m, i)}) \<inter> A = {}" using h unfolding in_hand_def by blast
  with h mg nb show ?thesis unfolding in_hand_def fb by simp
qed

lemma in_hand_release:
  assumes h: "in_hand n i L A" and last: "i = MAX_ORDERS \<or> flip_bit i n \<notin> set (L i)"
  shows "buddy_inv (L(i := n # L i)) A"
proof -
  have i: "i \<le> MAX_ORDERS" using in_hand_block_ok [OF h] by (simp add: block_ok_def)
  have "no_buddies (insert (n, i) (free_blocks L))"
    unfolding no_buddies_def
  proof (intro allI impI notI)
    fix m j
    assume m: "(m, j) \<in> insert (n, i) (free_blocks L)" and j: "j < MAX_ORDERS"
      and b: "(flip_bit j m, j) \<in> insert (n, i) (free_blocks L)"
    have "\<not> ((m, j) \<in> free_blocks L \<and> (flip_bit j m, j) \<in> free_blocks L)"
      using h j unfolding in_hand_def no_buddies_def by blast
    moreover have "flip_bit j m \<noteq> m" by (metis bit_flip_bit_iff possible_bit_nat)
    ultimately have "i = j" "(flip_bit i n, i) \<in> free_blocks L" using m b by auto
    with last j show False by (simp add: free_blocks_mem)
  qed
  with h i in_hand_notin [OF h i] show ?thesis
    unfolding buddy_inv_def free_blocks_Cons [OF i] by (simp add: in_hand_def)
qed

lemma in_hand_allocated: "in_hand n i L A \<Longrightarrow> buddy_inv L (insert (n, i) A)"
  unfolding in_hand_def buddy_inv_def by auto

lemma in_hand_of_allocated:
  assumes "buddy_inv L A" "(n, i) \<in> A"
  shows "in_hand n i L (A - {(n, i)})"
proof -
  have "insert (n, i) (free_blocks L \<union> (A - {(n, i)})) = free_blocks L \<union> A" using assms(2) by blast
  moreover have "(n, i) \<notin> free_blocks L \<union> (A - {(n, i)})" "free_blocks L \<inter> (A - {(n, i)}) = {}"
    using assms unfolding buddy_inv_def by blast+
  ultimately show ?thesis using assms(1) unfolding in_hand_def buddy_inv_def by simp
qed

lemma in_hand_abs_split:
  "in_hand n i L A \<Longrightarrow> ord \<le> i \<Longrightarrow> i \<le> MAX_ORDERS \<Longrightarrow> in_hand n ord (abs_split n i ord L) A"
proof (induction n i ord L rule: abs_split.induct)
  case (2 n i ord L)
  show ?case
  proof (cases "Suc i = ord")
    case False
    then show ?thesis using 2 in_hand_split [OF "2.prems"(1,3)] by (simp add: fun_upd_def)
  next
    case True
    have "abs_split n (Suc i) ord L = L" by (subst abs_split.simps) (simp add: True)
    with 2 True show ?thesis by simp
  qed
qed simp

lemma in_hand_abs_merge:
  "in_hand n i L A \<Longrightarrow> abs_merge n i L = (n', i', L') \<Longrightarrow>
    in_hand n' i' L' A \<and> (i' = MAX_ORDERS \<or> flip_bit i' n' \<notin> set (L' i')) \<and> i \<le> i'"
proof (induction n i L rule: abs_merge.induct)
  case (1 n i L)
  show ?case
  proof (cases "i < MAX_ORDERS \<and> flip_bit i n \<in> set (L i)")
    case True
    with "1.prems"(2) have eq: "abs_merge (min n (flip_bit i n)) (i + 1)
        (L(i := remove1 (flip_bit i n) (L i))) = (n', i', L')"
      by (subst (asm) abs_merge.simps) (simp split: if_splits)
    have "in_hand (min n (flip_bit i n)) (i + 1) (L(i := remove1 (flip_bit i n) (L i))) A"
      using in_hand_merge [OF "1.prems"(1)] True by simp
    from "1.IH" [OF True this eq] show ?thesis by simp
  next
    case False
    with "1.prems"(2) have "n' = n" "i' = i" "L' = L"
      by (subst (asm) abs_merge.simps, simp split: if_splits)+
    moreover have "i \<le> MAX_ORDERS" using in_hand_block_ok [OF "1.prems"(1)] by (simp add: block_ok_def)
    ultimately show ?thesis using "1.prems"(1) False by auto
  qed
qed

lemma abs_first_None: "abs_first i L = None \<longleftrightarrow> (\<forall>j. i \<le> j \<and> j \<le> MAX_ORDERS \<longrightarrow> L j = [])"
proof (induction i L rule: abs_first.induct)
  case (1 i L)
  have le: "i \<le> j \<longleftrightarrow> j = i \<or> i + 1 \<le> j" for j by auto
  show ?case
  proof (cases "i \<le> MAX_ORDERS \<and> L i = []")
    case True
    have "abs_first (i + 1) L = None \<longleftrightarrow> (\<forall>j. i + 1 \<le> j \<and> j \<le> MAX_ORDERS \<longrightarrow> L j = [])"
      using 1 True by blast
    moreover have "abs_first i L = abs_first (i + 1) L" using True by (subst abs_first.simps) simp
    ultimately show ?thesis using True unfolding le [of _] by (simp only:) blast
  next
    case False
    then show ?thesis by (subst abs_first.simps) auto
  qed
qed

lemma abs_first_Some:
  "abs_first i L = Some j \<Longrightarrow> i \<le> j \<and> j \<le> MAX_ORDERS \<and> L j \<noteq> [] \<and> (\<forall>k. i \<le> k \<and> k < j \<longrightarrow> L k = [])"
proof (induction i L rule: abs_first.induct)
  case (1 i L)
  show ?case
  proof (cases "i \<le> MAX_ORDERS \<and> L i = []")
    case True
    with "1.prems" have "abs_first (i + 1) L = Some j"
      by (subst (asm) abs_first.simps) (simp split: if_splits)
    with 1 True have "i + 1 \<le> j \<and> j \<le> MAX_ORDERS \<and> L j \<noteq> [] \<and> (\<forall>k. i + 1 \<le> k \<and> k < j \<longrightarrow> L k = [])"
      by simp
    with True show ?thesis by (metis Suc_eq_plus1 Suc_leD le_eq_less_or_eq less_eq_Suc_le)
  next
    case False
    with "1.prems" show ?thesis by (subst (asm) abs_first.simps) (auto split: if_splits)
  qed
qed

section \<open>Allocation and freeing keep the invariant\<close>

lemma abs_alloc_inv:
  assumes inv: "buddy_inv L A" and al: "abs_alloc ord L = Some (n, L')"
  shows "in_hand n ord L' A"
proof -
  obtain i where f: "abs_first ord L = Some i" and n: "n = hd (L i)"
    and L': "L' = abs_split n i ord (L(i := tl (L i)))"
    using al by (auto simp: abs_alloc_def Let_def split: option.splits)
  note i = abs_first_Some [OF f]
  then obtain ns where "L i = n # ns" using n by (cases "L i") auto
  then have "in_hand n i (L(i := tl (L i))) A"
    using buddy_inv_takeI [OF inv, of i n] i by simp
  with i show ?thesis unfolding L' by (intro in_hand_abs_split) simp_all
qed

lemma abs_alloc_None: "abs_alloc ord L = None \<longleftrightarrow> (\<forall>j. ord \<le> j \<and> j \<le> MAX_ORDERS \<longrightarrow> L j = [])"
  by (cases "abs_first ord L") (use abs_first_None [of ord L] in \<open>auto simp: abs_alloc_def Let_def\<close>)

lemma abs_free_inv:
  assumes "in_hand n i L A"
  shows "buddy_inv (abs_free n i L) A"
proof -
  obtain n' i' L' where m: "abs_merge n i L = (n', i', L')" by (metis prod_cases3)
  with in_hand_abs_merge [OF assms m] in_hand_release [of n' i' L' A] show ?thesis
    by (auto simp: abs_free_def)
qed

definition free_pages :: "block set \<Rightarrow> nat set" where
  "free_pages A = {..<TOTAL_PAGES} - (\<Union>b \<in> A. pages b)"

lemma flip_in_range:
  assumes n: "(2 :: nat) ^ q dvd n" and d: "2 ^ Suc q dvd a" "2 ^ Suc q dvd b" and r: "a \<le> flip_bit q n" "flip_bit q n < b"
  shows "a \<le> n" "n < b"
proof -
  let ?m = "flip_bit q n"
  have p: "(0 :: nat) < 2 ^ q" by simp
  have "a \<le> n \<and> n < b"
    using flip_bit_cases [OF n]
  proof (elim disjE conjE)
    assume n: "2 ^ Suc q dvd n" "?m = n + 2 ^ q"
    have "n < a \<Longrightarrow> n + 2 * 2 ^ q \<le> a" using dvd_less_add_le [OF n(1) d(1)] by simp
    then show ?thesis using r n(2) p by linarith
  next
    assume n: "2 ^ q \<le> n" "2 ^ Suc q dvd n - 2 ^ q" "?m = n - 2 ^ q"
    have "n - 2 ^ q < b \<Longrightarrow> n - 2 ^ q + 2 * 2 ^ q \<le> b" using dvd_less_add_le [OF n(2) d(2)] by simp
    then show ?thesis using r n(1,3) p by linarith
  qed
  then show "a \<le> n" "n < b" by simp_all
qed

text \<open>
  The allocator is complete: when every page of an aligned run of \<^verbatim>\<open>2 ^ ord\<close> pages is free, some
  free block has at least that order, because smaller free blocks in the run would be buddies.
\<close>

lemma buddy_inv_complete:
  assumes inv: "buddy_inv L A" and ok: "block_ok (n, ord)" and free: "pages (n, ord) \<subseteq> free_pages A"
  shows "\<exists>i. ord \<le> i \<and> i \<le> MAX_ORDERS \<and> L i \<noteq> []"
proof (rule ccontr)
  assume none: "\<not> ?thesis"
  let ?F = "free_blocks L" and ?R = "pages (n, ord)"
  have t: "tiling (?F \<union> A)" and nb: "no_buddies ?F" using inv by (auto simp: buddy_inv_def)
  have small: "i < ord" if "(k, i) \<in> ?F" for k i
    using none that by (force simp: free_blocks_def simp flip: not_less)
  have cover: "\<exists>b \<in> ?F. p \<in> pages b" if "p \<in> ?R" for p
  proof -
    have "p < TOTAL_PAGES" "\<forall>b \<in> A. p \<notin> pages b" using free that by (auto simp: free_pages_def)
    with tilingD(3) [OF t] show ?thesis by blast
  qed
  let ?C = "\<lambda>b. b \<in> ?F \<and> pages b \<inter> ?R \<noteq> {}"
  have "n \<in> ?R" by (simp add: pages_def)
  then obtain b where "?C b" using cover by blast
  then obtain m where m: "?C m" and least: "\<And>b. ?C b \<Longrightarrow> snd m \<le> snd b"
    using ex_has_least_nat [of ?C b snd] by blast
  obtain k q where kq: "m = (k, q)" by (cases m)
  then have q: "q < ord" "ord \<le> MAX_ORDERS" "2 ^ q dvd k" and okR: "2 ^ ord dvd n"
    using small m ok tilingD(1) [OF t, of m] by (auto simp: block_ok_def)
  have dn: "2 ^ Suc q dvd n" "2 ^ Suc q dvd n + 2 ^ ord"
    using okR q le_imp_power_dvd [of "Suc q" ord "2 :: nat"] by (auto intro: dvd_trans dvd_add)
  then have dn': "2 ^ q dvd n" "2 ^ q dvd n + 2 ^ ord" by (metis power_Suc dvd_mult_right)+
  obtain p where p: "p \<in> pages m" "p \<in> ?R" using m by blast
  have kR: "n \<le> k" "k < n + 2 ^ ord"
    using p dvd_less_add_le [OF q(3) dn'(1)] by (auto simp: kq pages_def intro: leI)
  let ?f = "flip_bit q k"
  have df: "2 ^ q dvd ?f" using dvd_flip_bit [OF q(3)] by simp
  have fR: "?f \<in> ?R"
    using flip_in_range [OF df dn] kR by (simp add: pages_def)
  then obtain k' j where kj: "(k', j) \<in> ?F" "?f \<in> pages (k', j)" using cover by fastforce
  then have "q \<le> j" using least [of "(k', j)"] fR kq by fastforce
  have okk: "2 ^ j dvd k'" using tilingD(1) [OF t, of "(k', j)"] kj by (simp add: block_ok_def)
  have range: "k' \<le> ?f" "?f < k' + 2 ^ j" using kj(2) by (auto simp: pages_def)
  show False
  proof (cases "j = q")
    case True
    then have "?f = k'" using dvd_less_add_le [of "2 ^ q" k' ?f] okk df range by fastforce
    with kj True m kq nb q show False unfolding no_buddies_def by force
  next
    case False
    with \<open>q \<le> j\<close> have "2 ^ Suc q dvd (2 :: nat) ^ j" by (intro le_imp_power_dvd) simp
    with okk have "2 ^ Suc q dvd k'" "2 ^ Suc q dvd k' + 2 ^ j" by (blast intro: dvd_trans dvd_add)+
    from flip_in_range [OF q(3) this range] have "k \<in> pages (k', j)" by (simp add: pages_def)
    moreover have "k \<in> pages (k, q)" by (simp add: pages_def)
    ultimately have "(k, q) = (k', j)" using tilingD(2) [OF t] m kq kj(1) by blast
    with False show False by simp
  qed
qed

text \<open>
  In particular no fragmentation survives: when nothing is allocated, the only free block is the
  whole heap.
\<close>

lemma buddy_inv_empty:
  assumes inv: "buddy_inv L {}"
  shows "L MAX_ORDERS = [0]" "i < MAX_ORDERS \<Longrightarrow> L i = []"
proof -
  have t: "tiling (free_blocks L)" using inv by (simp add: buddy_inv_def)
  have "pages (0, MAX_ORDERS) \<subseteq> free_pages {}" "block_ok (0, MAX_ORDERS)"
    by (auto simp: pages_def free_pages_def block_ok_def)
  from buddy_inv_complete [OF inv this(2,1)] have "L MAX_ORDERS \<noteq> []" by (metis le_antisym)
  then obtain k ks where k: "L MAX_ORDERS = k # ks" by (cases "L MAX_ORDERS") auto
  have max: "k' = 0" if "(k', MAX_ORDERS) \<in> free_blocks L" for k'
    using tilingD(1) [OF t that] by (simp add: block_ok_def)
  have k0: "(0, MAX_ORDERS) \<in> free_blocks L" "k = 0" using max [of k] k by (auto simp: free_blocks_def)
  have all: "b = (0, MAX_ORDERS)" if b: "b \<in> free_blocks L" for b
  proof -
    have "fst b \<in> pages b" by (simp add: pages_def)
    moreover have "fst b \<in> pages (0, MAX_ORDERS)"
    proof -
      have "block_ok b" "(0 :: nat) < 2 ^ snd b" using tilingD(1) [OF t b] by simp_all
      then have "fst b < TOTAL_PAGES" unfolding block_ok_def by linarith
      then show ?thesis by (simp add: pages_def)
    qed
    ultimately show ?thesis using tilingD(2) [OF t b k0(1)] by blast
  qed
  have "distinct (L MAX_ORDERS)" using inv by (simp add: buddy_inv_def)
  moreover have "x = 0" if "x \<in> set (L MAX_ORDERS)" for x
    using all [of "(x, MAX_ORDERS)"] that by (simp add: free_blocks_def)
  ultimately show "L MAX_ORDERS = [0]" using k k0 by (cases ks) auto
  show "L i = []" if "i < MAX_ORDERS"
  proof (cases "L i")
    case (Cons x xs)
    with that have "(x, i) \<in> free_blocks L" by (simp add: free_blocks_def)
    with all [of "(x, i)"] that show ?thesis by simp
  qed simp
qed

end
