(* ===== verification/Buddy.thy ===== *)
theory Buddy
  imports Pmm Dlist_Links Buddy_Abs
begin

text \<open>
  The buddy allocator of the kernel heap, \<^verbatim>\<open>mm/buddy.c\<close>, on raw kernel memory: a free block's
  list links are the first two words of its first page, \<^verbatim>\<open>free_areas\<close> holds the list heads, and
  \<^verbatim>\<open>metadata\<close> one record per heap page. The lemmas show that it implements the abstract
  allocator of \<^verbatim>\<open>Buddy_Abs\<close>.
\<close>

section \<open>State\<close>

abbreviation HEAP_START :: u64 where "HEAP_START \<equiv> 0xFFFFE00000000000"

text \<open>\<^verbatim>\<open>page_metadata_t\<close>: the order is a 4-bit field, the flags are single bits.\<close>

record page_metadata =
  order :: "4 word"
  is_free :: bool
  is_slab :: bool

text \<open>
  \<^verbatim>\<open>free_areas\<close> and \<^verbatim>\<open>metadata\<close> are C arrays indexed by \<^verbatim>\<open>int\<close>; the model's are total, and the
  refinement lemmas show that every index the code forms under the invariant lies in the array.
\<close>

record kheap = pmm +
  free_areas :: "nat \<Rightarrow> u64"
  metadata :: "int \<Rightarrow> page_metadata"

text \<open>\<^verbatim>\<open>free_block_t\<close>: \<^verbatim>\<open>prev\<close> at offset 0, \<^verbatim>\<open>next\<close> at offset 8.\<close>

definition blk_prev :: "mem \<Rightarrow> u64 \<Rightarrow> u64" where "blk_prev m a = ld64 m a"
definition blk_next :: "mem \<Rightarrow> u64 \<Rightarrow> u64" where "blk_next m a = ld64 m (a + 8)"
definition set_blk_prev :: "mem \<Rightarrow> u64 \<Rightarrow> u64 \<Rightarrow> mem" where "set_blk_prev m a v = st64 m a v"
definition set_blk_next :: "mem \<Rightarrow> u64 \<Rightarrow> u64 \<Rightarrow> mem" where "set_blk_next m a v = st64 m (a + 8) v"

text \<open>\<^verbatim>\<open>int index = (addr - HEAP_START) / PAGE_SIZE_4KB\<close>, with the truncation to \<^verbatim>\<open>int\<close>.\<close>

definition page_index :: "u64 \<Rightarrow> int" where
  "page_index addr = int_of_u64 ((addr - HEAP_START) div PAGE_SIZE_4KB)"

section \<open>Operations\<close>

definition buddy_list_remove :: "u64 \<Rightarrow> nat \<Rightarrow> 'a kheap_scheme \<Rightarrow> 'a kheap_scheme" where
  "buddy_list_remove addr ord s =
     (let m = kmem s;
          s1 = (if blk_prev m addr \<noteq> 0
                then s\<lparr>kmem := set_blk_next m (blk_prev m addr) (blk_next m addr)\<rparr>
                else s\<lparr>free_areas := (free_areas s)(ord := blk_next m addr)\<rparr>);
          m1 = kmem s1;
          s2 = (if blk_next m1 addr \<noteq> 0
                then s1\<lparr>kmem := set_blk_prev m1 (blk_next m1 addr) (blk_prev m1 addr)\<rparr>
                else s1);
          index = page_index addr
      in s2\<lparr>metadata := (metadata s2)(index := (metadata s2 index)\<lparr>is_free := False\<rparr>)\<rparr>)"

definition buddy_list_add :: "u64 \<Rightarrow> nat \<Rightarrow> 'a kheap_scheme \<Rightarrow> 'a kheap_scheme" where
  "buddy_list_add addr ord s =
     (let m1 = set_blk_prev (kmem s) addr 0;
          m2 = set_blk_next m1 addr (free_areas s ord);
          m3 = (if free_areas s ord \<noteq> 0 then set_blk_prev m2 (free_areas s ord) addr else m2);
          index = page_index addr
      in s\<lparr>kmem := m3, free_areas := (free_areas s)(ord := addr),
           metadata := (metadata s)(index :=
             (metadata s index)\<lparr>is_free := True, is_slab := False, order := of_nat ord\<rparr>)\<rparr>)"

definition init_buddy :: "'a kheap_scheme \<Rightarrow> 'a kheap_scheme" where
  "init_buddy s =
     buddy_list_add HEAP_START MAX_ORDERS
       (s\<lparr>free_areas := (\<lambda>i. if i \<le> MAX_ORDERS then 0 else free_areas s i),
          metadata := (\<lambda>i. if 0 \<le> i \<and> i < int TOTAL_PAGES
            then (metadata s i)\<lparr>is_free := False, order := 0, is_slab := False\<rparr>
            else metadata s i)\<rparr>)"

text \<open>The loops of \<^verbatim>\<open>buddy_alloc\<close>: the search for a non-empty list, and the splitting.\<close>

function buddy_first :: "nat \<Rightarrow> 'a kheap_scheme \<Rightarrow> nat option" where
  "buddy_first i s =
     (if i \<le> MAX_ORDERS then if free_areas s i \<noteq> 0 then Some i else buddy_first (i + 1) s else None)"
  by pat_completeness auto
termination by (relation "measure (\<lambda>(i, s). 13 - i)") auto

declare buddy_first.simps [simp del]

definition buddy_of :: "u64 \<Rightarrow> nat \<Rightarrow> u64" where
  "buddy_of addr i = addr XOR (push_bit i 1 * PAGE_SIZE_4KB)"

fun buddy_split :: "u64 \<Rightarrow> nat \<Rightarrow> nat \<Rightarrow> 'a kheap_scheme \<Rightarrow> 'a kheap_scheme" where
  "buddy_split block_addr 0 ord s = s"
| "buddy_split block_addr (Suc i) ord s =
     (if Suc i > ord
      then buddy_split block_addr i ord (buddy_list_add (buddy_of block_addr i) i s)
      else s)"

definition buddy_alloc :: "nat \<Rightarrow> 'a kheap_scheme \<Rightarrow> u64 \<times> 'a kheap_scheme" where
  "buddy_alloc ord s =
     (case buddy_first ord s of
        None \<Rightarrow> (0, s)
      | Some i \<Rightarrow>
          let block_addr = free_areas s i;
              s1 = buddy_list_remove block_addr i s;
              s2 = buddy_split block_addr i ord s1;
              index = page_index block_addr
          in (block_addr, s2\<lparr>metadata := (metadata s2)(index :=
                (metadata s2 index)\<lparr>order := of_nat ord, is_free := False, is_slab := False\<rparr>)\<rparr>))"

text \<open>The coalescing loop of \<^verbatim>\<open>buddy_free\<close>, with the final address and order.\<close>

function buddy_merge :: "u64 \<Rightarrow> nat \<Rightarrow> 'a kheap_scheme \<Rightarrow> u64 \<times> nat \<times> 'a kheap_scheme" where
  "buddy_merge addr i s =
     (if i < MAX_ORDERS then
        let buddy_addr = buddy_of addr i;
            buddy_index = page_index buddy_addr
        in if is_free (metadata s buddy_index) \<and> unat (order (metadata s buddy_index)) = i
           then buddy_merge (if buddy_addr < addr then buddy_addr else addr) (i + 1)
                  (buddy_list_remove buddy_addr i s)
           else (addr, i, s)
      else (addr, i, s))"
  by pat_completeness auto
termination by (relation "measure (\<lambda>(addr, i, s). 12 - i)") auto

declare buddy_merge.simps [simp del]

definition buddy_free :: "u64 \<Rightarrow> 'a kheap_scheme \<Rightarrow> 'a kheap_scheme" where
  "buddy_free ptr s =
     (case buddy_merge ptr (unat (order (metadata s (page_index ptr)))) s of
        (addr, i, s') \<Rightarrow> buddy_list_add addr i s')"

definition is_buddy_free :: "u64 \<Rightarrow> nat \<Rightarrow> 'a kheap_scheme \<Rightarrow> bool" where
  "is_buddy_free buddy_addr ord s \<longleftrightarrow>
     unat (order (metadata s (page_index buddy_addr))) = ord \<and> is_free (metadata s (page_index buddy_addr))"

section \<open>Heap pages\<close>

text \<open>The address of heap page \<^verbatim>\<open>n\<close>, and what the code's address arithmetic does to it.\<close>

definition page_addr :: "nat \<Rightarrow> u64" where
  "page_addr n = HEAP_START + of_nat n * PAGE_SIZE_4KB"

lemma page_index_offset:
  assumes "n < TOTAL_PAGES" "x < 0x1000"
  shows "page_index (page_addr n + x) = int n"
proof -
  have 1: "unat (of_nat n * 0x1000 + x :: u64) = n * 4096 + unat x"
    using assms by (simp add: unat_word_ariths unat_of_nat word_less_nat_alt)
  have "unat x < 4096" using assms(2) by (simp add: word_less_nat_alt)
  have 2: "unat (0x1000 :: u64) = 4096" by simp
  have "unat ((of_nat n * 0x1000 + x) div 0x1000 :: u64) = (n * 4096 + unat x) div 4096"
    by (simp only: unat_div 1 2)
  also have "\<dots> = n" using \<open>unat x < 4096\<close> by simp
  also have "n = unat (of_nat n :: u64)" using assms(1) by (simp add: unat_of_nat)
  finally have 3: "(of_nat n * 0x1000 + x :: u64) div 0x1000 = of_nat n"
    by (simp only: word_unat_eq_iff)
  have 4: "page_addr n + x - HEAP_START = of_nat n * 0x1000 + x"
    by (simp only: page_addr_def add.assoc add_diff_cancel_left')
  show ?thesis
    unfolding page_index_def int_of_u64_def 4 3 using assms(1)
    by (simp add: unsigned_of_nat signed_of_nat take_bit_nat_eq_self signed_take_bit_int_eq_self)
qed

lemma page_index_addr [simp]: "n < TOTAL_PAGES \<Longrightarrow> page_index (page_addr n) = int n"
  using page_index_offset [of n 0] by simp

lemma page_addr_inj [simp]: "n < TOTAL_PAGES \<Longrightarrow> k < TOTAL_PAGES \<Longrightarrow> page_addr n = page_addr k \<longleftrightarrow> n = k"
  by (metis page_index_addr of_nat_eq_iff)

lemma page_addr_or:
  assumes "n < TOTAL_PAGES"
  shows "page_addr n = HEAP_START OR push_bit 12 (of_nat n)"
proof -
  have n: "(of_nat n :: u64) < 0x1000" using assms by (simp add: word_less_nat_alt unat_of_nat)
  have hs: "\<not> bit HEAP_START k" if "k < 45" for k
  proof -
    have "HEAP_START = push_bit 45 0x7FFFF" by simp
    with that show ?thesis by (simp only: bit_push_bit_iff) simp
  qed
  have "HEAP_START AND push_bit 12 (of_nat n) = 0"
  proof (rule bit_word_eqI)
    fix k :: nat
    have "\<not> bit (of_nat n :: u64) (k - 12)" if "\<not> k < 45"
      by (rule lt_page_bit [OF n]) (use that in simp)
    with hs [of k] show "bit (HEAP_START AND push_bit 12 (of_nat n)) k = bit (0 :: u64) k"
      by (cases "k < 45") (simp_all only: bit_and_iff bit_push_bit_iff bit_0_eq bot_apply bot_bool_def simp_thms)
  qed
  then show ?thesis
    using word_plus_and_or [of HEAP_START "push_bit 12 (of_nat n)"]
    by (simp add: page_addr_def push_bit_eq_mult mult.commute)
qed

lemma page_addr_props [simp]:
  assumes "n < TOTAL_PAGES"
  shows "page_aligned (page_addr n)" "page_addr n \<noteq> 0" "unat (page_addr n) = unat HEAP_START + n * 4096"
proof -
  have "HEAP_START = push_bit 45 0x7FFFF" by simp
  then have "\<not> bit HEAP_START k" if "k < 12" for k using that by (simp only: bit_push_bit_iff) simp
  then show "page_aligned (page_addr n)"
    using page_addr_or [OF assms] by (simp only: page_aligned_bit) (auto simp: bit_simps)
  show u: "unat (page_addr n) = unat HEAP_START + n * 4096"
    using assms by (simp add: page_addr_def unat_word_ariths unat_of_nat)
  then have "unat (page_addr n) \<noteq> unat (0::u64)" by simp
  then show "page_addr n \<noteq> 0" by metis
qed

lemma page_addr_less [simp]:
  "n < TOTAL_PAGES \<Longrightarrow> k < TOTAL_PAGES \<Longrightarrow> page_addr n < page_addr k \<longleftrightarrow> n < k"
  by (simp add: word_less_nat_alt)

lemma flip_bit_less: "n < TOTAL_PAGES \<Longrightarrow> i < MAX_ORDERS \<Longrightarrow> flip_bit i n < TOTAL_PAGES"
proof -
  assume n: "n < TOTAL_PAGES" and i: "i < MAX_ORDERS"
  have "take_bit 12 (flip_bit i n) = flip_bit i (take_bit 12 n)" using i by (simp add: take_bit_flip_bit_eq)
  also have "take_bit 12 n = n" using n by (simp add: take_bit_nat_eq_self)
  finally show ?thesis using take_bit_nat_less_exp [of 12 "flip_bit i n"] by simp
qed

lemma buddy_of_addr [simp]:
  assumes "n < TOTAL_PAGES" "i < MAX_ORDERS"
  shows "buddy_of (page_addr n) i = page_addr (flip_bit i n)"
proof (rule bit_word_eqI)
  fix k :: nat assume k: "k < LENGTH(64)"
  have hs: "\<not> bit HEAP_START (12 + i)"
  proof -
    have "HEAP_START = push_bit 45 0x7FFFF" by simp
    then show ?thesis using assms(2) by (simp only: bit_push_bit_iff) simp
  qed
  have "push_bit i 1 * PAGE_SIZE_4KB = push_bit (12 + i) 1"
    by (simp add: push_bit_eq_mult power_add)
  then have "bit (buddy_of (page_addr n) i) k \<longleftrightarrow> bit (page_addr n) k \<noteq> (k = 12 + i)"
    using k by (auto simp: buddy_of_def bit_simps)
  also have "\<dots> \<longleftrightarrow> (bit HEAP_START k \<or> 12 \<le> k \<and> bit n (k - 12)) \<noteq> (k = 12 + i)"
    unfolding page_addr_or [OF assms(1)] using k by (simp only: bit_or_iff bit_push_bit_iff) (auto simp: bit_simps)
  also have "\<dots> \<longleftrightarrow> bit HEAP_START k \<or> 12 \<le> k \<and> bit (flip_bit i n) (k - 12)"
    using hs by (cases "k = 12 + i") (auto simp: bit_flip_bit_iff)
  also have "\<dots> \<longleftrightarrow> bit (page_addr (flip_bit i n)) k"
    unfolding page_addr_or [OF flip_bit_less [OF assms]] using k by (simp only: bit_or_iff bit_push_bit_iff) (auto simp: bit_simps)
  finally show "bit (buddy_of (page_addr n) i) k = bit (page_addr (flip_bit i n)) k" .
qed

interpretation blk: dlist blk_next blk_prev set_blk_next set_blk_prev "\<lambda>a. page_aligned a \<and> a \<noteq> 0"
  by unfold_locales
    (auto simp: blk_next_def blk_prev_def set_blk_next_def set_blk_prev_def frame_simps)

section \<open>The refinement relation\<close>

definition starts :: "free_lists \<Rightarrow> nat set" where
  "starts L = {n. \<exists>i \<le> MAX_ORDERS. n \<in> set (L i)}"

definition lists_ok :: "free_lists \<Rightarrow> bool" where
  "lists_ok L \<longleftrightarrow> (\<forall>i \<le> MAX_ORDERS. distinct (L i) \<and> set (L i) \<subseteq> {..<TOTAL_PAGES} \<and>
     (\<forall>j \<le> MAX_ORDERS. i \<noteq> j \<longrightarrow> set (L i) \<inter> set (L j) = {}))"

text \<open>
  The code's state represents the lists \<^verbatim>\<open>L\<close>: each list head leads through exactly the blocks of
  its list, and the metadata of a page says free exactly for the first page of a free block, with
  the block's order.
\<close>

definition brel :: "'a kheap_scheme \<Rightarrow> free_lists \<Rightarrow> bool" where
  "brel s L \<longleftrightarrow>
     dlls (blk_next (kmem s)) (blk_prev (kmem s)) (free_areas s) {..MAX_ORDERS} (\<lambda>i. map page_addr (L i)) \<and>
     (\<forall>n < TOTAL_PAGES. is_free (metadata s (int n)) \<longleftrightarrow> n \<in> starts L) \<and>
     (\<forall>i \<le> MAX_ORDERS. \<forall>n \<in> set (L i). order (metadata s (int n)) = of_nat i)"

text \<open>The rest of the state: only the headers of the pages in \<^verbatim>\<open>K\<close> and the allocator's own data change.\<close>

definition only_headers :: "nat set \<Rightarrow> 'a kheap_scheme \<Rightarrow> 'a kheap_scheme \<Rightarrow> bool" where
  "only_headers K s s' \<longleftrightarrow>
     s' = s\<lparr>kmem := kmem s', free_areas := free_areas s', metadata := metadata s'\<rparr> \<and>
     (\<forall>a. (\<forall>k \<in> K. \<forall>x < 16. a \<noteq> page_addr k + x) \<longrightarrow> kmem s' a = kmem s a) \<and>
     (\<forall>j. j \<notin> int ` K \<longrightarrow> metadata s' j = metadata s j)"

lemma only_headers_refl [simp]: "only_headers K s s"
  by (simp add: only_headers_def)

lemma only_headers_trans: "only_headers K s t \<Longrightarrow> only_headers K t u \<Longrightarrow> only_headers K s u"
proof -
  assume st: "only_headers K s t" and tu: "only_headers K t u"
  have "u = s\<lparr>kmem := kmem u, free_areas := free_areas u, metadata := metadata u\<rparr>"
    using st tu unfolding only_headers_def by (cases s, cases t, cases u) simp
  moreover have "kmem u a = kmem s a" if "\<forall>k \<in> K. \<forall>x < 16. a \<noteq> page_addr k + x" for a
    using st tu that unfolding only_headers_def by metis
  moreover have "metadata u j = metadata s j" if "j \<notin> int ` K" for j
    using st tu that unfolding only_headers_def by metis
  ultimately show ?thesis unfolding only_headers_def by blast
qed

lemma only_headers_mono: "only_headers K s t \<Longrightarrow> K \<subseteq> K' \<Longrightarrow> only_headers K' s t"
  unfolding only_headers_def by blast

lemma starts_Cons: "i \<le> MAX_ORDERS \<Longrightarrow> starts (L(i := n # L i)) = insert n (starts L)"
  by (auto simp: starts_def split: if_splits)

lemma starts_remove1:
  "lists_ok L \<Longrightarrow> i \<le> MAX_ORDERS \<Longrightarrow> n \<in> set (L i) \<Longrightarrow> starts (L(i := remove1 n (L i))) = starts L - {n}"
  unfolding starts_def lists_ok_def by (auto split: if_splits)

lemma lists_ok_remove1: "lists_ok L \<Longrightarrow> i \<le> MAX_ORDERS \<Longrightarrow> lists_ok (L(i := remove1 n (L i)))"
  unfolding lists_ok_def by (auto dest: notin_set_remove1 set_remove1_subset [THEN subsetD])

lemma st64_header: "(\<forall>x < 16. b \<noteq> a + x) \<Longrightarrow> st64 m a v b = m b \<and> st64 m (a + 8) v b = m b"
proof -
  assume h: "\<forall>x < 16. b \<noteq> a + x"
  have "b \<noteq> a + of_nat k" "b \<noteq> a + 8 + of_nat k" if "k < 8" for k
  proof -
    have "(of_nat k :: u64) < 16" "8 + (of_nat k :: u64) < 16"
      using that by (auto simp: word_less_nat_alt unat_of_nat unat_word_ariths)
    with h have "b \<noteq> a + of_nat k" "b \<noteq> a + (8 + of_nat k)" by blast+
    then show "b \<noteq> a + of_nat k" "b \<noteq> a + 8 + of_nat k" by (simp_all only: add.assoc not_False_eq_True)
  qed
  then show ?thesis by (auto intro!: st64_other)
qed

lemma set_blk_other:
  "(\<forall>x < 16. b \<noteq> a + x) \<Longrightarrow> set_blk_prev m a v b = m b"
  "(\<forall>x < 16. b \<noteq> a + x) \<Longrightarrow> set_blk_next m a v b = m b"
  using st64_header by (simp_all add: set_blk_prev_def set_blk_next_def)

lemma lists_ok_disjoint: "lists_ok L \<Longrightarrow> i \<le> MAX_ORDERS \<Longrightarrow> j \<le> MAX_ORDERS \<Longrightarrow> i \<noteq> j \<Longrightarrow> set (L i) \<inter> set (L j) = {}"
  unfolding lists_ok_def by metis

lemma lists_ok_less: "lists_ok L \<Longrightarrow> i \<le> MAX_ORDERS \<Longrightarrow> n \<in> set (L i) \<Longrightarrow> n < TOTAL_PAGES"
  unfolding lists_ok_def by blast

lemma lists_ok_distinct: "lists_ok L \<Longrightarrow> i \<le> MAX_ORDERS \<Longrightarrow> distinct (map page_addr (L i))"
  using lists_ok_less [of L i] by (auto simp: distinct_map inj_on_def lists_ok_def)

text \<open>The same for any family of page lists, as addresses.\<close>

definition pages_fam :: "'i set \<Rightarrow> ('i \<Rightarrow> nat list) \<Rightarrow> bool" where
  "pages_fam I X \<longleftrightarrow> (\<forall>i \<in> I. distinct (X i) \<and> set (X i) \<subseteq> {..<TOTAL_PAGES} \<and>
     (\<forall>j \<in> I. i \<noteq> j \<longrightarrow> set (X i) \<inter> set (X j) = {}))"

lemma lists_ok_fam: "lists_ok L \<longleftrightarrow> pages_fam {..MAX_ORDERS} L"
  unfolding lists_ok_def pages_fam_def Ball_def atMost_iff by blast

lemma pages_famD:
  assumes "pages_fam I X" "i \<in> I"
  shows "distinct (X i)" "n \<in> set (X i) \<Longrightarrow> n < TOTAL_PAGES"
    "j \<in> I \<Longrightarrow> i \<noteq> j \<Longrightarrow> n \<in> set (X i) \<Longrightarrow> n \<notin> set (X j)"
  using assms unfolding pages_fam_def by blast+

lemma map_remove1_inj: "inj_on f (insert x (set xs)) \<Longrightarrow> map f (remove1 x xs) = remove1 (f x) (map f xs)"
  by (induction xs) (auto simp: inj_on_def)

lemma page_addr_mem:
  assumes "pages_fam I X" "i \<in> I" "n < TOTAL_PAGES"
  shows "page_addr n \<in> set (map page_addr (X i)) \<longleftrightarrow> n \<in> set (X i)"
proof -
  have "page_addr n = page_addr k \<longleftrightarrow> n = k" if "k \<in> set (X i)" for k
    using page_addr_inj [OF assms(3) pages_famD(2) [OF assms(1,2) that]] .
  then show ?thesis unfolding set_map image_iff by blast
qed

lemma map_page_addr_remove1:
  assumes "pages_fam I X" "i \<in> I" "n \<in> set (X i)"
  shows "map page_addr (remove1 n (X i)) = remove1 (page_addr n) (map page_addr (X i))"
  by (rule map_remove1_inj) (use assms pages_famD(2) [OF assms(1,2)] in \<open>auto simp: inj_on_def\<close>)

lemma pages_family:
  assumes "pages_fam I X"
  shows "family_ok (\<lambda>a. page_aligned a \<and> a \<noteq> 0) I (\<lambda>i. map page_addr (X i))"
  unfolding family_ok_def
proof (intro ballI conjI impI)
  fix i assume i: "i \<in> I"
  note fam = pages_famD [OF assms i]
  show "distinct (map page_addr (X i))" using fam(1,2) by (auto simp: distinct_map inj_on_def)
  fix a assume "a \<in> set (map page_addr (X i))"
  then obtain k where k: "a = page_addr k" "k \<in> set (X i)" by auto
  show "page_aligned a" "a \<noteq> 0" unfolding k(1) using fam(2) [OF k(2)] by (rule page_addr_props)+
next
  fix i j assume i: "i \<in> I" and j: "j \<in> I" "i \<noteq> j"
  note fam = pages_famD [OF assms i]
  show "set (map page_addr (X i)) \<inter> set (map page_addr (X j)) = {}"
    unfolding disjoint_iff
  proof (intro allI impI)
    fix x assume "x \<in> set (map page_addr (X i))"
    then obtain k where k: "x = page_addr k" "k \<in> set (X i)" by auto
    then have "k \<notin> set (X j)" using fam(3) [OF j] by blast
    with k page_addr_mem [OF assms j(1) fam(2) [OF k(2)]] show "x \<notin> set (map page_addr (X j))" by blast
  qed
qed

lemmas lists_family = pages_family [OF lists_ok_fam [THEN iffD1]]

lemma list_remove_links:
  assumes L: "lists_ok L" and i: "i \<le> MAX_ORDERS" and n: "n \<in> set (L i)"
    and d: "dlls (blk_next (kmem s)) (blk_prev (kmem s)) (free_areas s) {..MAX_ORDERS} (\<lambda>i. map page_addr (L i))"
  shows "dlls (blk_next (kmem (buddy_list_remove (page_addr n) i s)))
    (blk_prev (kmem (buddy_list_remove (page_addr n) i s)))
    (free_areas (buddy_list_remove (page_addr n) i s)) {..MAX_ORDERS}
    (\<lambda>j. map page_addr ((L(i := remove1 n (L i))) j))"
proof -
  let ?a = "page_addr n" and ?m = "kmem s" and ?s' = "buddy_list_remove (page_addr n) i s"
  define m1 where "m1 = (if blk_prev ?m ?a \<noteq> 0 then set_blk_next ?m (blk_prev ?m ?a) (blk_next ?m ?a) else ?m)"
  define m2 where "m2 = (if blk_next m1 ?a \<noteq> 0 then set_blk_prev m1 (blk_next m1 ?a) (blk_prev m1 ?a) else m1)"
  have X: "(\<lambda>j. map page_addr ((L(i := remove1 n (L i))) j))
      = (\<lambda>j. map page_addr (L j))(i := remove1 ?a (map page_addr (L i)))"
    using map_page_addr_remove1 [OF lists_ok_fam [THEN iffD1, OF L], of i n] i n by (auto simp: fun_eq_iff)
  have s': "kmem ?s' = m2" "free_areas ?s' =
      (free_areas s)(i := if blk_prev ?m ?a \<noteq> 0 then free_areas s i else blk_next ?m ?a)"
    by (simp_all add: buddy_list_remove_def Let_def m1_def m2_def)
  show ?thesis
    unfolding s' X
    by (rule blk.family_unlink_dlls(1) [OF d lists_family [OF L] _ _ disjI1 [OF conjI [OF m1_def m2_def]]])
      (use i n in auto)
qed

lemma list_remove_metadata:
  "metadata (buddy_list_remove a i s) =
     (metadata s)(page_index a := (metadata s (page_index a))\<lparr>is_free := False\<rparr>)"
  by (simp add: buddy_list_remove_def Let_def)

lemma list_remove_brel:
  assumes L: "lists_ok L" and r: "brel s L" and i: "i \<le> MAX_ORDERS" and n: "n \<in> set (L i)"
  shows "brel (buddy_list_remove (page_addr n) i s) (L(i := remove1 n (L i)))"
proof -
  let ?s' = "buddy_list_remove (page_addr n) i s" and ?L' = "L(i := remove1 n (L i))"
  have n4: "n < TOTAL_PAGES" using lists_ok_less [OF L i n] .
  have "order (metadata s (int k)) = of_nat j" if "j \<le> MAX_ORDERS" "k \<in> set ((L(i := remove1 n (L i))) j)" for j k
    using r that unfolding brel_def by (auto split: if_splits dest: set_remove1_subset [THEN subsetD])
  moreover have "dlls (blk_next (kmem ?s')) (blk_prev (kmem ?s')) (free_areas ?s') {..MAX_ORDERS} (\<lambda>j. map page_addr (?L' j))"
    by (rule list_remove_links [OF L i n]) (use r in \<open>simp add: brel_def\<close>)
  ultimately show ?thesis
    using r n4 unfolding brel_def starts_remove1 [OF L i n] by (simp add: list_remove_metadata)
qed

lemma list_remove_frame:
  assumes L: "lists_ok L" and r: "brel s L" and i: "i \<le> MAX_ORDERS" and n: "n \<in> set (L i)"
  shows "only_headers (starts L) s (buddy_list_remove (page_addr n) i s)"
proof -
  let ?a = "page_addr n" and ?m = "kmem s" and ?K = "starts L"
  have d: "dll (blk_next ?m) (blk_prev ?m) 0 (free_areas s i) (map page_addr (L i))"
    using r i by (simp add: brel_def dlls_def)
  have sub: "set (L i) \<subseteq> ?K" using i by (auto simp: starts_def)
  have pv: "blk_prev ?m ?a = 0 \<or> blk_prev ?m ?a \<in> page_addr ` ?K"
    and nx: "blk_next ?m ?a = 0 \<or> blk_next ?m ?a \<in> page_addr ` ?K"
    using dll_prev_cases [OF d, of ?a] dll_next_cases [OF d, of ?a] n sub by auto
  define m1 where "m1 = (if blk_prev ?m ?a \<noteq> 0 then set_blk_next ?m (blk_prev ?m ?a) (blk_next ?m ?a) else ?m)"
  define m2 where "m2 = (if blk_next m1 ?a \<noteq> 0 then set_blk_prev m1 (blk_next m1 ?a) (blk_prev m1 ?a) else m1)"
  have ds: "dlls (blk_next ?m) (blk_prev ?m) (free_areas s) {..MAX_ORDERS} (\<lambda>i. map page_addr (L i))"
    using r by (simp add: brel_def)
  have "blk_next m1 ?a = blk_next ?m ?a"
    by (rule blk.family_unlink_dlls(3) [OF ds lists_family [OF L] _ _ disjI1 [OF conjI [OF m1_def m2_def]]])
      (use i n in auto)
  then have keep: "blk_prev ?m ?a \<noteq> 0 \<Longrightarrow> blk_next (set_blk_next ?m (blk_prev ?m ?a) (blk_next ?m ?a)) ?a = blk_next ?m ?a"
    by (simp add: m1_def)
  have "kmem (buddy_list_remove ?a i s) b = ?m b" if b: "\<forall>k \<in> ?K. \<forall>x < 16. b \<noteq> page_addr k + x" for b
    using pv nx b keep by (auto simp: buddy_list_remove_def Let_def set_blk_other)
  moreover have "int n \<in> int ` ?K" using n sub by blast
  then have "metadata (buddy_list_remove ?a i s) j = metadata s j" if "j \<notin> int ` ?K" for j
    using that lists_ok_less [OF L i n] by (auto simp: list_remove_metadata)
  ultimately show ?thesis
    by (simp add: only_headers_def) (simp add: buddy_list_remove_def Let_def)
qed

lemma lists_ok_Cons:
  assumes "lists_ok L" "n < TOTAL_PAGES" "n \<notin> starts L" "i \<le> MAX_ORDERS"
  shows "lists_ok (L(i := n # L i))"
  using assms unfolding lists_ok_def starts_def by auto

lemma list_add_kmem:
  "kmem (buddy_list_add a i s) = (if free_areas s i \<noteq> 0
     then set_blk_prev (set_blk_next (set_blk_prev (kmem s) a 0) a (free_areas s i)) (free_areas s i) a
     else set_blk_next (set_blk_prev (kmem s) a 0) a (free_areas s i))"
  by (simp add: buddy_list_add_def Let_def)

lemma list_add_fields:
  "free_areas (buddy_list_add a i s) = (free_areas s)(i := a)"
  "metadata (buddy_list_add a i s) = (metadata s)(page_index a :=
     (metadata s (page_index a))\<lparr>is_free := True, is_slab := False, order := of_nat i\<rparr>)"
  by (simp_all add: buddy_list_add_def Let_def)

lemma brel_links: "brel s L \<Longrightarrow> i \<le> MAX_ORDERS \<Longrightarrow>
    dll (blk_next (kmem s)) (blk_prev (kmem s)) 0 (free_areas s i) (map page_addr (L i))"
  by (simp add: brel_def dlls_def)

lemma brel_head:
  assumes "lists_ok L" "brel s L" "i \<le> MAX_ORDERS"
  shows "free_areas s i = (if L i = [] then 0 else page_addr (hd (L i)))"
  using brel_links [OF assms(2,3)] by (cases "L i") auto

lemma list_add_links:
  assumes L: "lists_ok L" and r: "brel s L" and i: "i \<le> MAX_ORDERS" and n: "n < TOTAL_PAGES" "n \<notin> starts L"
  shows "dlls (blk_next (kmem (buddy_list_add (page_addr n) i s)))
    (blk_prev (kmem (buddy_list_add (page_addr n) i s)))
    (free_areas (buddy_list_add (page_addr n) i s)) {..MAX_ORDERS} (\<lambda>j. map page_addr ((L(i := n # L i)) j))"
proof -
  have X: "(\<lambda>j. map page_addr ((L(i := n # L i)) j))
      = (\<lambda>j. map page_addr (L j))(i := page_addr n # map page_addr (L i))"
    by (auto simp: fun_eq_iff)
  have "page_addr n \<notin> set (map page_addr (L j))" if "j \<le> MAX_ORDERS" for j
    using page_addr_mem [OF lists_ok_fam [THEN iffD1, OF L], of j n] n that by (auto simp: starts_def)
  then show ?thesis
    unfolding X list_add_fields
    by (intro blk.family_push_dlls [OF _ lists_family [OF L]] disjI1 list_add_kmem)
      (use r i n in \<open>auto simp: brel_def list_add_kmem\<close>)
qed

lemma list_add_brel:
  assumes L: "lists_ok L" and r: "brel s L" and i: "i \<le> MAX_ORDERS" and n: "n < TOTAL_PAGES" "n \<notin> starts L"
  shows "brel (buddy_list_add (page_addr n) i s) (L(i := n # L i))"
proof -
  let ?s' = "buddy_list_add (page_addr n) i s" and ?L' = "L(i := n # L i)"
  have "order (metadata ?s' (int k)) = of_nat j" if j: "j \<le> MAX_ORDERS" and k: "k \<in> set (?L' j)" for j k
  proof (cases "k = n")
    case True
    then have "j = i" using j k n by (auto simp: starts_def split: if_splits)
    with True n show ?thesis by (simp add: list_add_fields)
  next
    case False
    then have "k \<in> set (L j)" using k by (auto split: if_splits)
    with False r j n show ?thesis by (auto simp: list_add_fields brel_def)
  qed
  moreover have "dlls (blk_next (kmem ?s')) (blk_prev (kmem ?s')) (free_areas ?s') {..MAX_ORDERS} (\<lambda>j. map page_addr (?L' j))"
    by (rule list_add_links [OF L r i n])
  ultimately show ?thesis
    using r n unfolding brel_def starts_Cons [OF i] by (simp add: list_add_fields)
qed

lemma list_add_frame:
  assumes L: "lists_ok L" and r: "brel s L" and i: "i \<le> MAX_ORDERS" and n: "n < TOTAL_PAGES"
  shows "only_headers (insert n (starts L)) s (buddy_list_add (page_addr n) i s)"
proof -
  have "L i \<noteq> [] \<Longrightarrow> hd (L i) \<in> starts L" using i by (auto simp: starts_def)
  then have "kmem (buddy_list_add (page_addr n) i s) b = kmem s b"
    if "\<forall>k \<in> insert n (starts L). \<forall>x < 16. b \<noteq> page_addr k + x" for b
    using that brel_head [OF L r i] by (auto simp: list_add_kmem set_blk_other split: if_splits)
  moreover have "metadata (buddy_list_add (page_addr n) i s) j = metadata s j"
    if "j \<notin> int ` insert n (starts L)" for j
    using that n by (auto simp: list_add_fields)
  ultimately show ?thesis
    by (simp add: only_headers_def) (simp add: buddy_list_add_def Let_def)
qed

section \<open>Simulation of the loops\<close>

definition orders_ok :: "'a kheap_scheme \<Rightarrow> block set \<Rightarrow> bool" where
  "orders_ok s A \<longleftrightarrow> (\<forall>b \<in> A. order (metadata s (int (fst b))) = of_nat (snd b))"

definition heap_rel :: "'a kheap_scheme \<Rightarrow> free_lists \<Rightarrow> block set \<Rightarrow> bool" where
  "heap_rel s L A \<longleftrightarrow> brel s L \<and> buddy_inv L A \<and> orders_ok s A"

definition hand_rel :: "'a kheap_scheme \<Rightarrow> nat \<Rightarrow> nat \<Rightarrow> free_lists \<Rightarrow> block set \<Rightarrow> bool" where
  "hand_rel s n i L A \<longleftrightarrow> brel s L \<and> in_hand n i L A \<and> orders_ok s A"

lemma start_in_pages [simp]: "n \<in> pages (n, i)"
  by (simp add: pages_def)

lemma tiling_less: "tiling B \<Longrightarrow> (k, j) \<in> B \<Longrightarrow> k < TOTAL_PAGES"
proof -
  assume "tiling B" "(k, j) \<in> B"
  then have "block_ok (k, j)" by (rule tilingD(1))
  moreover have "(0 :: nat) < 2 ^ j" by simp
  ultimately show ?thesis unfolding block_ok_def fst_conv snd_conv by linarith
qed

lemma tiling_lists_ok:
  assumes t: "tiling B" "free_blocks L \<subseteq> B" and d: "\<forall>i \<le> MAX_ORDERS. distinct (L i)"
  shows "lists_ok L"
proof -
  have mem: "(k, j) \<in> B" if "j \<le> MAX_ORDERS" "k \<in> set (L j)" for k j
    using t(2) that by (auto simp: free_blocks_def)
  have less: "k < TOTAL_PAGES" if "(k, j) \<in> B" for k j using tiling_less [OF t(1) that] .
  have uniq: "i = j" if "(k, i) \<in> B" "(k, j) \<in> B" for k i j using tiling_unique [OF t(1) that] .
  show ?thesis
    unfolding lists_ok_def using d mem less uniq by (auto simp: disjoint_iff subset_iff) metis+
qed

lemma tiling_starts:
  assumes t: "tiling (insert (n, i) (free_blocks L \<union> A))" and nA: "(n, i) \<notin> A" and "free_blocks L \<inter> A = {}"
  shows "insert n (starts L) \<subseteq> free_pages A"
proof -
  have *: "k \<in> free_pages A" if k: "(k, j) \<in> insert (n, i) (free_blocks L)" for k j
  proof -
    have mem: "(k, j) \<in> insert (n, i) (free_blocks L \<union> A)" "(k, j) \<notin> A" using k nA assms(3) by blast+
    have "k \<notin> pages b" if "b \<in> A" for b
    proof
      assume "k \<in> pages b"
      moreover have "b \<in> insert (n, i) (free_blocks L \<union> A)" using that by blast
      ultimately have "(k, j) = b" using tilingD(2) [OF t mem(1)] start_in_pages by blast
      with that mem(2) show False by simp
    qed
    moreover have "k < TOTAL_PAGES" using tiling_less [OF t mem(1)] .
    ultimately show ?thesis by (auto simp: free_pages_def)
  qed
  then show ?thesis by (auto simp: starts_def free_blocks_def)
qed

lemma in_hand_lists_ok: "in_hand n i L A \<Longrightarrow> lists_ok L"
  unfolding in_hand_def by (rule tiling_lists_ok) auto

lemma buddy_inv_lists_ok: "buddy_inv L A \<Longrightarrow> lists_ok L"
  unfolding buddy_inv_def by (rule tiling_lists_ok) auto

lemma in_hand_starts: "in_hand n i L A \<Longrightarrow> insert n (starts L) \<subseteq> free_pages A"
  unfolding in_hand_def by (rule tiling_starts) auto

lemma in_hand_less: "in_hand n i L A \<Longrightarrow> n < TOTAL_PAGES"
  using in_hand_starts [of n i L A] by (auto simp: free_pages_def)

lemma in_hand_not_start: "in_hand n i L A \<Longrightarrow> n \<notin> starts L"
  using in_hand_notin [of n i L A] by (auto simp: starts_def)

lemma orders_ok_upd:
  assumes "orders_ok s A" "n \<in> free_pages A" "\<And>k. k \<noteq> n \<Longrightarrow> metadata s' (int k) = metadata s (int k)"
  shows "orders_ok s' A"
proof -
  have "fst b \<noteq> n" if "b \<in> A" for b
    using that assms(2) start_in_pages [of "fst b" "snd b"] by (auto simp: free_pages_def)
  with assms show ?thesis by (simp add: orders_ok_def)
qed

lemma list_add_hand:
  assumes r: "hand_rel s n i L A" and i: "i \<le> MAX_ORDERS"
  shows "orders_ok (buddy_list_add (page_addr n) i s) A" "brel (buddy_list_add (page_addr n) i s) (L(i := n # L i))"
    "only_headers (free_pages A) s (buddy_list_add (page_addr n) i s)"
proof -
  have h: "in_hand n i L A" and b: "brel s L" and ord: "orders_ok s A" using r by (simp_all add: hand_rel_def)
  note L = in_hand_lists_ok [OF h] and n = in_hand_less [OF h] in_hand_not_start [OF h]
  show "orders_ok (buddy_list_add (page_addr n) i s) A"
    using ord n(1) in_hand_starts [OF h] by (auto intro: orders_ok_upd simp: list_add_fields)
  show "brel (buddy_list_add (page_addr n) i s) (L(i := n # L i))"
    by (rule list_add_brel [OF L b i n])
  show "only_headers (free_pages A) s (buddy_list_add (page_addr n) i s)"
    by (rule only_headers_mono [OF list_add_frame [OF L b i n(1)] in_hand_starts [OF h]])
qed

lemma split_step:
  assumes r: "hand_rel s n (Suc i) L A" and i: "Suc i \<le> MAX_ORDERS"
  shows "hand_rel (buddy_list_add (page_addr (flip_bit i n)) i s) n i (L(i := flip_bit i n # L i)) A"
    "only_headers (free_pages A) s (buddy_list_add (page_addr (flip_bit i n)) i s)"
proof -
  let ?f = "flip_bit i n"
  have h: "in_hand n (Suc i) L A" and b: "brel s L" and ord: "orders_ok s A" using r by (simp_all add: hand_rel_def)
  note h' = in_hand_split [OF h i] and L = in_hand_lists_ok [OF h]
  have sub: "insert ?f (starts L) \<subseteq> free_pages A"
    using in_hand_starts [OF h'] i by (simp add: starts_Cons)
  have f: "?f < TOTAL_PAGES" using sub by (auto simp: free_pages_def)
  have "?f \<notin> set (L j)" if j: "j \<le> MAX_ORDERS" for j
  proof
    assume f: "?f \<in> set (L j)"
    with lists_ok_disjoint [OF in_hand_lists_ok [OF h'], of i j] i j have "i = j" by auto
    moreover have "distinct ((L(i := ?f # L i)) i)"
      using in_hand_lists_ok [OF h'] i Suc_leD unfolding lists_ok_def by blast
    ultimately show False using f by simp
  qed
  then have nf: "?f \<notin> starts L" by (simp add: starts_def)
  show "only_headers (free_pages A) s (buddy_list_add (page_addr ?f) i s)"
    by (rule only_headers_mono [OF list_add_frame [OF L b _ f] sub]) (use i in simp)
  have "orders_ok (buddy_list_add (page_addr ?f) i s) A"
    using ord f sub by (auto intro: orders_ok_upd simp: list_add_fields)
  moreover have "brel (buddy_list_add (page_addr ?f) i s) (L(i := ?f # L i))"
    by (rule list_add_brel [OF L b _ f nf]) (use i in simp)
  ultimately show "hand_rel (buddy_list_add (page_addr ?f) i s) n i (L(i := ?f # L i)) A"
    using h' by (simp add: hand_rel_def)
qed

lemma merge_step:
  assumes r: "hand_rel s n i L A" and i: "i < MAX_ORDERS" and m: "flip_bit i n \<in> set (L i)"
  shows "hand_rel (buddy_list_remove (page_addr (flip_bit i n)) i s) (min n (flip_bit i n)) (Suc i)
      (L(i := remove1 (flip_bit i n) (L i))) A"
    "only_headers (free_pages A) s (buddy_list_remove (page_addr (flip_bit i n)) i s)"
proof -
  let ?f = "flip_bit i n"
  have h: "in_hand n i L A" and b: "brel s L" and ord: "orders_ok s A" using r by (simp_all add: hand_rel_def)
  note h' = in_hand_merge [OF h i m] and L = in_hand_lists_ok [OF h]
  have i': "i \<le> MAX_ORDERS" using i by simp
  have sub: "starts L \<subseteq> free_pages A" using in_hand_starts [OF h] by simp
  show "only_headers (free_pages A) s (buddy_list_remove (page_addr ?f) i s)"
    by (rule only_headers_mono [OF list_remove_frame [OF L b i' m] sub])
  have "?f \<in> free_pages A" using sub m i' by (auto simp: starts_def)
  then have "orders_ok (buddy_list_remove (page_addr ?f) i s) A"
    by (rule orders_ok_upd [OF ord]) (use lists_ok_less [OF L i' m] in \<open>simp add: list_remove_metadata\<close>)
  with h' list_remove_brel [OF L b i' m]
  show "hand_rel (buddy_list_remove (page_addr ?f) i s) (min n ?f) (Suc i) (L(i := remove1 ?f (L i))) A"
    by (simp add: hand_rel_def)
qed

lemma buddy_first_abs:
  "lists_ok L \<Longrightarrow> brel s L \<Longrightarrow> buddy_first i s = abs_first i L"
proof (induction i s rule: buddy_first.induct)
  case (1 i s)
  have "i \<le> MAX_ORDERS \<Longrightarrow> L i \<noteq> [] \<Longrightarrow> hd (L i) < TOTAL_PAGES"
    using lists_ok_less [OF "1.prems"(1)] by simp
  with 1 brel_head [OF "1.prems"] show ?case
    by (subst buddy_first.simps, subst abs_first.simps) auto
qed

lemma buddy_split_sim:
  "hand_rel s n i L A \<Longrightarrow> i \<le> MAX_ORDERS \<Longrightarrow> ord \<le> i \<Longrightarrow>
    hand_rel (buddy_split (page_addr n) i ord s) n ord (abs_split n i ord L) A \<and>
    only_headers (free_pages A) s (buddy_split (page_addr n) i ord s)"
proof (induction i arbitrary: s L)
  case (Suc i)
  show ?case
  proof (cases "Suc i > ord")
    case True
    have n: "n < TOTAL_PAGES" using Suc.prems(1) in_hand_less by (auto simp: hand_rel_def)
    note st = split_step [OF Suc.prems(1,2)]
    have i: "i < MAX_ORDERS" "i \<le> MAX_ORDERS" "ord \<le> i" using Suc.prems True by simp_all
    from Suc.IH [OF st(1) i(2,3)] st(2) n i(1) True show ?thesis
      by (auto intro: only_headers_trans simp: fun_upd_def)
  next
    case False
    with Suc.prems have "ord = Suc i" by simp
    moreover have "abs_split n (Suc i) (Suc i) L = L" "buddy_split (page_addr n) (Suc i) (Suc i) s = s" by simp_all
    ultimately show ?thesis using Suc.prems by simp
  qed
qed simp

lemma buddy_merge_cond:
  assumes r: "hand_rel s n i L A" and i: "i < MAX_ORDERS"
  shows "is_free (metadata s (page_index (page_addr (flip_bit i n)))) \<and>
      unat (order (metadata s (page_index (page_addr (flip_bit i n))))) = i \<longleftrightarrow> flip_bit i n \<in> set (L i)"
proof -
  have h: "in_hand n i L A" and b: "brel s L" using r by (simp_all add: hand_rel_def)
  have f: "flip_bit i n < TOTAL_PAGES" by (rule flip_bit_less [OF in_hand_less [OF h] i])
  have un: "unat (of_nat j :: 4 word) = j" if "j \<le> MAX_ORDERS" for j
    using that by (simp add: unat_of_nat)
  show ?thesis
  proof
    assume m: "flip_bit i n \<in> set (L i)"
    have i': "i \<le> MAX_ORDERS" using i by simp
    have "order (metadata s (int (flip_bit i n))) = of_nat i" using b m i' by (simp add: brel_def)
    moreover have "flip_bit i n \<in> starts L" using m i' by (auto simp: starts_def)
    ultimately show "is_free (metadata s (page_index (page_addr (flip_bit i n)))) \<and>
      unat (order (metadata s (page_index (page_addr (flip_bit i n))))) = i"
      using b f un [OF i'] by (simp add: brel_def)
  next
    assume a: "is_free (metadata s (page_index (page_addr (flip_bit i n)))) \<and>
      unat (order (metadata s (page_index (page_addr (flip_bit i n))))) = i"
    then obtain j where j: "j \<le> MAX_ORDERS" "flip_bit i n \<in> set (L j)"
      using b f by (auto simp: brel_def starts_def)
    then have "order (metadata s (int (flip_bit i n))) = of_nat j" using b by (simp add: brel_def)
    with a f un [OF j(1)] j show "flip_bit i n \<in> set (L i)" by simp
  qed
qed

lemma buddy_merge_sim:
  "hand_rel s n i L A \<Longrightarrow> abs_merge n i L = (n', i', L') \<Longrightarrow>
    \<exists>s'. buddy_merge (page_addr n) i s = (page_addr n', i', s') \<and> hand_rel s' n' i' L' A \<and>
      only_headers (free_pages A) s s'"
proof (induction n i L arbitrary: s rule: abs_merge.induct)
  case (1 n i L)
  have h: "in_hand n i L A" using "1.prems"(1) by (simp add: hand_rel_def)
  note n = in_hand_less [OF h]
  show ?case
  proof (cases "i < MAX_ORDERS \<and> flip_bit i n \<in> set (L i)")
    case True
    then have i: "i < MAX_ORDERS" and m: "flip_bit i n \<in> set (L i)" by simp_all
    let ?f = "flip_bit i n" and ?t = "buddy_list_remove (page_addr (flip_bit i n)) i s"
    note st = merge_step [OF "1.prems"(1) i m]
    have f: "?f < TOTAL_PAGES" by (rule flip_bit_less [OF n i])
    have eq: "abs_merge (min n ?f) (i + 1) (L(i := remove1 ?f (L i))) = (n', i', L')"
      using "1.prems"(2) True by (subst (asm) abs_merge.simps) (simp split: if_splits)
    have "hand_rel ?t (min n ?f) (i + 1) (L(i := remove1 ?f (L i))) A" using st(1) by simp
    from "1.IH" [OF True this eq] obtain s' where
      s': "buddy_merge (page_addr (min n ?f)) (i + 1) ?t = (page_addr n', i', s')" "hand_rel s' n' i' L' A"
        "only_headers (free_pages A) ?t s'" by blast
    have "(if page_addr ?f < page_addr n then page_addr ?f else page_addr n) = page_addr (min n ?f)"
      using n f by (auto simp: min_def)
    then have "buddy_merge (page_addr n) i s = buddy_merge (page_addr (min n ?f)) (i + 1) ?t"
      using buddy_merge_cond [OF "1.prems"(1) i] m i n
      by (subst buddy_merge.simps) (simp add: Let_def)
    with s' only_headers_trans [OF st(2)] show ?thesis by auto
  next
    case False
    have "abs_merge n i L = (n, i, L)" by (subst abs_merge.simps) (simp only: False if_False)
    moreover have "buddy_merge (page_addr n) i s = (page_addr n, i, s)"
    proof (cases "i < MAX_ORDERS")
      case True
      with False buddy_merge_cond [OF "1.prems"(1) True] n show ?thesis
        by (subst buddy_merge.simps) (auto simp: Let_def)
    qed (subst buddy_merge.simps, simp)
    ultimately show ?thesis using "1.prems" by auto
  qed
qed

section \<open>Allocation and freeing\<close>

lemma only_headers_metadata:
  "only_headers K s t \<Longrightarrow> k \<in> K \<Longrightarrow> only_headers K s (t\<lparr>metadata := (metadata t)(int k := d)\<rparr>)"
  unfolding only_headers_def by (cases s, cases t) auto

lemma buddy_alloc_sim:
  assumes r: "heap_rel s L A" and al: "abs_alloc ord L = Some (n, L')"
  shows "\<exists>s'. buddy_alloc ord s = (page_addr n, s') \<and> heap_rel s' L' (insert (n, ord) A) \<and>
    only_headers (free_pages A) s s' \<and> n < TOTAL_PAGES \<and> \<not> is_slab (metadata s' (int n))"
proof -
  have b: "brel s L" and inv: "buddy_inv L A" and oA: "orders_ok s A" using r by (simp_all add: heap_rel_def)
  note L = buddy_inv_lists_ok [OF inv]
  obtain i where f: "abs_first ord L = Some i" and n: "n = hd (L i)"
    and L': "L' = abs_split n i ord (L(i := tl (L i)))"
    using al by (auto simp: abs_alloc_def Let_def split: option.splits)
  note i = abs_first_Some [OF f]
  then have nL: "n \<in> set (L i)" and tl: "tl (L i) = remove1 n (L i)" using n by (cases "L i"; simp)+
  have i12: "i \<le> MAX_ORDERS" using i by simp
  note take = buddy_inv_takeI [OF inv i12 nL]
  have nA: "n \<in> free_pages A" using in_hand_starts [OF take] by simp
  then have n4: "n < TOTAL_PAGES" by (simp add: free_pages_def)
  have head: "free_areas s i = page_addr n" using brel_head [OF L b i12] i n by simp
  let ?s1 = "buddy_list_remove (page_addr n) i s"
  have sub: "starts L \<subseteq> free_pages A"
    using in_hand_starts [OF take] starts_remove1 [OF L i12 nL] nA by auto
  have fr1: "only_headers (free_pages A) s ?s1"
    by (rule only_headers_mono [OF list_remove_frame [OF L b i12 nL] sub])
  have "orders_ok ?s1 A"
    by (rule orders_ok_upd [OF oA nA]) (use n4 in \<open>simp add: list_remove_metadata\<close>)
  with list_remove_brel [OF L b i12 nL] take have h1: "hand_rel ?s1 n i (L(i := tl (L i))) A"
    by (simp add: hand_rel_def tl)
  let ?s2 = "buddy_split (page_addr n) i ord ?s1"
  have h2: "hand_rel ?s2 n ord L' A" and fr2: "only_headers (free_pages A) ?s1 ?s2"
    using buddy_split_sim [OF h1 i12, of ord] i unfolding L' by simp_all
  let ?s3 = "?s2\<lparr>metadata := (metadata ?s2)(int n :=
      (metadata ?s2 (int n))\<lparr>order := of_nat ord, is_free := False, is_slab := False\<rparr>)\<rparr>"
  have ih: "in_hand n ord L' A" using h2 by (simp add: hand_rel_def)
  have nL': "n \<notin> starts L'" by (rule in_hand_not_start [OF ih])
  then have "n \<notin> set (L' j)" if "j \<le> MAX_ORDERS" for j using that by (auto simp: starts_def)
  then have "brel ?s3 L'"
    using h2 nL' by (auto simp: hand_rel_def brel_def)
  moreover have "orders_ok ?s3 A"
    by (rule orders_ok_upd [where n = n]) (use h2 nA in \<open>simp_all add: hand_rel_def\<close>)
  then have "orders_ok ?s3 (insert (n, ord) A)" by (simp add: orders_ok_def)
  ultimately have "heap_rel ?s3 L' (insert (n, ord) A)"
    using in_hand_allocated [OF ih] by (simp add: heap_rel_def)
  moreover have "buddy_alloc ord s = (page_addr n, ?s3)"
    unfolding buddy_alloc_def buddy_first_abs [OF L b] f using n4 by (simp add: head Let_def)
  moreover have "only_headers (free_pages A) s ?s3"
    by (rule only_headers_metadata [OF only_headers_trans [OF fr1 fr2] nA])
  ultimately show ?thesis using n4 by (intro exI [of _ ?s3]) simp
qed

lemma buddy_alloc_none:
  assumes r: "heap_rel s L A" and al: "abs_alloc ord L = None"
  shows "buddy_alloc ord s = (0, s)"
proof -
  have b: "brel s L" and inv: "buddy_inv L A" using r by (simp_all add: heap_rel_def)
  have "abs_first ord L = None" using al by (auto simp: abs_alloc_def Let_def split: option.splits)
  then show ?thesis by (simp add: buddy_alloc_def buddy_first_abs [OF buddy_inv_lists_ok [OF inv] b])
qed

lemma buddy_free_sim:
  assumes r: "heap_rel s L A" and mem: "(n, i) \<in> A"
  shows "heap_rel (buddy_free (page_addr n) s) (abs_free n i L) (A - {(n, i)})"
    "only_headers (free_pages (A - {(n, i)})) s (buddy_free (page_addr n) s)"
proof -
  let ?A = "A - {(n, i)}"
  have h: "hand_rel s n i L ?A"
    using r in_hand_of_allocated [OF _ mem] by (auto simp: heap_rel_def hand_rel_def orders_ok_def)
  then have ih: "in_hand n i L ?A" by (simp add: hand_rel_def)
  obtain n' i' L' where m: "abs_merge n i L = (n', i', L')" by (metis prod_cases3)
  obtain s' where s': "buddy_merge (page_addr n) i s = (page_addr n', i', s')" "hand_rel s' n' i' L' ?A"
      "only_headers (free_pages ?A) s s'"
    using buddy_merge_sim [OF h m] by blast
  have i12: "i \<le> MAX_ORDERS" using in_hand_block_ok [OF ih] by (simp add: block_ok_def)
  have ih': "in_hand n' i' L' ?A" using s' by (simp add: hand_rel_def)
  have i'12: "i' \<le> MAX_ORDERS" using in_hand_block_ok [OF ih'] by (simp add: block_ok_def)
  have "unat (order (metadata s (int n))) = i"
    using r mem i12 by (force simp: heap_rel_def orders_ok_def unat_of_nat)
  then have eq: "buddy_free (page_addr n) s = buddy_list_add (page_addr n') i' s'"
    using in_hand_less [OF ih] s'(1) by (simp add: buddy_free_def)
  note ad = list_add_hand [OF s'(2) i'12]
  show "heap_rel (buddy_free (page_addr n) s) (abs_free n i L) ?A"
    using ad abs_free_inv [OF ih] by (simp add: eq heap_rel_def abs_free_def m)
  show "only_headers (free_pages ?A) s (buddy_free (page_addr n) s)"
    using only_headers_trans [OF s'(3) ad(3)] by (simp add: eq)
qed

abbreviation init_lists :: free_lists where
  "init_lists \<equiv> (\<lambda>i. if i = MAX_ORDERS then [0] else [])"

lemma init_buddy_rel: "heap_rel (init_buddy s) init_lists {}"
proof -
  let ?E = "(\<lambda>i. []) :: free_lists"
  let ?s = "s\<lparr>free_areas := (\<lambda>i. if i \<le> MAX_ORDERS then 0 else free_areas s i),
          metadata := (\<lambda>i. if 0 \<le> i \<and> i < int TOTAL_PAGES
            then (metadata s i)\<lparr>is_free := False, order := 0, is_slab := False\<rparr>
            else metadata s i)\<rparr>"
  have fb: "free_blocks init_lists = {(0, MAX_ORDERS)}" by (auto simp: free_blocks_def split: if_splits)
  have inv: "buddy_inv init_lists {}"
    unfolding buddy_inv_def tiling_def fb no_buddies_def
    by (auto simp: pages_def block_ok_def)
  have "brel ?s ?E" by (simp add: brel_def dlls_def starts_def)
  moreover have "lists_ok ?E" by (simp add: lists_ok_def)
  moreover have "page_addr 0 = HEAP_START" by (simp add: page_addr_def)
  moreover have "?E(MAX_ORDERS := [0]) = init_lists" by (simp add: fun_eq_iff)
  ultimately have "brel (init_buddy s) init_lists"
    using list_add_brel [of ?E ?s MAX_ORDERS 0] by (simp add: init_buddy_def starts_def)
  with inv show ?thesis by (simp add: heap_rel_def orders_ok_def)
qed

section \<open>The allocator in use\<close>

text \<open>
  The states of a running system with the set of blocks its clients hold: they start from
  \<^verbatim>\<open>init_buddy\<close>, allocate and free, and between the calls the rest of the kernel may change
  anything except \<^verbatim>\<open>free_areas\<close>, the order and free bit of the metadata, and the pages that
  no client holds.
\<close>

inductive heap_use :: "'a kheap_scheme \<Rightarrow> block set \<Rightarrow> bool" where
  start: "heap_use (init_buddy s) {}"
| alloc: "heap_use s A \<Longrightarrow> ord \<le> MAX_ORDERS \<Longrightarrow> buddy_alloc ord s = (page_addr n, s') \<Longrightarrow>
    n < TOTAL_PAGES \<Longrightarrow> heap_use s' (insert (n, ord) A)"
| fail: "heap_use s A \<Longrightarrow> ord \<le> MAX_ORDERS \<Longrightarrow> buddy_alloc ord s = (0, s') \<Longrightarrow> heap_use s' A"
| free: "heap_use s A \<Longrightarrow> (n, i) \<in> A \<Longrightarrow> heap_use (buddy_free (page_addr n) s) (A - {(n, i)})"
| client: "heap_use s A \<Longrightarrow> free_areas s' = free_areas s \<Longrightarrow>
    (\<And>k. is_free (metadata s' k) = is_free (metadata s k) \<and> order (metadata s' k) = order (metadata s k)) \<Longrightarrow>
    (\<And>k x. k \<in> free_pages A \<Longrightarrow> x < 0x1000 \<Longrightarrow> kmem s' (page_addr k + x) = kmem s (page_addr k + x)) \<Longrightarrow>
    heap_use s' A"

lemma blk_fields_cong:
  assumes "\<And>x. x < 0x1000 \<Longrightarrow> m (a + x) = m' (a + x)"
  shows "blk_next m a = blk_next m' a" "blk_prev m a = blk_prev m' a"
proof -
  have "m (a + of_nat k) = m' (a + of_nat k)" "m (a + 8 + of_nat k) = m' (a + 8 + of_nat k)" if "k < 8" for k
  proof -
    have "(of_nat k :: u64) < 0x1000" "8 + (of_nat k :: u64) < 0x1000"
      using that by (auto simp: word_less_nat_alt unat_of_nat unat_word_ariths)
    with assms have "m (a + of_nat k) = m' (a + of_nat k)" "m (a + (8 + of_nat k)) = m' (a + (8 + of_nat k))"
      by blast+
    then show "m (a + of_nat k) = m' (a + of_nat k)" "m (a + 8 + of_nat k) = m' (a + 8 + of_nat k)"
      by (simp_all only: add.assoc)
  qed
  then show "blk_next m a = blk_next m' a" "blk_prev m a = blk_prev m' a"
    by (auto simp: blk_next_def blk_prev_def ld64_def intro: load_bytes_cong)
qed

lemma buddy_inv_starts: "buddy_inv L A \<Longrightarrow> starts L \<subseteq> free_pages A"
proof
  fix n assume inv: "buddy_inv L A" and "n \<in> starts L"
  then obtain i where i: "i \<le> MAX_ORDERS" "n \<in> set (L i)" by (auto simp: starts_def)
  from in_hand_starts [OF buddy_inv_takeI [OF inv i]] show "n \<in> free_pages A" by simp
qed

lemma heap_rel_client:
  assumes r: "heap_rel s L A" and fa: "free_areas s' = free_areas s"
    and md: "\<And>k. is_free (metadata s' k) = is_free (metadata s k) \<and> order (metadata s' k) = order (metadata s k)"
    and km: "\<And>k x. k \<in> free_pages A \<Longrightarrow> x < 0x1000 \<Longrightarrow> kmem s' (page_addr k + x) = kmem s (page_addr k + x)"
  shows "heap_rel s' L A"
proof -
  have "dll (blk_next (kmem s')) (blk_prev (kmem s')) 0 (free_areas s i) (map page_addr (L i))"
    if i: "i \<le> MAX_ORDERS" for i
  proof -
    have "blk_next (kmem s) a = blk_next (kmem s') a \<and> blk_prev (kmem s) a = blk_prev (kmem s') a"
      if a: "a \<in> set (map page_addr (L i))" for a
    proof -
      obtain k where "a = page_addr k" "k \<in> starts L" using a i by (auto simp: starts_def)
      with r buddy_inv_starts have "\<And>x. x < 0x1000 \<Longrightarrow> kmem s (a + x) = kmem s' (a + x)"
        using km unfolding heap_rel_def by (metis subsetD)
      then show ?thesis using blk_fields_cong by blast
    qed
    then have "dll (blk_next (kmem s)) (blk_prev (kmem s)) 0 (free_areas s i) (map page_addr (L i))
        = dll (blk_next (kmem s')) (blk_prev (kmem s')) 0 (free_areas s i) (map page_addr (L i))"
      by (rule dll_cong)
    with r i show ?thesis by (simp add: heap_rel_def brel_def dlls_def)
  qed
  with r md show ?thesis by (simp add: heap_rel_def brel_def dlls_def orders_ok_def fa)
qed

lemma heap_rel_alloc_cases:
  assumes r: "heap_rel s L A" and al: "buddy_alloc ord s = (p, s')"
  shows "(abs_alloc ord L = None \<and> p = 0 \<and> s' = s) \<or>
    (\<exists>n L'. abs_alloc ord L = Some (n, L') \<and> p = page_addr n \<and> n < TOTAL_PAGES \<and>
      heap_rel s' L' (insert (n, ord) A) \<and> only_headers (free_pages A) s s' \<and>
      \<not> is_slab (metadata s' (int n)))"
proof (cases "abs_alloc ord L")
  case None
  with buddy_alloc_none [OF r None] al show ?thesis by simp
next
  case (Some r')
  then obtain n L' where "abs_alloc ord L = Some (n, L')" by (cases r') auto
  with buddy_alloc_sim [OF r this] al show ?thesis by auto
qed

lemma heap_use_rel: "heap_use s A \<Longrightarrow> \<exists>L. heap_rel s L A"
proof (induction rule: heap_use.induct)
  case (start s)
  show ?case using init_buddy_rel by blast
next
  case (alloc s A ord n s')
  then obtain L where r: "heap_rel s L A" by blast
  from heap_rel_alloc_cases [OF r alloc.hyps(3)] alloc.hyps(4) show ?case by auto
next
  case (fail s A ord s')
  then obtain L where r: "heap_rel s L A" by blast
  from heap_rel_alloc_cases [OF r fail.hyps(3)] r show ?case by auto
next
  case (free s A n i)
  then obtain L where r: "heap_rel s L A" by blast
  from buddy_free_sim(1) [OF r free.hyps(2)] show ?case by blast
next
  case (client s A s')
  then obtain L where r: "heap_rel s L A" by blast
  from heap_rel_client [OF r client.hyps(2,3,4)] show ?case by blast
qed

lemma heap_rel_blocks:
  assumes "heap_rel s L A"
  shows "b \<in> A \<Longrightarrow> block_ok b" "b \<in> A \<Longrightarrow> c \<in> A \<Longrightarrow> b \<noteq> c \<Longrightarrow> pages b \<inter> pages c = {}"
  using assms unfolding heap_rel_def buddy_inv_def tiling_def by blast+

lemma in_hand_fresh:
  assumes "in_hand n i L A"
  shows "pages (n, i) \<subseteq> free_pages A"
proof
  fix k assume k: "k \<in> pages (n, i)"
  have t: "tiling (insert (n, i) (free_blocks L \<union> A))" and nA: "(n, i) \<notin> A"
    using assms by (simp_all add: in_hand_def)
  have "block_ok (n, i)" by (rule in_hand_block_ok [OF assms])
  with k have "k < TOTAL_PAGES" by (auto simp: block_ok_def pages_def)
  moreover have "k \<notin> pages c" if "c \<in> A" for c
    using tilingD(2) [OF t, of "(n, i)" c k] that nA k by blast
  ultimately show "k \<in> free_pages A" by (auto simp: free_pages_def)
qed

lemma abs_alloc_some:
  assumes inv: "buddy_inv L A" and b: "block_ok (n, ord)" "pages (n, ord) \<subseteq> free_pages A"
  shows "abs_alloc ord L \<noteq> None"
  using buddy_inv_complete [OF assms] abs_alloc_None [of ord L] by auto

lemma abs_alloc_complete:
  assumes inv: "buddy_inv L A" and n: "abs_alloc ord L = Some (n, L')"
  shows "block_ok (n, ord)" "pages (n, ord) \<subseteq> free_pages A"
  using in_hand_block_ok in_hand_fresh abs_alloc_inv [OF assms] by blast+

text \<open>A free block of order 12 is the whole heap, so nothing else is held.\<close>

lemma heap_rel_full:
  assumes r: "heap_rel s L A" and f: "free_areas s MAX_ORDERS \<noteq> 0"
  shows "A = {}"
proof -
  have b: "brel s L" and inv: "buddy_inv L A" using r by (simp_all add: heap_rel_def)
  have "L MAX_ORDERS \<noteq> []" using f brel_head [OF buddy_inv_lists_ok [OF inv] b, of MAX_ORDERS] by auto
  then have n: "hd (L MAX_ORDERS) \<in> set (L MAX_ORDERS)" by simp
  note h = buddy_inv_takeI [OF inv _ n]
  have "hd (L MAX_ORDERS) = 0" using in_hand_block_ok [OF h] by (simp add: block_ok_def)
  with in_hand_fresh [OF h] have "{..<TOTAL_PAGES} \<subseteq> free_pages A" by (simp add: pages_def atLeast0LessThan)
  then have "\<forall>c \<in> A. pages c \<inter> {..<TOTAL_PAGES} = {}" by (auto simp: free_pages_def)
  moreover have "fst c \<in> pages c \<inter> {..<TOTAL_PAGES}" if "c \<in> A" for c
  proof -
    have "block_ok c" "(0 :: nat) < 2 ^ snd c" using heap_rel_blocks(1) [OF r that] by simp_all
    then have "fst c < TOTAL_PAGES" unfolding block_ok_def by linarith
    then show ?thesis by (simp add: pages_def)
  qed
  ultimately show ?thesis by blast
qed

definition heap_example :: kheap where
  "heap_example = init_buddy (pmm.extend pmm_example
     \<lparr>free_areas = (\<lambda>_. 0), metadata = (\<lambda>_. \<lparr>order = 0, is_free = False, is_slab = False\<rparr>)\<rparr>)"

lemma heap_example_use [simp]: "heap_use heap_example {}"
  unfolding heap_example_def by (rule heap_use.start)

lemma heap_example_alloc: "\<exists>n s'. buddy_alloc 3 heap_example = (page_addr n, s') \<and> heap_use s' {(n, 3)}"
proof -
  have r: "heap_rel heap_example init_lists {}" unfolding heap_example_def by (rule init_buddy_rel)
  have "block_ok (0, 3)" "pages (0, 3) \<subseteq> free_pages {}"
    by (auto simp: block_ok_def pages_def free_pages_def)
  then have "abs_alloc 3 init_lists \<noteq> None" using r abs_alloc_some by (auto simp: heap_rel_def)
  then obtain n L' where "abs_alloc 3 init_lists = Some (n, L')" by auto
  from buddy_alloc_sim [OF r this] heap_use.alloc [OF heap_example_use, of 3] show ?thesis by auto
qed

section \<open>Properties\<close>

text \<open>
  C4: \<^verbatim>\<open>buddy_alloc\<close> implements the abstract allocation on the free lists: it finds the smallest
  order with a free block, takes the front of its list, splits, and every list, link and
  metadata record it leaves in memory represents the abstract result; when no list has a block
  it returns 0 and changes nothing.
\<close>

theorem buddy_alloc_refines:
  assumes "heap_rel s L A"
  shows "case abs_alloc ord L of
      None \<Rightarrow> buddy_alloc ord s = (0, s)
    | Some (n, L') \<Rightarrow> (\<exists>s'. buddy_alloc ord s = (page_addr n, s') \<and> heap_rel s' L' (insert (n, ord) A))"
  using buddy_alloc_none [OF assms, of ord] buddy_alloc_sim [OF assms, of ord]
  by (fastforce split: option.split)

theorem buddy_alloc_refines_witness:
  "\<exists>n s' L'. abs_alloc 0 init_lists = Some (n, L') \<and> buddy_alloc 0 heap_example = (page_addr n, s') \<and>
    heap_rel s' L' {(n, 0)}"
proof -
  have r: "heap_rel heap_example init_lists {}" unfolding heap_example_def by (rule init_buddy_rel)
  have "block_ok (0, 0)" "pages (0, 0) \<subseteq> free_pages {}"
    by (auto simp: block_ok_def pages_def free_pages_def)
  then have "abs_alloc 0 init_lists \<noteq> None" using r abs_alloc_some by (auto simp: heap_rel_def)
  then obtain n L' where "abs_alloc 0 init_lists = Some (n, L')" by auto
  with buddy_alloc_refines [OF r, of 0] show ?thesis by auto
qed

text \<open>
  C3: \<^verbatim>\<open>buddy_free\<close> implements the abstract release: it merges the block with its buddy as long as
  the buddy is free as a whole, and the result is again a heap whose free and held blocks tile
  the 4096 pages with no two free buddies.
\<close>

theorem buddy_free_refines:
  assumes "heap_rel s L A" "(n, i) \<in> A"
  shows "heap_rel (buddy_free (page_addr n) s) (abs_free n i L) (A - {(n, i)})"
  by (rule buddy_free_sim(1) [OF assms])

theorem buddy_free_refines_witness:
  "\<exists>n s' L'. buddy_alloc 3 heap_example = (page_addr n, s') \<and>
    heap_rel (buddy_free (page_addr n) s') (abs_free n 3 L') {}"
proof -
  obtain n s' L' where a: "buddy_alloc 3 heap_example = (page_addr n, s')" and r: "heap_rel s' L' {(n, 3)}"
    using heap_example_alloc heap_use_rel by blast
  from buddy_free_refines [OF r, of n 3] a show ?thesis by auto
qed

text \<open>
  C11: in every state of a running system an allocation of \<^verbatim>\<open>2 ^ ord\<close> pages gives an aligned block
  of pages that no client holds, writes nothing but the link words of free pages, and fails, with
  the state unchanged, only when the heap has no such block at all.
\<close>

theorem buddy_alloc_correct:
  assumes "heap_use s A" "ord \<le> MAX_ORDERS"
  shows "(\<exists>n s'. buddy_alloc ord s = (page_addr n, s') \<and> block_ok (n, ord) \<and>
      pages (n, ord) \<subseteq> free_pages A \<and> heap_use s' (insert (n, ord) A) \<and>
      only_headers (free_pages A) s s') \<or>
    (buddy_alloc ord s = (0, s) \<and> (\<forall>n. block_ok (n, ord) \<longrightarrow> \<not> pages (n, ord) \<subseteq> free_pages A))"
proof -
  obtain L where r: "heap_rel s L A" using heap_use_rel [OF assms(1)] by blast
  then have inv: "buddy_inv L A" by (simp add: heap_rel_def)
  show ?thesis
  proof (cases "abs_alloc ord L")
    case None
    with buddy_alloc_none [OF r None] abs_alloc_some [OF inv] show ?thesis by blast
  next
    case (Some q)
    then obtain n L' where al: "abs_alloc ord L = Some (n, L')" by (cases q) auto
    from buddy_alloc_sim [OF r al] obtain s' where s': "buddy_alloc ord s = (page_addr n, s')"
      "only_headers (free_pages A) s s'" "n < TOTAL_PAGES" by blast
    with abs_alloc_complete [OF inv al] heap_use.alloc [OF assms s'(1,3)] show ?thesis by blast
  qed
qed

theorem buddy_alloc_correct_witness:
  "\<exists>n s'. buddy_alloc 3 heap_example = (page_addr n, s') \<and> heap_use s' {(n, 3)}"
proof -
  have "block_ok (0, 3)" "pages (0, 3) \<subseteq> free_pages {}"
    by (auto simp: block_ok_def pages_def free_pages_def)
  with buddy_alloc_correct [OF heap_example_use, of 3] show ?thesis by auto
qed

text \<open>
  C12: no fragmentation survives: whatever was allocated and freed before, once no client holds a
  block the whole heap is one free block, and an allocation of order 12 gets it.
\<close>

theorem buddy_coalesces:
  assumes "heap_use s {}"
  shows "free_areas s MAX_ORDERS = HEAP_START \<and> (\<forall>i < MAX_ORDERS. free_areas s i = 0) \<and>
    (\<exists>s'. buddy_alloc MAX_ORDERS s = (HEAP_START, s'))"
proof -
  obtain L where r: "heap_rel s L {}" using heap_use_rel [OF assms] by blast
  then have inv: "buddy_inv L {}" and b: "brel s L" by (simp_all add: heap_rel_def)
  note L = buddy_inv_lists_ok [OF inv] and e = buddy_inv_empty [OF inv]
  have a: "page_addr 0 = HEAP_START" by (simp add: page_addr_def)
  have "free_areas s MAX_ORDERS = HEAP_START" using brel_head [OF L b, of MAX_ORDERS] e(1) a by simp
  moreover have "free_areas s i = 0" if "i < MAX_ORDERS" for i
    using brel_head [OF L b, of i] e(2) that by simp
  moreover have "abs_alloc MAX_ORDERS L = Some (0, abs_split 0 MAX_ORDERS MAX_ORDERS (L(MAX_ORDERS := [])))"
    using e(1) by (simp add: abs_alloc_def abs_first.simps [of 12])
  from buddy_alloc_sim [OF r this] a have "\<exists>s'. buddy_alloc MAX_ORDERS s = (HEAP_START, s')" by auto
  ultimately show ?thesis by blast
qed

theorem buddy_coalesces_witness:
  "\<exists>n s'. buddy_alloc 3 heap_example = (page_addr n, s') \<and> s' \<noteq> heap_example \<and>
    free_areas (buddy_free (page_addr n) s') MAX_ORDERS = HEAP_START"
proof -
  obtain n s' where a: "buddy_alloc 3 heap_example = (page_addr n, s')" "heap_use s' {(n, 3)}"
    using heap_example_alloc by blast
  then have "heap_use (buddy_free (page_addr n) s') {}" using heap_use.free [of s' "{(n, 3)}" n 3] by simp
  note freed = buddy_coalesces [OF this]
  have "s' \<noteq> heap_example"
  proof
    assume "s' = heap_example"
    then obtain L where "heap_rel heap_example L {(n, 3)}" using heap_use_rel [OF a(2)] by auto
    moreover have "free_areas heap_example MAX_ORDERS \<noteq> 0"
      using buddy_coalesces [OF heap_example_use] by simp
    ultimately show False using heap_rel_full [of heap_example L "{(n, 3)}"] by auto
  qed
  with a freed show ?thesis by blast
qed

end
