(* ===== verification/Slab.thy ===== *)
theory Slab
  imports Buddy
begin

text \<open>
  The slab allocator, \<^verbatim>\<open>mm/slab.c\<close>: one page per slab, the header and the chain of free objects
  in the page itself, and per object size a list of slabs with free objects and a list of full
  ones. The lemmas carry a relation between the bytes and three abstract lists: which pages are
  in which list and which object slots of a page are free.
\<close>

section \<open>State\<close>

record kmem_cache =
  obj_size :: u32
  slabs_partial :: u64
  slabs_full :: u64

text \<open>
  \<^verbatim>\<open>kernel_caches\<close> is an array of \<^verbatim>\<open>kmem_cache_t\<close> (24 bytes each) in the kernel image. A slab keeps a
  pointer into it, so the array is a store indexed by address; where it starts is the linker's
  choice and part of the state.
\<close>

record slabs = kheap +
  kernel_caches_addr :: u64
  kernel_caches :: "u64 \<Rightarrow> kmem_cache"

abbreviation NUM_CACHES :: nat where "NUM_CACHES \<equiv> 8"

definition cache_at :: "'a slabs_scheme \<Rightarrow> nat \<Rightarrow> u64" where
  "cache_at s i = kernel_caches_addr s + 24 * of_nat i"

text \<open>The fields of \<^verbatim>\<open>slab_t\<close> (40 bytes) at their offsets.\<close>

definition slab_free_list :: "mem \<Rightarrow> u64 \<Rightarrow> u64" where "slab_free_list m a = ld64 m a"
definition free_count :: "mem \<Rightarrow> u64 \<Rightarrow> u32" where "free_count m a = ld32 m (a + 8)"
definition total_count :: "mem \<Rightarrow> u64 \<Rightarrow> u32" where "total_count m a = ld32 m (a + 12)"
definition parent_cache :: "mem \<Rightarrow> u64 \<Rightarrow> u64" where "parent_cache m a = ld64 m (a + 16)"
definition slab_prev :: "mem \<Rightarrow> u64 \<Rightarrow> u64" where "slab_prev m a = ld64 m (a + 24)"
definition slab_next :: "mem \<Rightarrow> u64 \<Rightarrow> u64" where "slab_next m a = ld64 m (a + 32)"

definition set_slab_free_list :: "mem \<Rightarrow> u64 \<Rightarrow> u64 \<Rightarrow> mem" where "set_slab_free_list m a v = st64 m a v"
definition set_free_count :: "mem \<Rightarrow> u64 \<Rightarrow> u32 \<Rightarrow> mem" where "set_free_count m a v = st32 m (a + 8) v"
definition set_total_count :: "mem \<Rightarrow> u64 \<Rightarrow> u32 \<Rightarrow> mem" where "set_total_count m a v = st32 m (a + 12) v"
definition set_parent_cache :: "mem \<Rightarrow> u64 \<Rightarrow> u64 \<Rightarrow> mem" where "set_parent_cache m a v = st64 m (a + 16) v"
definition set_slab_prev :: "mem \<Rightarrow> u64 \<Rightarrow> u64 \<Rightarrow> mem" where "set_slab_prev m a v = st64 m (a + 24) v"
definition set_slab_next :: "mem \<Rightarrow> u64 \<Rightarrow> u64 \<Rightarrow> mem" where "set_slab_next m a v = st64 m (a + 32) v"

section \<open>Operations\<close>

definition cache_sizes :: "u32 list" where
  "cache_sizes = [16, 32, 64, 128, 256, 512, 1024, 2048]"

fun init_caches :: "nat \<Rightarrow> u32 list \<Rightarrow> 'a slabs_scheme \<Rightarrow> 'a slabs_scheme" where
  "init_caches i [] s = s"
| "init_caches i (sz # szs) s =
     init_caches (Suc i) szs (s\<lparr>kernel_caches := (kernel_caches s)(cache_at s i :=
       \<lparr>obj_size = sz, slabs_partial = 0, slabs_full = 0\<rparr>)\<rparr>)"

definition init_slab :: "'a slabs_scheme \<Rightarrow> 'a slabs_scheme" where
  "init_slab s = init_caches 0 cache_sizes s"

text \<open>
  The list operations take the list head \<^verbatim>\<open>*head\<close> and return its new value. In
  \<^verbatim>\<open>slab->prev = slab->prev = NULL\<close> both assignments go to \<^verbatim>\<open>prev\<close>, as the code has them.
\<close>

definition slab_list_remove :: "u64 \<Rightarrow> u64 \<Rightarrow> mem \<Rightarrow> u64 \<times> mem" where
  "slab_list_remove head slab m =
     (let m1 = (if slab_next m slab \<noteq> 0 then set_slab_prev m (slab_next m slab) (slab_prev m slab) else m);
          (head', m2) = (if slab_prev m1 slab \<noteq> 0
            then (head, set_slab_next m1 (slab_prev m1 slab) (slab_next m1 slab))
            else (slab_next m1 slab, m1));
          m3 = set_slab_prev m2 slab 0
      in (head', set_slab_prev m3 slab 0))"

definition slab_list_add :: "u64 \<Rightarrow> u64 \<Rightarrow> mem \<Rightarrow> u64 \<times> mem" where
  "slab_list_add head slab m =
     (let m1 = set_slab_next m slab head;
          m2 = set_slab_prev m1 slab 0;
          m3 = (if head \<noteq> 0 then set_slab_prev m2 head slab else m2)
      in (slab, m3))"

text \<open>The same on the two lists of the cache at address \<^verbatim>\<open>c\<close>.\<close>

definition on_partial :: "(u64 \<Rightarrow> u64 \<Rightarrow> mem \<Rightarrow> u64 \<times> mem) \<Rightarrow> u64 \<Rightarrow> u64 \<Rightarrow> 'a slabs_scheme \<Rightarrow> 'a slabs_scheme" where
  "on_partial f c slab s = (case f (slabs_partial (kernel_caches s c)) slab (kmem s) of
     (h, m) \<Rightarrow> s\<lparr>kmem := m, kernel_caches := (kernel_caches s)(c := (kernel_caches s c)\<lparr>slabs_partial := h\<rparr>)\<rparr>)"

definition on_full :: "(u64 \<Rightarrow> u64 \<Rightarrow> mem \<Rightarrow> u64 \<times> mem) \<Rightarrow> u64 \<Rightarrow> u64 \<Rightarrow> 'a slabs_scheme \<Rightarrow> 'a slabs_scheme" where
  "on_full f c slab s = (case f (slabs_full (kernel_caches s c)) slab (kmem s) of
     (h, m) \<Rightarrow> s\<lparr>kmem := m, kernel_caches := (kernel_caches s)(c := (kernel_caches s c)\<lparr>slabs_full := h\<rparr>)\<rparr>)"

text \<open>
  The loop of \<^verbatim>\<open>slab_create\<close> that threads the free list through the page; with an object size of
  0 it would not end, hence partial.
\<close>

partial_function (option) slab_thread :: "u64 \<Rightarrow> u64 \<Rightarrow> u64 \<Rightarrow> u64 \<Rightarrow> mem \<Rightarrow> mem option" where
  "slab_thread slab sz page_end cur m =
     (if cur + sz \<le> page_end then
        let nxt = cur + sz;
            m1 = (if nxt + sz \<le> page_end then st64 m cur nxt else st64 m cur 0);
            m2 = set_free_count m1 slab (free_count m1 slab + 1)
        in slab_thread slab sz page_end nxt m2
      else Some m)"

definition slab_create :: "u64 \<Rightarrow> 'a slabs_scheme \<Rightarrow> (u64 \<times> 'a slabs_scheme) option" where
  "slab_create cache s =
     (let (page, s1) = buddy_alloc 0 s in
      if page = 0 then Some (0, s1)
      else
        let index = page_index page;
            s2 = s1\<lparr>metadata := (metadata s1)(index := (metadata s1 index)\<lparr>is_slab := True\<rparr>)\<rparr>;
            slab = page;
            m1 = set_parent_cache (kmem s2) slab cache;
            first_obj = (page + 40 + 7) AND NOT 7;
            page_end = page + PAGE_SIZE_4KB;
            m2 = set_slab_free_list m1 slab first_obj;
            m3 = set_free_count m2 slab 0
        in do {
          m4 \<leftarrow> slab_thread slab (ucast (obj_size (kernel_caches s2 cache))) page_end first_obj m3;
          Some (slab, s2\<lparr>kmem := set_total_count m4 slab (free_count m4 slab)\<rparr>)
        })"

definition slab_take :: "u64 \<Rightarrow> 'a slabs_scheme \<Rightarrow> u64 \<times> 'a slabs_scheme" where
  "slab_take cache s =
     (let slab = slabs_partial (kernel_caches s cache);
          obj = slab_free_list (kmem s) slab;
          m1 = set_slab_free_list (kmem s) slab (ld64 (kmem s) obj);
          m2 = set_free_count m1 slab (free_count m1 slab - 1);
          s1 = s\<lparr>kmem := m2\<rparr>;
          s2 = (if free_count m2 slab = 0
                then on_full slab_list_add cache slab (on_partial slab_list_remove cache slab s1)
                else s1)
      in (obj, s2))"

definition slab_alloc :: "u64 \<Rightarrow> 'a slabs_scheme \<Rightarrow> (u64 \<times> 'a slabs_scheme) option" where
  "slab_alloc cache s =
     (if cache = 0 then Some (0, s)
      else if slabs_partial (kernel_caches s cache) = 0 then do {
        (new_slab, s1) \<leftarrow> slab_create cache s;
        if new_slab = 0 then Some (0, s1)
        else Some (slab_take cache (on_partial slab_list_add cache new_slab s1))
      }
      else Some (slab_take cache s))"

definition slab_free :: "u64 \<Rightarrow> 'a slabs_scheme \<Rightarrow> 'a slabs_scheme" where
  "slab_free ptr s =
     (if ptr = 0 then s
      else
        let slab = ptr AND PAGE_MASK_4KB;
            cache = parent_cache (kmem s) slab;
            s1 = (if free_count (kmem s) slab = 0
                  then on_partial slab_list_add cache slab (on_full slab_list_remove cache slab s)
                  else s);
            m1 = st64 (kmem s1) ptr (slab_free_list (kmem s1) slab);
            m2 = set_slab_free_list m1 slab ptr;
            m3 = set_free_count m2 slab (free_count m2 slab + 1);
            s2 = s1\<lparr>kmem := m3\<rparr>
        in if free_count m3 slab = total_count m3 slab
           then
             let s3 = on_partial slab_list_remove cache slab s2;
                 index = page_index ptr
             in buddy_free slab (s3\<lparr>metadata := (metadata s3)(index := (metadata s3 index)\<lparr>is_slab := False\<rparr>)\<rparr>)
           else s2)"

section \<open>The layout of a slab page\<close>

definition slot_size :: "nat \<Rightarrow> nat" where "slot_size c = 2 ^ (c + 4)"
definition nslots :: "nat \<Rightarrow> nat" where "nslots c = 4056 div slot_size c"
definition slot_off :: "nat \<Rightarrow> nat \<Rightarrow> nat" where "slot_off c j = 40 + j * slot_size c"
definition slot_addr :: "nat \<Rightarrow> nat \<Rightarrow> nat \<Rightarrow> u64" where "slot_addr n c j = page_addr n + of_nat (slot_off c j)"

lemma slot_size_range: "c < NUM_CACHES \<Longrightarrow> 16 \<le> slot_size c \<and> slot_size c \<le> 2048"
proof -
  assume "c < NUM_CACHES"
  then have "(2 :: nat) ^ 4 \<le> 2 ^ (c + 4)" "(2 :: nat) ^ (c + 4) \<le> 2 ^ 11"
    by (intro power_increasing; simp)+
  then show ?thesis by (simp add: slot_size_def)
qed

lemma slot_off_bound:
  assumes "c < NUM_CACHES"
  shows "slot_off c j + slot_size c \<le> 4096 \<longleftrightarrow> j < nslots c"
proof -
  have "j < nslots c \<longleftrightarrow> Suc j * slot_size c \<le> 4056"
    using slot_size_range [OF assms] by (simp add: nslots_def less_eq_div_iff_mult_less_eq flip: Suc_le_eq)
  then show ?thesis by (auto simp: slot_off_def)
qed

lemma slot_off_less:
  assumes "c < NUM_CACHES" "j < nslots c"
  shows "slot_off c j + 16 \<le> 4096" "40 \<le> slot_off c j"
  using slot_off_bound [OF assms(1), of j] slot_size_range [OF assms(1)] assms(2) by (auto simp: slot_off_def)

lemma slot_off_apart:
  assumes "j \<noteq> k"
  shows "slot_off c j + slot_size c \<le> slot_off c k \<or> slot_off c k + slot_size c \<le> slot_off c j"
proof -
  have *: "slot_off c j + slot_size c \<le> slot_off c k" if "j < k" for j k
    using mult_le_mono1 [of "Suc j" k "slot_size c"] that by (simp add: slot_off_def)
  show ?thesis using assms * [of j k] * [of k j] by (metis nat_neq_iff)
qed

lemma unat_slot_off: "c < NUM_CACHES \<Longrightarrow> j < nslots c \<Longrightarrow> unat (of_nat (slot_off c j) :: u64) = slot_off c j"
  using slot_off_less [of c j] by (simp add: unat_of_nat)

lemma nslots_pos: "c < NUM_CACHES \<Longrightarrow> 0 < nslots c \<and> nslots c \<le> 253"
proof -
  assume c: "c < NUM_CACHES"
  then have "nslots c \<le> 4056 div 16" unfolding nslots_def using slot_size_range [OF c] by (intro div_le_mono2) auto
  moreover have "4056 div 2048 \<le> nslots c" unfolding nslots_def using slot_size_range [OF c] by (intro div_le_mono2) auto
  ultimately show ?thesis by simp
qed

text \<open>Loads and stores at slots and header fields of slab pages.\<close>

lemma ld64_st64_slots:
  assumes "c < NUM_CACHES" "c' < NUM_CACHES" "j < nslots c" "k < nslots c'" "n < TOTAL_PAGES" "n' < TOTAL_PAGES"
    and "n \<noteq> n' \<or> c = c' \<and> j \<noteq> k"
  shows "ld64 (st64 m (slot_addr n c j) v) (slot_addr n' c' k) = ld64 m (slot_addr n' c' k)"
  unfolding slot_addr_def
proof (rule ld64_st64_page)
  show "page_addr n \<noteq> page_addr n' \<or> unat (of_nat (slot_off c j) :: u64) + 8 \<le> unat (of_nat (slot_off c' k) :: u64)
      \<or> unat (of_nat (slot_off c' k) :: u64) + 8 \<le> unat (of_nat (slot_off c j) :: u64)"
    using assms slot_off_apart [of j k c] slot_size_range [OF assms(1)]
    by (auto simp: unat_slot_off)
qed (use assms slot_off_less [OF assms(1,3)] slot_off_less [OF assms(2,4)] in \<open>simp_all add: unat_slot_off\<close>)

lemma st_header_slot:
  assumes "c < NUM_CACHES" "j < nslots c" "n < TOTAL_PAGES" "page_aligned a" "unat x + 8 \<le> 40"
  shows "ld64 (st64 m (a + x) v) (slot_addr n c j) = ld64 m (slot_addr n c j)"
    "ld64 (st32 m (a + x) w) (slot_addr n c j) = ld64 m (slot_addr n c j)"
  unfolding slot_addr_def using assms slot_off_less [OF assms(1,2)]
  by (intro ld64_st64_page ld64_st32_page; simp add: unat_slot_off)+

lemma st_slot_header:
  assumes "c < NUM_CACHES" "j < nslots c" "n < TOTAL_PAGES" "page_aligned a" "unat x + 8 \<le> 40"
  shows "ld64 (st64 m (slot_addr n c j) v) (a + x) = ld64 m (a + x)"
    "ld32 (st64 m (slot_addr n c j) v) (a + x) = ld32 m (a + x)"
  unfolding slot_addr_def using assms slot_off_less [OF assms(1,2)]
  by (intro ld64_st64_page ld32_st64_page; simp add: unat_slot_off)+

lemmas st_header_slot_0 = st_header_slot [where x = 0, simplified]
lemmas st_slot_header_0 = st_slot_header [where x = 0, simplified]

lemma slot_addr_mask: "c < NUM_CACHES \<Longrightarrow> j < nslots c \<Longrightarrow> n < TOTAL_PAGES \<Longrightarrow> slot_addr n c j AND PAGE_MASK_4KB = page_addr n"
  unfolding slot_addr_def
  by (rule page_mask_offset) (use slot_off_less [of c j] in \<open>simp_all add: word_less_nat_alt unat_slot_off\<close>)

lemma slot_addr_nonnull: "c < NUM_CACHES \<Longrightarrow> j < nslots c \<Longrightarrow> n < TOTAL_PAGES \<Longrightarrow> slot_addr n c j \<noteq> 0"
  using slot_addr_mask [of c j n] page_addr_props(2) [of n] by auto

lemma slot_addr_index: "c < NUM_CACHES \<Longrightarrow> j < nslots c \<Longrightarrow> n < TOTAL_PAGES \<Longrightarrow> page_index (slot_addr n c j) = int n"
  unfolding slot_addr_def
  by (rule page_index_offset) (use slot_off_less [of c j] in \<open>simp_all add: word_less_nat_alt unat_slot_off\<close>)

lemma slot_addr_inj:
  assumes "c < NUM_CACHES" "j < nslots c" "k < nslots c" "n < TOTAL_PAGES" "n' < TOTAL_PAGES"
  shows "slot_addr n c j = slot_addr n' c k \<longleftrightarrow> n = n' \<and> j = k"
proof
  assume eq: "slot_addr n c j = slot_addr n' c k"
  then have "page_addr n = page_addr n'" using slot_addr_mask assms by metis
  moreover from this eq have "(of_nat (slot_off c j) :: u64) = of_nat (slot_off c k)" by (simp add: slot_addr_def)
  then have "slot_off c j = slot_off c k" using unat_slot_off assms by metis
  then have "j = k" using slot_size_range [OF assms(1)] by (simp add: slot_off_def)
  ultimately show "n = n' \<and> j = k" using assms by simp
qed simp

section \<open>Changes confined to pages\<close>

text \<open>\<^verbatim>\<open>frame_upto b K\<close>: nothing but the first \<^verbatim>\<open>b\<close> bytes of the pages in \<^verbatim>\<open>K\<close> changes.\<close>

definition frame_upto :: "u64 \<Rightarrow> nat set \<Rightarrow> mem \<Rightarrow> mem \<Rightarrow> bool" where
  "frame_upto b K m m' \<longleftrightarrow> (\<forall>a. (\<forall>k \<in> K. \<forall>x < b. a \<noteq> page_addr k + x) \<longrightarrow> m' a = m a)"

abbreviation page_frame :: "nat set \<Rightarrow> mem \<Rightarrow> mem \<Rightarrow> bool" where "page_frame \<equiv> frame_upto 0x1000"
abbreviation header_frame :: "nat set \<Rightarrow> mem \<Rightarrow> mem \<Rightarrow> bool" where "header_frame \<equiv> frame_upto 40"

lemma page_frame_refl [simp]: "frame_upto b K m m"
  by (simp add: frame_upto_def)

lemma page_frame_trans [trans]: "frame_upto b K m1 m2 \<Longrightarrow> frame_upto b K m2 m3 \<Longrightarrow> frame_upto b K m1 m3"
  by (simp add: frame_upto_def)

lemma page_frame_mono: "frame_upto b K m m' \<Longrightarrow> K \<subseteq> K' \<Longrightarrow> frame_upto b K' m m'"
  unfolding frame_upto_def by blast

lemma header_page_frame: "header_frame K m m' \<Longrightarrow> page_frame K m m'"
proof -
  have "x < 40 \<Longrightarrow> x < 0x1000" for x :: u64 by (simp add: word_less_nat_alt)
  then show "header_frame K m m' \<Longrightarrow> page_frame K m m'" unfolding frame_upto_def by blast
qed

lemma frame_st:
  assumes "unat x + 8 \<le> unat b"
  shows "frame_upto b {n} m (st64 m (page_addr n + x) v)" "frame_upto b {n} m (st32 m (page_addr n + x) w)"
proof -
  have *: "e \<noteq> page_addr n + x + of_nat k"
    if "\<forall>y < b. e \<noteq> page_addr n + y" "k < 8" for e and k :: nat
  proof -
    have "unat (x + of_nat k) = unat x + k"
      using that(2) assms unsigned_less [where 'a = nat and w = b] by (simp add: unat_word_ariths unat_of_nat)
    then have "x + of_nat k < b" using that(2) assms by (simp add: word_less_nat_alt)
    with that(1) have "e \<noteq> page_addr n + (x + of_nat k)" by blast
    then show ?thesis by (simp only: add.assoc not_False_eq_True)
  qed
  show "frame_upto b {n} m (st64 m (page_addr n + x) v)" "frame_upto b {n} m (st32 m (page_addr n + x) w)"
    unfolding frame_upto_def by (intro allI impI st64_other st32_other *; simp)+
qed

lemmas page_frame_st = frame_st [where b = "0x1000", simplified]
lemmas header_frame_st = frame_st [where b = 40, simplified]
lemmas header_frame_st_0 = header_frame_st [where x = 0, simplified]

lemma page_frame_byte:
  assumes "page_frame K m m'" "K \<subseteq> {..<TOTAL_PAGES}" "n < TOTAL_PAGES" "n \<notin> K" "x < 0x1000"
  shows "m' (page_addr n + x) = m (page_addr n + x)"
proof -
  have "page_addr n + x \<noteq> page_addr k + y" if "k \<in> K" "y < 0x1000" for k y
    using that assms page_offset_eq [of "page_addr n" "page_addr k" x y] by auto
  with assms(1) show ?thesis unfolding frame_upto_def by blast
qed

lemma page_frame_load:
  assumes "page_frame K m m'" "K \<subseteq> {..<TOTAL_PAGES}" "n < TOTAL_PAGES" "n \<notin> K" "unat x + l \<le> 4096"
  shows "load_bytes l m' (page_addr n + x) = load_bytes l m (page_addr n + x)"
proof (rule load_bytes_cong)
  fix k assume k: "k < l"
  have "x + of_nat k < 0x1000" using k assms(5) by (simp add: word_less_nat_alt unat_word_ariths unat_of_nat)
  from page_frame_byte [OF assms(1-4) this]
  show "m' (page_addr n + x + of_nat k) = m (page_addr n + x + of_nat k)" by (simp only: add.assoc)
qed

section \<open>The free list of a page\<close>

fun fchain :: "mem \<Rightarrow> u64 \<Rightarrow> u64 list \<Rightarrow> bool" where
  "fchain m h [] \<longleftrightarrow> h = 0"
| "fchain m h (a # as) \<longleftrightarrow> h = a \<and> a \<noteq> 0 \<and> fchain m (ld64 m a) as"

lemma fchain_cong: "(\<And>a. a \<in> set as \<Longrightarrow> ld64 m a = ld64 m' a) \<Longrightarrow> fchain m h as = fchain m' h as"
  by (induction as arbitrary: h) auto

definition page_rel :: "mem \<Rightarrow> u64 \<Rightarrow> nat \<Rightarrow> nat \<Rightarrow> nat list \<Rightarrow> bool" where
  "page_rel m cache n c js \<longleftrightarrow> distinct js \<and> set js \<subseteq> {..<nslots c} \<and>
     parent_cache m (page_addr n) = cache \<and> free_count m (page_addr n) = of_nat (length js) \<and>
     total_count m (page_addr n) = of_nat (nslots c) \<and>
     fchain m (slab_free_list m (page_addr n)) (map (slot_addr n c) js)"

lemma page_rel_cong:
  assumes "parent_cache m (page_addr n) = parent_cache m' (page_addr n)"
    "free_count m (page_addr n) = free_count m' (page_addr n)"
    "total_count m (page_addr n) = total_count m' (page_addr n)"
    "slab_free_list m (page_addr n) = slab_free_list m' (page_addr n)"
    "\<And>j. j \<in> set js \<Longrightarrow> j < nslots c \<Longrightarrow> ld64 m (slot_addr n c j) = ld64 m' (slot_addr n c j)"
  shows "page_rel m cache n c js = page_rel m' cache n c js"
proof (cases "set js \<subseteq> {..<nslots c}")
  case True
  then have "fchain m h (map (slot_addr n c) js) = fchain m' h (map (slot_addr n c) js)" for h
    by (intro fchain_cong) (use assms(5) in auto)
  with assms show ?thesis by (simp add: page_rel_def)
qed (simp add: page_rel_def)

lemma page_rel_frame:
  assumes f: "page_frame K m m'" "K \<subseteq> {..<TOTAL_PAGES}" "n < TOTAL_PAGES" "n \<notin> K" and c: "c < NUM_CACHES"
  shows "page_rel m' cache n c js = page_rel m cache n c js"
proof (rule page_rel_cong)
  note ld = page_frame_load [OF f]
  show "parent_cache m' (page_addr n) = parent_cache m (page_addr n)"
    "free_count m' (page_addr n) = free_count m (page_addr n)"
    "total_count m' (page_addr n) = total_count m (page_addr n)"
    using ld [of 16 8] ld [of 8 4] ld [of 12 4]
    by (simp_all add: parent_cache_def free_count_def total_count_def ld64_def ld32_def)
  show "slab_free_list m' (page_addr n) = slab_free_list m (page_addr n)"
    using ld [of 0 8] by (simp add: slab_free_list_def ld64_def)
  fix j assume j: "j < nslots c"
  show "ld64 m' (slot_addr n c j) = ld64 m (slot_addr n c j)"
    unfolding slot_addr_def ld64_def
    by (rule ld) (use slot_off_less [OF c j] unat_slot_off [OF c j] in simp)
qed

lemma page_rel_links:
  assumes "page_aligned a" "n < TOTAL_PAGES" "c < NUM_CACHES"
  shows "page_rel (set_slab_prev m a v) cache n c js = page_rel m cache n c js"
    "page_rel (set_slab_next m a v) cache n c js = page_rel m cache n c js"
  using assms
  by (intro page_rel_cong; simp add: parent_cache_def free_count_def total_count_def slab_free_list_def
      set_slab_prev_def set_slab_next_def frame_simps st_header_slot)+

section \<open>Creating a slab\<close>

lemma first_obj_eq:
  assumes "page_aligned a"
  shows "(a + 40 + 7) AND NOT 7 = a + (40 :: u64)"
proof -
  have "(a + 40 + 7) AND NOT 7 = (a OR 47) AND NOT 7"
    using page_add_or [OF assms, of 47] by (simp add: add.assoc)
  also have "\<dots> = (a AND NOT 7) OR (47 AND NOT 7)" by (simp only: bit.conj_disj_distrib2)
  also have "a AND NOT 7 = a"
  proof (rule bit_word_eqI)
    fix k
    have "(7 :: u64) = mask 3" by (simp add: mask_eq_exp_minus_1)
    then have "bit (7 :: u64) k \<Longrightarrow> k < 3" by (simp only: bit_mask_iff)
    then show "bit (a AND NOT 7) k = bit a k"
      using assms bit_imp_le_length [of a k] by (auto simp: page_aligned_bit bit_simps)
  qed
  also have "a OR (47 AND NOT 7) = a OR 40" by simp
  also have "\<dots> = a + 40" by (rule page_add_or [OF assms, symmetric]) simp
  finally show ?thesis .
qed

lemma page_addr_off_le:
  assumes "n < TOTAL_PAGES" "x \<le> 8192" "y \<le> 8192"
  shows "page_addr n + of_nat x \<le> page_addr n + of_nat y \<longleftrightarrow> x \<le> y"
proof -
  have "unat (page_addr n + of_nat z) = unat (page_addr n) + z" if "z \<le> 8192" for z
    using assms(1) that by (simp add: unat_word_ariths unat_of_nat)
  with assms(2,3) show ?thesis by (simp add: word_le_nat_alt)
qed

lemma slot_addr_Suc: "slot_addr n c k + of_nat (slot_size c) = slot_addr n c (Suc k)"
  by (simp add: slot_addr_def slot_off_def algebra_simps)

lemma slot_fits:
  assumes "c < NUM_CACHES" "n < TOTAL_PAGES" "k \<le> Suc (nslots c)"
  shows "slot_addr n c k + of_nat (slot_size c) \<le> page_addr n + 0x1000 \<longleftrightarrow> k < nslots c"
proof -
  have "nslots c * slot_size c \<le> 4056" by (simp add: nslots_def)
  then have "k * slot_size c \<le> 4056 + slot_size c" using mult_le_mono1 [OF assms(3), of "slot_size c"] by simp
  then have "slot_off c (Suc k) \<le> 8192" using slot_size_range [OF assms(1)] by (simp add: slot_off_def)
  from page_addr_off_le [OF assms(2) this, of 4096]
  have "slot_addr n c (Suc k) \<le> page_addr n + 0x1000 \<longleftrightarrow> slot_off c (Suc k) \<le> 4096"
    by (simp add: slot_addr_def)
  with slot_off_bound [OF assms(1), of k] show ?thesis by (simp add: slot_addr_Suc) (simp add: slot_off_def add.commute)
qed

definition threaded :: "nat \<Rightarrow> nat \<Rightarrow> nat \<Rightarrow> mem \<Rightarrow> mem \<Rightarrow> bool" where
  "threaded n c k m m' \<longleftrightarrow>
     (\<forall>j < nslots c. ld64 m' (slot_addr n c j) = (if k \<le> j
        then if Suc j < nslots c then slot_addr n c (Suc j) else 0 else ld64 m (slot_addr n c j))) \<and>
     free_count m' (page_addr n) = free_count m (page_addr n) + of_nat (nslots c - k) \<and>
     slab_free_list m' (page_addr n) = slab_free_list m (page_addr n) \<and>
     parent_cache m' (page_addr n) = parent_cache m (page_addr n) \<and> page_frame {n} m m'"

lemma slab_thread_result:
  assumes "c < NUM_CACHES" "n < TOTAL_PAGES" "k \<le> nslots c"
  shows "\<exists>m'. slab_thread (page_addr n) (of_nat (slot_size c)) (page_addr n + 0x1000) (slot_addr n c k) m = Some m'
    \<and> threaded n c k m m'"
  using assms(3)
proof (induction "nslots c - k" arbitrary: k m)
  case 0
  then have "k = nslots c" by simp
  with slot_fits [OF assms(1,2), of k] show ?case
    by (subst slab_thread.simps) (simp add: threaded_def)
next
  case (Suc d)
  then have k: "k < nslots c" "Suc k \<le> nslots c" "d = nslots c - Suc k" by simp_all
  let ?a = "slot_addr n c k" and ?p = "page_addr n"
  let ?v = "if Suc k < nslots c then slot_addr n c (Suc k) else 0"
  let ?m1 = "st64 m ?a ?v"
  let ?m2 = "set_free_count ?m1 ?p (free_count ?m1 ?p + 1)"
  have step: "slab_thread ?p (of_nat (slot_size c)) (?p + 0x1000) ?a m
      = slab_thread ?p (of_nat (slot_size c)) (?p + 0x1000) (slot_addr n c (Suc k)) ?m2"
    using slot_fits [OF assms(1,2), of k] slot_fits [OF assms(1,2), of "Suc k"] k
    by (subst slab_thread.simps) (simp add: slot_addr_Suc Let_def)
  obtain m' where m': "slab_thread ?p (of_nat (slot_size c)) (?p + 0x1000) (slot_addr n c (Suc k)) ?m2 = Some m'"
      "threaded n c (Suc k) ?m2 m'"
    using Suc.hyps(1) [OF k(3,2)] by blast
  have pa: "page_aligned ?p" using assms(2) by simp
  have slots: "ld64 ?m2 (slot_addr n c j) = (if j = k then ?v else ld64 m (slot_addr n c j))" if "j < nslots c" for j
    using that k assms ld64_st64_slots [OF assms(1,1) k(1) that assms(2,2)]
    by (simp add: set_free_count_def st_header_slot)
  have hdr: "free_count ?m2 ?p = free_count m ?p + 1" "slab_free_list ?m2 ?p = slab_free_list m ?p"
    "parent_cache ?m2 ?p = parent_cache m ?p"
    using assms k pa by (simp_all add: set_free_count_def free_count_def slab_free_list_def parent_cache_def
        st_slot_header st_slot_header_0 frame_simps)
  have "page_frame {n} m ?m1"
    unfolding slot_addr_def by (rule page_frame_st) (use slot_off_less [OF assms(1) k(1)] unat_slot_off [OF assms(1) k(1)] in simp)
  moreover have "page_frame {n} ?m1 ?m2"
    unfolding set_free_count_def by (rule page_frame_st) simp
  ultimately have "page_frame {n} m m'" using m'(2) page_frame_trans unfolding threaded_def by blast
  moreover have "of_nat (nslots c - k) = 1 + (of_nat (nslots c - Suc k) :: u32)"
    using k by (simp add: Suc_diff_Suc [symmetric])
  moreover have "ld64 m' (slot_addr n c j) = (if k \<le> j
      then if Suc j < nslots c then slot_addr n c (Suc j) else 0 else ld64 m (slot_addr n c j))"
    if j: "j < nslots c" for j
  proof -
    have "ld64 m' (slot_addr n c j) = (if Suc k \<le> j
        then if Suc j < nslots c then slot_addr n c (Suc j) else 0 else ld64 ?m2 (slot_addr n c j))"
      using m'(2) j unfolding threaded_def by blast
    with slots [OF j] show ?thesis by (cases j k rule: linorder_cases) simp_all
  qed
  moreover have "free_count m' ?p = free_count m ?p + of_nat (nslots c - k)"
    "slab_free_list m' ?p = slab_free_list m ?p" "parent_cache m' ?p = parent_cache m ?p"
    using m'(2) hdr calculation(2) unfolding threaded_def by (simp_all only: add.assoc)
  ultimately have "threaded n c k m m'"
    unfolding threaded_def by blast
  with step m'(1) show ?case by auto
qed

lemma fchain_threaded:
  assumes "threaded n c 0 m m'" "c < NUM_CACHES" "n < TOTAL_PAGES" "k \<le> nslots c"
  shows "fchain m' (if k < nslots c then slot_addr n c k else 0) (map (slot_addr n c) [k..<nslots c])"
  using assms(4)
proof (induction "nslots c - k" arbitrary: k)
  case (Suc d)
  then have k: "k < nslots c" "Suc k \<le> nslots c" "d = nslots c - Suc k" by simp_all
  have "ld64 m' (slot_addr n c k) = (if Suc k < nslots c then slot_addr n c (Suc k) else 0)"
    using assms(1) k by (simp add: threaded_def)
  with Suc.hyps(1) [OF k(3,2)] k slot_addr_nonnull [OF assms(2) k(1) assms(3)] show ?case
    by (simp add: upt_conv_Cons)
qed simp

section \<open>The slab lists\<close>

lemma pages_fam_push:
  assumes "pages_fam I X" "n < TOTAL_PAGES" "\<And>i. i \<in> I \<Longrightarrow> n \<notin> set (X i)" "i \<in> I"
  shows "pages_fam I (X(i := n # X i))"
  using assms unfolding pages_fam_def by auto

lemma pages_fam_remove1:
  assumes "pages_fam I X" "i \<in> I"
  shows "pages_fam I (X(i := remove1 n (X i)))"
  using assms unfolding pages_fam_def by (auto dest: set_remove1_subset [THEN subsetD])

text \<open>
  The lists are indexed by cache number and kind (\<^verbatim>\<open>True\<close> the full ones). The relation: the heads
  of every cache lead through the pages of its two lists, every such page has the layout above
  with its free slots, and exactly the pages without free slots are in a full list.
\<close>

type_synonym slab_lists = "nat \<times> bool \<Rightarrow> nat list"

abbreviation slab_ids :: "(nat \<times> bool) set" where "slab_ids \<equiv> {..<NUM_CACHES} \<times> UNIV"

definition lhead :: "'a slabs_scheme \<Rightarrow> nat \<times> bool \<Rightarrow> u64" where
  "lhead s q = (if snd q then slabs_full else slabs_partial) (kernel_caches s (cache_at s (fst q)))"

definition on_list :: "bool \<Rightarrow> (u64 \<Rightarrow> u64 \<Rightarrow> mem \<Rightarrow> u64 \<times> mem) \<Rightarrow> u64 \<Rightarrow> u64 \<Rightarrow> 'a slabs_scheme \<Rightarrow> 'a slabs_scheme" where
  "on_list b = (if b then on_full else on_partial)"

definition slab_pages :: "slab_lists \<Rightarrow> nat set" where
  "slab_pages X = (\<Union>q \<in> slab_ids. set (X q))"

definition links_rel :: "'a slabs_scheme \<Rightarrow> slab_lists \<Rightarrow> bool" where
  "links_rel s X \<longleftrightarrow> pages_fam slab_ids X \<and>
     dlls (slab_next (kmem s)) (slab_prev (kmem s)) (lhead s) slab_ids (\<lambda>q. map page_addr (X q))"

interpretation slb: dlist slab_next slab_prev set_slab_next set_slab_prev "\<lambda>a. page_aligned a \<and> a \<noteq> 0"
  by unfold_locales
    (auto simp: slab_next_def slab_prev_def set_slab_next_def set_slab_prev_def frame_simps)

lemma cache_at_inj: "c < NUM_CACHES \<Longrightarrow> d < NUM_CACHES \<Longrightarrow> cache_at s c = cache_at s d \<longleftrightarrow> c = d"
proof -
  assume c: "c < NUM_CACHES" "d < NUM_CACHES"
  have "unat (24 * of_nat e :: u64) = 24 * e" if "e < NUM_CACHES" for e
    using that by (simp add: unat_word_ariths unat_of_nat)
  with c have "(24 * of_nat c :: u64) = 24 * of_nat d \<longleftrightarrow> c = d" by (metis mult_cancel_left numeral_neq_zero)
  then show ?thesis by (simp add: cache_at_def)
qed

lemma on_list_fields:
  assumes "f (lhead s (c, b)) a (kmem s) = (h, m)"
  shows "kmem (on_list b f (cache_at s c) a s) = m"
    "on_list b f (cache_at s c) a s = s\<lparr>kmem := m, kernel_caches := kernel_caches (on_list b f (cache_at s c) a s)\<rparr>"
    "c < NUM_CACHES \<Longrightarrow> q \<in> slab_ids \<Longrightarrow> lhead (on_list b f (cache_at s c) a s) q = ((lhead s)((c, b) := h)) q"
    "obj_size (kernel_caches (on_list b f (cache_at s c) a s) d) = obj_size (kernel_caches s d)"
  using assms cache_at_inj [of "fst q" c s]
  by (auto simp: on_list_def on_full_def on_partial_def lhead_def cache_at_def split: prod.splits)

lemma cache_at_on_list [simp]: "cache_at (on_list b f d a s) c = cache_at s c"
  by (auto simp: on_list_def on_full_def on_partial_def cache_at_def split: prod.splits)

lemma slab_list_add_mem:
  "slab_list_add h a m = (a, if h \<noteq> 0 then set_slab_prev (set_slab_prev (set_slab_next m a h) a 0) h a
     else set_slab_prev (set_slab_next m a h) a 0)"
  by (simp add: slab_list_add_def Let_def)

lemma links_headD:
  assumes "links_rel s X" "q \<in> slab_ids"
  shows "lhead s q = (if X q = [] then 0 else page_addr (hd (X q)))"
    "X q = [] \<longleftrightarrow> lhead s q = 0"
proof -
  have d: "dll (slab_next (kmem s)) (slab_prev (kmem s)) 0 (lhead s q) (map page_addr (X q))"
    and fam: "pages_fam slab_ids X"
    using assms unfolding links_rel_def dlls_def by blast+
  show *: "lhead s q = (if X q = [] then 0 else page_addr (hd (X q)))"
    using d by (cases "X q") auto
  show "X q = [] \<longleftrightarrow> lhead s q = 0"
    using * pages_famD(2) [OF fam assms(2), of "hd (X q)"] page_addr_props(2) by auto
qed

lemma slab_add_links:
  assumes r: "links_rel s X" and c: "c < NUM_CACHES" and n: "n < TOTAL_PAGES" "n \<notin> slab_pages X"
  shows "links_rel (on_list b slab_list_add (cache_at s c) (page_addr n) s) (X((c, b) := n # X (c, b)))"
proof -
  let ?a = "page_addr n" and ?q = "(c, b)" and ?s' = "on_list b slab_list_add (cache_at s c) (page_addr n) s"
  have q: "?q \<in> slab_ids" using c by simp
  have fam: "pages_fam slab_ids X" using r by (simp add: links_rel_def)
  have out: "n \<notin> set (X i)" if "i \<in> slab_ids" for i using n(2) that by (auto simp: slab_pages_def)
  have fam': "pages_fam slab_ids (X(?q := n # X ?q))"
    by (rule pages_fam_push [OF fam n(1) out q])
  note fl = on_list_fields [where s = s and c = c and b = b and a = ?a, OF slab_list_add_mem]
  have X: "(\<lambda>q. map page_addr ((X(?q := n # X ?q)) q))
      = (\<lambda>q. map page_addr (X q))(?q := ?a # map page_addr (X ?q))"
    by (auto simp: fun_eq_iff)
  have "dlls (slab_next (kmem ?s')) (slab_prev (kmem ?s')) ((lhead s)(?q := ?a)) slab_ids
      (\<lambda>q. map page_addr ((X(?q := n # X ?q)) q))"
    unfolding X
  proof (rule slb.family_push_dlls [OF _ pages_family [OF fam] q _ _ disjI2 [OF fl(1)]])
    show "?a \<notin> set (map page_addr (X i))" if "i \<in> slab_ids" for i
      using page_addr_mem [OF fam that n(1)] out [OF that] by blast
  qed (use r n(1) in \<open>simp_all add: links_rel_def\<close>)
  then have "dlls (slab_next (kmem ?s')) (slab_prev (kmem ?s')) (lhead ?s') slab_ids
      (\<lambda>q. map page_addr ((X(?q := n # X ?q)) q))"
    by (rule dlls_cong [THEN iffD2, rotated 2]) (use fl(3) [OF c] in simp_all)
  with fam' show ?thesis by (simp add: links_rel_def)
qed

lemma page_frame_links:
  "header_frame {n} m (set_slab_prev m (page_addr n) v)" "header_frame {n} m (set_slab_next m (page_addr n) v)"
  unfolding set_slab_prev_def set_slab_next_def by (auto intro!: header_frame_st)

text \<open>A list operation leaves headers and free lists of all pages alone and writes list pages only.\<close>

definition list_step :: "nat set \<Rightarrow> mem \<Rightarrow> mem \<Rightarrow> bool" where
  "list_step K m m' \<longleftrightarrow> header_frame K m m' \<and> (\<forall>n < TOTAL_PAGES. \<forall>c < NUM_CACHES. \<forall>cache js.
     page_rel m' cache n c js = page_rel m cache n c js)"

lemma list_step_refl [simp]: "list_step K m m"
  by (simp add: list_step_def)

lemma list_step_trans: "list_step K m1 m2 \<Longrightarrow> list_step K m2 m3 \<Longrightarrow> list_step K m1 m3"
  by (auto simp: list_step_def intro: page_frame_trans)

lemma list_step_mono: "list_step K m1 m2 \<Longrightarrow> K \<subseteq> K' \<Longrightarrow> list_step K' m1 m2"
  by (auto simp: list_step_def intro: page_frame_mono)

lemma list_step_prev: "list_step K m m' \<Longrightarrow> k \<in> K \<Longrightarrow> k < TOTAL_PAGES \<Longrightarrow> list_step K m (set_slab_prev m' (page_addr k) v)"
  and list_step_next: "list_step K m m' \<Longrightarrow> k \<in> K \<Longrightarrow> k < TOTAL_PAGES \<Longrightarrow> list_step K m (set_slab_next m' (page_addr k) v)"
  using page_frame_mono [OF page_frame_links(1) [of k m' v], of K]
    page_frame_mono [OF page_frame_links(2) [of k m' v], of K]
  by (auto simp: list_step_def page_rel_links intro: page_frame_trans)

lemma slab_pages_mem: "q \<in> slab_ids \<Longrightarrow> n \<in> set (X q) \<Longrightarrow> n \<in> slab_pages X"
  by (auto simp: slab_pages_def)

lemma slab_pages_less: "pages_fam slab_ids X \<Longrightarrow> n \<in> slab_pages X \<Longrightarrow> n < TOTAL_PAGES"
  unfolding slab_pages_def pages_fam_def by blast

lemma slab_add_step:
  assumes r: "links_rel s X" and c: "c < NUM_CACHES" and n: "n < TOTAL_PAGES"
  shows "list_step (insert n (slab_pages X)) (kmem s) (kmem (on_list b slab_list_add (cache_at s c) (page_addr n) s))"
proof -
  have q: "(c, b) \<in> slab_ids" using c by simp
  have fam: "pages_fam slab_ids X" using r by (simp add: links_rel_def)
  note fl = on_list_fields [where s = s and c = c and b = b and a = "page_addr n", OF slab_list_add_mem]
  show ?thesis
  proof (cases "X (c, b) = []")
    case True
    then have "lhead s (c, b) = 0" using links_headD(2) [OF r q] by simp
    then show ?thesis unfolding fl(1) using n by (auto intro!: list_step_prev list_step_next)
  next
    case False
    then have h: "lhead s (c, b) = page_addr (hd (X (c, b)))" "hd (X (c, b)) \<in> slab_pages X"
      using links_headD(1) [OF r q] slab_pages_mem [OF q] by simp_all
    with slab_pages_less [OF fam] n show ?thesis
      unfolding fl(1) h(1) by (auto intro!: list_step_prev list_step_next)
  qed
qed

lemma slab_list_remove_mem:
  assumes "m1 = (if slab_next m a \<noteq> 0 then set_slab_prev m (slab_next m a) (slab_prev m a) else m)"
    and "m2 = (if slab_prev m1 a \<noteq> 0 then set_slab_next m1 (slab_prev m1 a) (slab_next m1 a) else m1)"
  shows "slab_list_remove h a m =
    (if slab_prev m1 a \<noteq> 0 then h else slab_next m1 a, set_slab_prev (set_slab_prev m2 a 0) a 0)"
  using assms by (simp add: slab_list_remove_def Let_def)

lemma slab_remove_step:
  assumes r: "links_rel s X" and c: "c < NUM_CACHES" and n: "n \<in> set (X (c, b))"
  shows "links_rel (on_list b slab_list_remove (cache_at s c) (page_addr n) s) (X((c, b) := remove1 n (X (c, b))))"
    "list_step (slab_pages X) (kmem s) (kmem (on_list b slab_list_remove (cache_at s c) (page_addr n) s))"
proof -
  let ?a = "page_addr n" and ?q = "(c, b)" and ?m = "kmem s"
  let ?s' = "on_list b slab_list_remove (cache_at s c) ?a s" and ?X' = "X(?q := remove1 n (X ?q))"
  have q: "?q \<in> slab_ids" using c by simp
  have fam: "pages_fam slab_ids X" using r by (simp add: links_rel_def)
  have n4: "n < TOTAL_PAGES" by (rule pages_famD(2) [OF fam q n])
  define m1 where "m1 = (if slab_next ?m ?a \<noteq> 0 then set_slab_prev ?m (slab_next ?m ?a) (slab_prev ?m ?a) else ?m)"
  define m2 where "m2 = (if slab_prev m1 ?a \<noteq> 0 then set_slab_next m1 (slab_prev m1 ?a) (slab_next m1 ?a) else m1)"
  define m3 where "m3 = set_slab_prev (set_slab_prev m2 ?a 0) ?a 0"
  have d: "dlls (slab_next ?m) (slab_prev ?m) (lhead s) slab_ids (\<lambda>q. map page_addr (X q))"
    using r by (simp add: links_rel_def)
  have aX: "?a \<in> set (map page_addr (X ?q))" using n by simp
  note un = slb.family_unlink_dlls [OF d pages_family [OF fam] q aX disjI2 [OF conjI [OF m1_def m2_def]]]
  let ?h = "if slab_prev m1 ?a \<noteq> 0 then lhead s ?q else slab_next m1 ?a"
  have "slab_list_remove (lhead s ?q) ?a ?m = (?h, m3)"
    unfolding m3_def by (rule slab_list_remove_mem [OF m1_def m2_def])
  note fl = on_list_fields [where f = slab_list_remove, OF this]
  have fam': "pages_fam slab_ids ?X'" by (rule pages_fam_remove1 [OF fam q])
  have X: "(\<lambda>q. map page_addr (?X' q)) = (\<lambda>q. map page_addr (X q))(?q := remove1 ?a (map page_addr (X ?q)))"
    using map_page_addr_remove1 [OF fam q n] by (auto simp: fun_eq_iff)
  have out: "n \<notin> set (?X' i)" if "i \<in> slab_ids" for i
    using pages_famD(1,3) [OF fam q] that n by (cases "i = ?q") auto
  have "slab_next m2 e = slab_next m3 e \<and> slab_prev m2 e = slab_prev m3 e"
    if "i \<in> slab_ids" "e \<in> set (map page_addr (?X' i))" for i e
  proof -
    have e: "page_aligned e \<and> e \<noteq> 0" by (rule family_node [OF pages_family [OF fam'] that])
    moreover have "e \<noteq> ?a" using that(2) page_addr_mem [OF fam' that(1) n4] out [OF that(1)] by blast
    moreover have "page_aligned ?a \<and> ?a \<noteq> 0" using n4 by simp
    ultimately show ?thesis unfolding m3_def by (simp add: slb.links)
  qed
  then have "dlls (slab_next m2) (slab_prev m2) ((lhead s)(?q := ?h))
      slab_ids (\<lambda>q. map page_addr (?X' q)) =
    dlls (slab_next (kmem ?s')) (slab_prev (kmem ?s')) (lhead ?s') slab_ids (\<lambda>q. map page_addr (?X' q))"
    unfolding fl(1) by (intro dlls_cong) (use fl(3) [OF c] in simp_all)
  with un(1) fam' show "links_rel ?s' ?X'"
    unfolding links_rel_def X un(2,3) by simp
  have near: "slab_prev ?m ?a = 0 \<or> slab_prev ?m ?a \<in> page_addr ` slab_pages X"
    "slab_next ?m ?a = 0 \<or> slab_next ?m ?a \<in> page_addr ` slab_pages X"
    using dll_prev_cases [OF _ aX] dll_next_cases [OF _ aX] d q slab_pages_mem [OF q]
    unfolding dlls_def set_map by blast+
  have less: "k < TOTAL_PAGES" if "k \<in> slab_pages X" for k by (rule slab_pages_less [OF fam that])
  have "list_step (slab_pages X) ?m m1"
    using near(2) less by (auto simp: m1_def intro!: list_step_prev)
  then have "list_step (slab_pages X) ?m m2"
    using near(1) less un(2,3) by (auto simp: m2_def intro!: list_step_next)
  then show "list_step (slab_pages X) ?m (kmem ?s')"
    unfolding fl(1) m3_def using slab_pages_mem [of ?q n X] q n n4 by (intro list_step_prev)
qed

section \<open>The relation to abstract slabs\<close>

text \<open>
  \<^verbatim>\<open>cpages X c\<close> are the pages of cache \<^verbatim>\<open>c\<close>, \<^verbatim>\<open>fl n\<close> the free slots of page \<^verbatim>\<open>n\<close> in the order of its
  free list. A page is in the full list exactly when it has no free slot, and no slab is kept
  whose slots are all free; inside an operation this may be open for the pages in \<^verbatim>\<open>N\<close>.
\<close>

definition cpages :: "slab_lists \<Rightarrow> nat \<Rightarrow> nat set" where
  "cpages X c = set (X (c, False)) \<union> set (X (c, True))"

definition caches_ok :: "'a slabs_scheme \<Rightarrow> bool" where
  "caches_ok s \<longleftrightarrow> (\<forall>c < NUM_CACHES. cache_at s c \<noteq> 0 \<and>
     obj_size (kernel_caches s (cache_at s c)) = of_nat (slot_size c))"

definition pages_rel :: "'a slabs_scheme \<Rightarrow> slab_lists \<Rightarrow> (nat \<Rightarrow> nat list) \<Rightarrow> bool" where
  "pages_rel s X fl \<longleftrightarrow> (\<forall>c < NUM_CACHES. \<forall>n \<in> cpages X c. page_rel (kmem s) (cache_at s c) n c (fl n))"

definition kinds_ok :: "nat set \<Rightarrow> slab_lists \<Rightarrow> (nat \<Rightarrow> nat list) \<Rightarrow> bool" where
  "kinds_ok N X fl \<longleftrightarrow> (\<forall>c < NUM_CACHES. \<forall>b. \<forall>n \<in> set (X (c, b)) - N. (b \<longleftrightarrow> fl n = []) \<and> length (fl n) < nslots c)"

definition move_page :: "nat \<Rightarrow> bool \<Rightarrow> nat \<Rightarrow> slab_lists \<Rightarrow> slab_lists" where
  "move_page c b n X = X((c, b) := remove1 n (X (c, b)), (c, \<not> b) := n # X (c, \<not> b))"

definition slab_rel :: "'a slabs_scheme \<Rightarrow> slab_lists \<Rightarrow> (nat \<Rightarrow> nat list) \<Rightarrow> bool" where
  "slab_rel s X fl \<longleftrightarrow> caches_ok s \<and> links_rel s X \<and> pages_rel s X fl"

lemma slab_pages_cpages: "slab_pages X = (\<Union>c < NUM_CACHES. cpages X c)"
  by (auto simp: slab_pages_def cpages_def UNIV_bool)

lemma links_fam: "links_rel s X \<Longrightarrow> pages_fam slab_ids X"
  by (simp add: links_rel_def)

lemma cpages_less: "links_rel s X \<Longrightarrow> c < NUM_CACHES \<Longrightarrow> n \<in> cpages X c \<Longrightarrow> n < TOTAL_PAGES"
  using slab_pages_less [OF links_fam, of s X n] by (auto simp: slab_pages_cpages)

lemma links_mem_unique:
  assumes "links_rel s X" "q \<in> slab_ids" "q' \<in> slab_ids" "n \<in> set (X q)" "n \<in> set (X q')"
  shows "q = q'"
  using pages_famD(3) [OF links_fam [OF assms(1)] assms(2,3) _ assms(4)] assms(5) by blast

lemma cpages_disjoint:
  assumes "links_rel s X" "c < NUM_CACHES" "d < NUM_CACHES" "n \<in> cpages X c" "n \<in> cpages X d"
  shows "c = d"
proof -
  obtain b b' where "n \<in> set (X (c, b))" "n \<in> set (X (d, b'))" using assms(4,5) by (auto simp: cpages_def)
  with links_mem_unique [OF assms(1), of "(c, b)" "(d, b')" n] assms(2,3) have "(c, b) = (d, b')" by simp
  then show ?thesis by simp
qed

lemma links_rel_frame:
  assumes l: "links_rel s X" and f: "page_frame K (kmem s) (kmem s')" "K \<subseteq> {..<TOTAL_PAGES}" "K \<inter> slab_pages X = {}"
    and eq: "kernel_caches s' = kernel_caches s" "kernel_caches_addr s' = kernel_caches_addr s"
  shows "links_rel s' X"
proof -
  have "slab_next (kmem s') a = slab_next (kmem s) a \<and> slab_prev (kmem s') a = slab_prev (kmem s) a"
    if q: "q \<in> slab_ids" "a \<in> set (map page_addr (X q))" for q a
  proof -
    obtain n where n: "a = page_addr n" "n \<in> set (X q)" using q(2) by auto
    have "n \<in> slab_pages X" using q(1) n(2) by (rule slab_pages_mem)
    then have "n \<notin> K" "n < TOTAL_PAGES" using f(3) slab_pages_less [OF links_fam [OF l]] by auto
    then show ?thesis
      using page_frame_load [OF f(1,2), of n 32 8] page_frame_load [OF f(1,2), of n 24 8]
      by (simp add: n slab_next_def slab_prev_def ld64_def)
  qed
  moreover have "lhead s' = lhead s" using eq by (auto simp: fun_eq_iff lhead_def cache_at_def)
  ultimately have "dlls (slab_next (kmem s')) (slab_prev (kmem s')) (lhead s') slab_ids (\<lambda>q. map page_addr (X q))
      = dlls (slab_next (kmem s)) (slab_prev (kmem s)) (lhead s) slab_ids (\<lambda>q. map page_addr (X q))"
    by (intro dlls_cong) simp_all
  with l show ?thesis by (simp add: links_rel_def)
qed

lemma slab_rel_frame:
  assumes r: "slab_rel s X fl" and f: "page_frame K (kmem s) (kmem s')" "K \<subseteq> {..<TOTAL_PAGES}" "K \<inter> slab_pages X = {}"
    and eq: "kernel_caches s' = kernel_caches s" "kernel_caches_addr s' = kernel_caches_addr s"
  shows "slab_rel s' X fl"
proof -
  have l: "links_rel s X" using r by (simp add: slab_rel_def)
  have "page_rel (kmem s') (cache_at s c) n c (fl n)" if "c < NUM_CACHES" "n \<in> cpages X c" for c n
  proof -
    have "n \<notin> K" "n < TOTAL_PAGES" using that f(3) cpages_less [OF l] by (auto simp: slab_pages_cpages)
    with page_rel_frame [OF f(1,2), of n c] r that show ?thesis by (simp add: slab_rel_def pages_rel_def)
  qed
  moreover have "cache_at s' = cache_at s" using eq by (auto simp: cache_at_def fun_eq_iff)
  ultimately show ?thesis
    using r links_rel_frame [OF l f eq] eq by (simp add: slab_rel_def pages_rel_def caches_ok_def)
qed

lemma on_list_caches_ok: "f (lhead s (c, b)) a (kmem s) = (h, m) \<Longrightarrow> caches_ok s \<Longrightarrow> caches_ok (on_list b f (cache_at s c) a s)"
  by (simp add: caches_ok_def on_list_fields(4))

text \<open>The slab operations write memory and the list heads of the caches only.\<close>

definition slab_upd :: "'a slabs_scheme \<Rightarrow> 'a slabs_scheme \<Rightarrow> bool" where
  "slab_upd s s' \<longleftrightarrow> s'\<lparr>kmem := kmem s, kernel_caches := kernel_caches s\<rparr> = s"

lemma slab_upd_refl [simp]: "slab_upd s s"
  by (cases s) (simp add: slab_upd_def)

lemma slab_upd_trans: "slab_upd s t \<Longrightarrow> slab_upd t u \<Longrightarrow> slab_upd s u"
  by (cases s, cases t, cases u) (simp add: slab_upd_def)

lemma slab_upd_kmem: "slab_upd s t \<Longrightarrow> slab_upd s (t\<lparr>kmem := m\<rparr>)"
  by (cases s, cases t) (simp add: slab_upd_def)

lemma slab_updD:
  assumes "slab_upd s s'"
  shows "cache_at s' = cache_at s" "free_areas s' = free_areas s" "metadata s' = metadata s"
    "kernel_caches_addr s' = kernel_caches_addr s"
  using assms by (cases s, cases s', simp add: slab_upd_def cache_at_def fun_eq_iff)+

lemma slab_upd_on_list [simp]: "slab_upd s (on_list b f d a s)"
  by (cases s) (auto simp: slab_upd_def on_list_def on_full_def on_partial_def split: prod.splits)

text \<open>Moving a page from one list of its cache to the other.\<close>

lemma slab_move:
  assumes r: "slab_rel s X fl" and c: "c < NUM_CACHES" and n: "n \<in> set (X (c, b))"
  defines "s1 \<equiv> on_list b slab_list_remove (cache_at s c) (page_addr n) s"
  defines "s2 \<equiv> on_list (\<not> b) slab_list_add (cache_at s c) (page_addr n) s1"
  defines "X2 \<equiv> move_page c b n X"
  shows "slab_rel s2 X2 fl" "slab_pages X2 = slab_pages X" "header_frame (slab_pages X) (kmem s) (kmem s2)"
    "slab_upd s s2"
    "d < NUM_CACHES \<Longrightarrow> cpages X2 d = cpages X d"
proof -
  let ?X1 = "X((c, b) := remove1 n (X (c, b)))"
  have q: "(c, b) \<in> slab_ids" using c by simp
  have l: "links_rel s X" and co: "caches_ok s" and p: "pages_rel s X fl" using r by (simp_all add: slab_rel_def)
  note fam = pages_famD [OF links_fam [OF l] q]
  have n4: "n < TOTAL_PAGES" by (rule fam(2) [OF n])
  have nX: "n \<in> slab_pages X" using q n by (rule slab_pages_mem)
  obtain h m where rm: "slab_list_remove (lhead s (c, b)) (page_addr n) (kmem s) = (h, m)" by fastforce
  have ca: "cache_at s1 = cache_at s" by (simp add: s1_def fun_eq_iff)
  note st1 = slab_remove_step [OF l c n, folded s1_def]
  have out: "n \<notin> slab_pages ?X1"
  proof
    assume "n \<in> slab_pages ?X1"
    then obtain q' where "q' \<in> slab_ids" "n \<in> set (?X1 q')" by (auto simp: slab_pages_def)
    then show False using fam(1) fam(3) [of q' n] n by (cases "q' = (c, b)") auto
  qed
  have X2: "?X1((c, \<not> b) := n # ?X1 (c, \<not> b)) = X2" by (auto simp: X2_def move_page_def fun_eq_iff)
  have l2: "links_rel s2 X2"
    using slab_add_links [OF st1(1) c n4 out, of "\<not> b"] by (simp only: ca s2_def X2)
  have pages1: "insert n (slab_pages ?X1) \<subseteq> slab_pages X"
  proof -
    have "x \<in> slab_pages X" if "q' \<in> slab_ids" "x \<in> set (?X1 q')" for x q'
    proof -
      have "x \<in> set (X q')" using that(2) set_remove1_subset [of n "X (c, b)"] by (auto split: if_splits)
      with that(1) show ?thesis by (rule slab_pages_mem)
    qed
    with nX show ?thesis unfolding slab_pages_def [of ?X1] by blast
  qed
  have ls: "list_step (insert n (slab_pages ?X1)) (kmem s1) (kmem s2)"
    using slab_add_step [OF st1(1) c n4, of "\<not> b"] by (simp only: ca s2_def)
  have step: "list_step (slab_pages X) (kmem s) (kmem s2)"
    by (rule list_step_trans [OF st1(2) list_step_mono [OF ls pages1]])
  then show "header_frame (slab_pages X) (kmem s) (kmem s2)" by (simp add: list_step_def)
  have d: "distinct (X (c, b))" by (rule fam(1))
  show cp: "cpages X2 d = cpages X d" for d
    using n d by (cases b) (auto simp: cpages_def X2_def move_page_def)
  then show sp: "slab_pages X2 = slab_pages X" by (simp add: slab_pages_cpages)
  have p2: "pages_rel s2 X2 fl"
    using p step cpages_less [OF l] unfolding pages_rel_def list_step_def cp by (simp add: s2_def s1_def)
  have "caches_ok s1" unfolding s1_def by (rule on_list_caches_ok [where f = slab_list_remove, OF rm co])
  then have "caches_ok (on_list (\<not> b) slab_list_add (cache_at s1 c) (page_addr n) s1)"
    by (rule on_list_caches_ok [where f = slab_list_add, OF slab_list_add_mem])
  then have "caches_ok s2" unfolding s2_def ca .
  with l2 p2 show "slab_rel s2 X2 fl" by (simp add: slab_rel_def)
  show "slab_upd s s2"
    unfolding s2_def s1_def by (rule slab_upd_trans [OF slab_upd_on_list slab_upd_on_list])
qed

section \<open>Taking and returning an object\<close>

lemma slab_page_update:
  assumes r: "slab_rel s X fl" and c: "c < NUM_CACHES" and n: "n \<in> cpages X c"
    and f: "page_frame {n} (kmem s) m'"
    and lk: "slab_next m' (page_addr n) = slab_next (kmem s) (page_addr n)"
      "slab_prev m' (page_addr n) = slab_prev (kmem s) (page_addr n)"
    and p: "page_rel m' (cache_at s c) n c js"
  shows "slab_rel (s\<lparr>kmem := m'\<rparr>) X (fl(n := js))"
proof -
  have l: "links_rel s X" and co: "caches_ok s" and pr: "pages_rel s X fl" using r by (simp_all add: slab_rel_def)
  have n4: "n < TOTAL_PAGES" by (rule cpages_less [OF l c n])
  have load: "load_bytes b m' (page_addr k + x) = load_bytes b (kmem s) (page_addr k + x)"
    if "k < TOTAL_PAGES" "k \<noteq> n" "unat x + b \<le> 4096" for k x b
    by (rule page_frame_load [OF f]) (use n4 that in auto)
  have "slab_next m' a = slab_next (kmem s) a \<and> slab_prev m' a = slab_prev (kmem s) a"
    if q: "q \<in> slab_ids" "a \<in> set (map page_addr (X q))" for q a
  proof -
    obtain k where k: "a = page_addr k" "k \<in> set (X q)" using q(2) by auto
    have "k < TOTAL_PAGES" using pages_famD(2) [OF links_fam [OF l] q(1) k(2)] .
    then show ?thesis
      using lk load [of k 32 8] load [of k 24 8]
      by (cases "k = n") (simp_all add: k slab_next_def slab_prev_def ld64_def)
  qed
  then have "dlls (slab_next m') (slab_prev m') (lhead s) slab_ids (\<lambda>q. map page_addr (X q))
      = dlls (slab_next (kmem s)) (slab_prev (kmem s)) (lhead s) slab_ids (\<lambda>q. map page_addr (X q))"
    by (intro dlls_cong) simp_all
  moreover have "lhead (s\<lparr>kmem := m'\<rparr>) = lhead s" "cache_at (s\<lparr>kmem := m'\<rparr>) = cache_at s"
    by (auto simp: fun_eq_iff lhead_def cache_at_def)
  ultimately have "links_rel (s\<lparr>kmem := m'\<rparr>) X" "caches_ok (s\<lparr>kmem := m'\<rparr>)"
    using l co by (simp_all add: links_rel_def caches_ok_def)
  moreover have "page_rel m' (cache_at s d) k d ((fl(n := js)) k)" if d: "d < NUM_CACHES" "k \<in> cpages X d" for d k
  proof (cases "k = n")
    case True
    with cpages_disjoint [OF l c d(1) n] d(2) p show ?thesis by simp
  next
    case False
    with page_rel_frame [OF f, of k d] cpages_less [OF l d] n4 d pr show ?thesis by (simp add: pages_rel_def)
  qed
  then have "pages_rel (s\<lparr>kmem := m'\<rparr>) X (fl(n := js))"
    using \<open>cache_at (s\<lparr>kmem := m'\<rparr>) = cache_at s\<close> by (simp add: pages_rel_def)
  ultimately show ?thesis by (simp add: slab_rel_def)
qed

lemmas slab_fields = slab_free_list_def free_count_def total_count_def parent_cache_def slab_prev_def slab_next_def
  set_slab_free_list_def set_free_count_def

lemma page_rel_take:
  assumes p: "page_rel m cache n c (j # js)" and c: "c < NUM_CACHES" and n: "n < TOTAL_PAGES"
  defines "a \<equiv> page_addr n"
  defines "m1 \<equiv> set_slab_free_list m a (ld64 m (slab_free_list m a))"
  defines "m2 \<equiv> set_free_count m1 a (free_count m1 a - 1)"
  shows "slab_free_list m a = slot_addr n c j" "page_rel m2 cache n c js" "header_frame {n} m m2"
    "slab_next m2 a = slab_next m a" "slab_prev m2 a = slab_prev m a" "free_count m2 a = of_nat (length js)"
proof -
  have pa: "page_aligned a" using n by (simp add: a_def)
  have d: "distinct (j # js)" "set (j # js) \<subseteq> {..<nslots c}" "parent_cache m a = cache"
    "free_count m a = of_nat (length (j # js))" "total_count m a = of_nat (nslots c)"
    and ch: "fchain m (slab_free_list m a) (map (slot_addr n c) (j # js))"
    using p by (simp_all add: page_rel_def a_def)
  show fl: "slab_free_list m a = slot_addr n c j" using ch by simp
  have slots: "ld64 m2 (slot_addr n c k) = ld64 m (slot_addr n c k)" if "k < nslots c" for k
    using that c n pa st_header_slot_0 [OF c that n pa]
    by (simp add: m2_def m1_def slab_fields st_header_slot)
  have hd: "parent_cache m2 a = parent_cache m a" "total_count m2 a = total_count m a"
    "slab_free_list m2 a = ld64 m (slab_free_list m a)" "free_count m2 a = free_count m a - 1"
    "slab_next m2 a = slab_next m a" "slab_prev m2 a = slab_prev m a"
    using pa by (simp_all add: m2_def m1_def slab_fields frame_simps)
  then show "slab_next m2 a = slab_next m a" "slab_prev m2 a = slab_prev m a" by blast+
  show fc: "free_count m2 a = of_nat (length js)" using hd(4) d(4) by simp
  have "fchain m2 (slab_free_list m2 a) (map (slot_addr n c) js)"
  proof -
    have "fchain m (ld64 m (slab_free_list m a)) (map (slot_addr n c) js)" using ch by simp
    moreover have "fchain m h (map (slot_addr n c) js) = fchain m2 h (map (slot_addr n c) js)" for h
      by (rule fchain_cong) (use slots d(2) in auto)
    ultimately show ?thesis by (simp add: hd)
  qed
  with d hd fc show "page_rel m2 cache n c js" by (simp add: page_rel_def flip: a_def)
  have "header_frame {n} m m1" unfolding m1_def a_def set_slab_free_list_def by (rule header_frame_st_0)
  moreover have "header_frame {n} m1 m2" unfolding m2_def a_def set_free_count_def by (rule header_frame_st) simp
  ultimately show "header_frame {n} m m2" by (rule page_frame_trans)
qed

lemma page_rel_put:
  assumes p: "page_rel m cache n c js" and c: "c < NUM_CACHES" and n: "n < TOTAL_PAGES"
    and j: "j < nslots c" "j \<notin> set js"
  defines "a \<equiv> page_addr n" and "q \<equiv> slot_addr n c j"
  defines "m1 \<equiv> st64 m q (slab_free_list m a)"
  defines "m2 \<equiv> set_slab_free_list m1 a q"
  defines "m3 \<equiv> set_free_count m2 a (free_count m2 a + 1)"
  shows "page_rel m3 cache n c (j # js)" "page_frame {n} m m3" "slab_next m3 a = slab_next m a"
    "slab_prev m3 a = slab_prev m a" "free_count m3 a = of_nat (Suc (length js))" "total_count m3 a = of_nat (nslots c)"
    "header_frame {n} m1 m3"
proof -
  have pa: "page_aligned a" using n by (simp add: a_def)
  have d: "distinct js" "set js \<subseteq> {..<nslots c}" "parent_cache m a = cache"
    "free_count m a = of_nat (length js)" "total_count m a = of_nat (nslots c)"
    and ch: "fchain m (slab_free_list m a) (map (slot_addr n c) js)"
    using p by (simp_all add: page_rel_def a_def)
  have slots: "ld64 m3 (slot_addr n c k) = (if k = j then slab_free_list m a else ld64 m (slot_addr n c k))"
    if "k < nslots c" for k
    using that c n pa st_header_slot_0 [OF c that n pa] ld64_st64_slots [OF c c j(1) that n n]
    by (simp add: m3_def m2_def m1_def q_def set_slab_free_list_def set_free_count_def st_header_slot)
  have hd: "parent_cache m3 a = parent_cache m a" "total_count m3 a = total_count m a"
    "slab_free_list m3 a = q" "free_count m3 a = free_count m a + 1"
    "slab_next m3 a = slab_next m a" "slab_prev m3 a = slab_prev m a"
    using pa c n j by (simp_all add: m3_def m2_def m1_def q_def slab_fields frame_simps st_slot_header)
  then show "slab_next m3 a = slab_next m a" "slab_prev m3 a = slab_prev m a" by blast+
  show fc: "free_count m3 a = of_nat (Suc (length js))" "total_count m3 a = of_nat (nslots c)"
    using hd(2,4) d(4,5) by simp_all
  have "fchain m3 h (map (slot_addr n c) js) = fchain m h (map (slot_addr n c) js)" for h
    by (rule fchain_cong) (use slots d(2) j in auto)
  then have "fchain m3 (slab_free_list m3 a) (map (slot_addr n c) (j # js))"
    using ch slots [OF j(1)] slot_addr_nonnull [OF c j(1) n] hd(3) by (simp add: q_def)
  with d hd fc j show "page_rel m3 cache n c (j # js)" by (simp add: page_rel_def flip: a_def)
  have "header_frame {n} m1 m2" unfolding m2_def a_def set_slab_free_list_def by (rule header_frame_st_0)
  moreover have "header_frame {n} m2 m3" unfolding m3_def a_def set_free_count_def by (rule header_frame_st) simp
  ultimately show h13: "header_frame {n} m1 m3" by (rule page_frame_trans)
  have "page_frame {n} m m1"
    unfolding m1_def q_def slot_addr_def
    by (rule page_frame_st) (use slot_off_less [OF c j(1)] unat_slot_off [OF c j(1)] in simp)
  with header_page_frame [OF h13] show "page_frame {n} m m3" by (blast intro: page_frame_trans)
qed

lemma move_page_mem:
  assumes "links_rel s X" "c < NUM_CACHES" "n \<in> set (X (c, b))"
  shows "n \<in> set (move_page c b n X (c, \<not> b))"
    "k \<noteq> n \<Longrightarrow> k \<in> set (move_page c b n X q) \<longleftrightarrow> k \<in> set (X q)"
  by (auto simp: move_page_def)

lemma kinds_move:
  assumes "links_rel s X" "c < NUM_CACHES" "n \<in> set (X (c, b))" "kinds_ok {n} X fl"
  shows "kinds_ok {n} (move_page c b n X) fl"
  using assms(4) move_page_mem(2) [OF assms(1-3)] by (auto simp: kinds_ok_def)

lemma kinds_settle:
  assumes l: "links_rel s X" and c: "c < NUM_CACHES" and n: "n \<in> set (X (c, b))" and k: "kinds_ok {n} X fl"
    and js: "b \<longleftrightarrow> js = []" "length js < nslots c"
  shows "kinds_ok {} X (fl(n := js))"
  unfolding kinds_ok_def
proof (intro allI impI ballI)
  fix d b' k' assume d: "d < NUM_CACHES" "k' \<in> set (X (d, b')) - {}"
  show "(b' \<longleftrightarrow> (fl(n := js)) k' = []) \<and> length ((fl(n := js)) k') < nslots d"
  proof (cases "k' = n")
    case True
    then have "(c, b) = (d, b')" using links_mem_unique [OF l, of "(c, b)" "(d, b')" n] c d n by simp
    with js True show ?thesis by simp
  next
    case False
    then have "k' \<in> set (X (d, b')) - {n}" using d by simp
    with k d(1) False show ?thesis unfolding kinds_ok_def by auto
  qed
qed

lemma kinds_mono: "kinds_ok N X fl \<Longrightarrow> N \<subseteq> N' \<Longrightarrow> kinds_ok N' X fl"
  unfolding kinds_ok_def by blast

lemma nslots_word: "c < NUM_CACHES \<Longrightarrow> m \<le> nslots c \<Longrightarrow> (of_nat m :: u32) = of_nat k \<Longrightarrow> k \<le> nslots c \<Longrightarrow> m = k"
proof -
  assume a: "c < NUM_CACHES" "m \<le> nslots c" "(of_nat m :: u32) = of_nat k" "k \<le> nslots c"
  have "unat (of_nat m :: u32) = m" "unat (of_nat k :: u32) = k"
    using nslots_pos [OF a(1)] a(2,4) by (simp_all add: unat_of_nat)
  with a(3) show ?thesis by metis
qed

lemma page_rel_count:
  assumes "page_rel m cache n c js"
  shows "length js \<le> nslots c"
  using assms card_mono [of "{..<nslots c}" "set js"] distinct_card [of js] by (simp add: page_rel_def)

lemma free_count_zero:
  assumes "page_rel m cache n c js" "c < NUM_CACHES"
  shows "free_count m (page_addr n) = 0 \<longleftrightarrow> js = []"
  using assms nslots_word [OF assms(2), of "length js" 0] page_rel_count [OF assms(1)]
  by (auto simp: page_rel_def)

lemma slab_take_rel:
  assumes r: "slab_rel s X fl" and c: "c < NUM_CACHES" and X: "X (c, False) = n # ns" and fl: "fl n = j # js"
    and k: "kinds_ok {n} X fl"
  shows "\<exists>s' X'. slab_take (cache_at s c) s = (slot_addr n c j, s') \<and> slab_rel s' X' (fl(n := js)) \<and>
    kinds_ok {} X' (fl(n := js)) \<and> (\<forall>d < NUM_CACHES. cpages X' d = cpages X d) \<and>
    header_frame (slab_pages X) (kmem s) (kmem s') \<and> slab_upd s s'"
proof -
  let ?a = "page_addr n" and ?ca = "cache_at s c"
  have l: "links_rel s X" and pr: "pages_rel s X fl" using r by (simp_all add: slab_rel_def)
  have q: "(c, False) \<in> slab_ids" using c by simp
  have nX: "n \<in> set (X (c, False))" using X by simp
  have nC: "n \<in> cpages X c" using nX by (simp add: cpages_def)
  have n4: "n < TOTAL_PAGES" by (rule cpages_less [OF l c nC])
  have nS: "n \<in> slab_pages X" using slab_pages_mem [of "(c, False)" n X] q nX by simp
  have head: "slabs_partial (kernel_caches s ?ca) = ?a"
    using links_headD(1) [OF l q] X by (simp add: lhead_def)
  have p: "page_rel (kmem s) ?ca n c (j # js)" using pr c nC fl unfolding pages_rel_def by metis
  define m1 where "m1 = set_slab_free_list (kmem s) ?a (ld64 (kmem s) (slab_free_list (kmem s) ?a))"
  define m2 where "m2 = set_free_count m1 ?a (free_count m1 ?a - 1)"
  note t = page_rel_take [OF p c n4, folded m1_def, folded m2_def]
  let ?s1 = "s\<lparr>kmem := m2\<rparr>"
  have r1: "slab_rel ?s1 X (fl(n := js))"
    by (rule slab_page_update [OF r c nC header_page_frame [OF t(3)] t(4,5,2)])
  have f1: "header_frame (slab_pages X) (kmem s) m2" using nS by (intro page_frame_mono [OF t(3)]) simp
  have len: "length js < nslots c" using page_rel_count [OF p] by simp
  have k1: "kinds_ok {n} X (fl(n := js))" using k by (auto simp: kinds_ok_def)
  have l1: "links_rel ?s1 X" using r1 by (simp add: slab_rel_def)
  have ca: "cache_at ?s1 c = ?ca" by (simp add: cache_at_def)
  have fc: "free_count m2 ?a = 0 \<longleftrightarrow> js = []" by (rule free_count_zero [OF t(2) c])
  define s2 where "s2 = on_list True slab_list_add ?ca ?a (on_list False slab_list_remove ?ca ?a ?s1)"
  have eq: "slab_take ?ca s = (slot_addr n c j, if js = [] then s2 else ?s1)"
    using t(1) fc by (simp add: slab_take_def head Let_def m1_def m2_def s2_def on_list_def)
  show ?thesis
  proof (cases "js = []")
    case False
    have "kinds_ok {} X (fl(n := js))"
      using kinds_settle [OF l1 c nX k1, of js] False len by simp
    with r1 f1 False eq slab_upd_kmem [OF slab_upd_refl] show ?thesis by (intro exI [of _ ?s1] exI [of _ X]) simp
  next
    case True
    have s2': "on_list (\<not> False) slab_list_add ?ca ?a (on_list False slab_list_remove ?ca ?a ?s1) = s2"
      by (simp add: s2_def)
    note mv = slab_move [OF r1 c nX, unfolded ca, unfolded s2']
    let ?X2 = "move_page c False n X"
    have l2: "links_rel s2 ?X2" using mv(1) by (simp add: slab_rel_def)
    have "kinds_ok {} ?X2 (fl(n := js, n := js))"
      by (rule kinds_settle [OF l2 c _ kinds_move [OF l1 c nX k1], of True])
        (use move_page_mem(1) [OF l1 c nX] True len in simp_all)
    moreover have "header_frame (slab_pages X) (kmem s) (kmem s2)"
      using f1 mv(3) by (auto intro: page_frame_trans)
    moreover have "slab_upd s s2"
      by (rule slab_upd_trans [OF slab_upd_kmem [OF slab_upd_refl] mv(4)])
    ultimately show ?thesis
      using mv(1,5) True eq by (intro exI [of _ s2] exI [of _ ?X2]) simp
  qed
qed

lemma slab_unlist:
  assumes r: "slab_rel s X fl" and c: "c < NUM_CACHES" and n: "n \<in> set (X (c, b))"
  defines "s1 \<equiv> on_list b slab_list_remove (cache_at s c) (page_addr n) s"
  defines "X1 \<equiv> X((c, b) := remove1 n (X (c, b)))"
  shows "slab_rel s1 X1 fl" "header_frame (slab_pages X) (kmem s) (kmem s1)" "n \<notin> slab_pages X1"
    "d < NUM_CACHES \<Longrightarrow> cpages X1 d = cpages X d - {n}"
    "slab_upd s s1"
proof -
  have l: "links_rel s X" and co: "caches_ok s" and p: "pages_rel s X fl" using r by (simp_all add: slab_rel_def)
  have q: "(c, b) \<in> slab_ids" using c by simp
  note st = slab_remove_step [OF l c n, folded s1_def X1_def]
  then show "header_frame (slab_pages X) (kmem s) (kmem s1)" by (simp add: list_step_def)
  have d: "distinct (X (c, b))" by (rule pages_famD(1) [OF links_fam [OF l] q])
  show cp: "cpages X1 d = cpages X d - {n}" if d': "d < NUM_CACHES" for d
  proof -
    have out: "n \<notin> set (X (d, b'))" if "(d, b') \<noteq> (c, b)" for b'
      using links_mem_unique [OF l, of "(c, b)" "(d, b')" n] that c d' n by auto
    show ?thesis
    proof (cases "d = c")
      case True
      then have "n \<notin> set (X (d, \<not> b))" using out [of "\<not> b"] by simp
      with True d show ?thesis by (cases b) (auto simp: cpages_def X1_def)
    next
      case False
      then have "n \<notin> cpages X d" using out by (auto simp: cpages_def)
      with False show ?thesis by (auto simp: cpages_def X1_def)
    qed
  qed
  then show "n \<notin> slab_pages X1" by (simp add: slab_pages_cpages)
  obtain h m where rm: "slab_list_remove (lhead s (c, b)) (page_addr n) (kmem s) = (h, m)" by fastforce
  have "caches_ok s1" unfolding s1_def by (rule on_list_caches_ok [where f = slab_list_remove, OF rm co])
  moreover have "pages_rel s1 X1 fl"
    using p st(2) cpages_less [OF l] cp unfolding pages_rel_def list_step_def by (simp add: s1_def)
  ultimately show "slab_rel s1 X1 fl" using st(1) by (simp add: slab_rel_def)
  show "slab_upd s s1" unfolding s1_def by simp
qed

text \<open>
  The first half of \<^verbatim>\<open>slab_free\<close>: the slab is made partial if it was full, and the object goes to
  the front of its free list.
\<close>

definition slab_give :: "u64 \<Rightarrow> 'a slabs_scheme \<Rightarrow> 'a slabs_scheme" where
  "slab_give ptr s =
     (let slab = ptr AND PAGE_MASK_4KB;
          cache = parent_cache (kmem s) slab;
          s1 = (if free_count (kmem s) slab = 0
                then on_partial slab_list_add cache slab (on_full slab_list_remove cache slab s)
                else s);
          m1 = st64 (kmem s1) ptr (slab_free_list (kmem s1) slab);
          m2 = set_slab_free_list m1 slab ptr;
          m3 = set_free_count m2 slab (free_count m2 slab + 1)
      in s1\<lparr>kmem := m3\<rparr>)"

lemma slab_free_eq:
  "slab_free ptr s = (if ptr = 0 then s else
     let slab = ptr AND PAGE_MASK_4KB; cache = parent_cache (kmem s) slab; s2 = slab_give ptr s
     in if free_count (kmem s2) slab = total_count (kmem s2) slab
        then let s3 = on_partial slab_list_remove cache slab s2
          in buddy_free slab (s3\<lparr>metadata := (metadata s3)(page_index ptr := (metadata s3 (page_index ptr))\<lparr>is_slab := False\<rparr>)\<rparr>)
        else s2)"
  unfolding slab_free_def slab_give_def Let_def by simp

lemma slab_give_rel:
  assumes r: "slab_rel s X fl" and k: "kinds_ok {} X fl" and c: "c < NUM_CACHES" and n: "n \<in> cpages X c"
    and j: "j < nslots c" "j \<notin> set (fl n)"
  shows "\<exists>X'. slab_rel (slab_give (slot_addr n c j) s) X' (fl(n := j # fl n)) \<and>
    kinds_ok {n} X' (fl(n := j # fl n)) \<and> n \<in> set (X' (c, False)) \<and> (\<forall>d < NUM_CACHES. cpages X' d = cpages X d) \<and>
    (\<forall>a. (\<forall>k \<in> slab_pages X. \<forall>x < 40. a \<noteq> page_addr k + x) \<longrightarrow> (\<forall>x < 8. a \<noteq> slot_addr n c j + of_nat x) \<longrightarrow>
       kmem (slab_give (slot_addr n c j) s) a = kmem s a) \<and>
    slab_upd s (slab_give (slot_addr n c j) s)"
proof -
  let ?a = "page_addr n" and ?ca = "cache_at s c" and ?q = "slot_addr n c j"
  have l: "links_rel s X" and pr: "pages_rel s X fl" using r by (simp_all add: slab_rel_def)
  have n4: "n < TOTAL_PAGES" by (rule cpages_less [OF l c n])
  have nS: "n \<in> slab_pages X" using c n by (auto simp: slab_pages_cpages)
  have p: "page_rel (kmem s) ?ca n c (fl n)" using pr c n by (simp add: pages_rel_def)
  then have pc: "parent_cache (kmem s) ?a = ?ca" by (simp add: page_rel_def)
  have mask: "?q AND PAGE_MASK_4KB = ?a" by (rule slot_addr_mask [OF c j(1) n4])
  obtain b where b: "n \<in> set (X (c, b))" using n by (auto simp: cpages_def)
  have kb: "b \<longleftrightarrow> fl n = []" using k c b unfolding kinds_ok_def by auto
  define s1 where "s1 = (if free_count (kmem s) ?a = 0
    then on_list False slab_list_add ?ca ?a (on_list True slab_list_remove ?ca ?a s) else s)"
  define X1 where "X1 = (if b then move_page c True n X else X)"
  have full: "free_count (kmem s) ?a = 0 \<longleftrightarrow> b" using free_count_zero [OF p c] kb by simp
  have s1: "slab_rel s1 X1 fl \<and> (\<forall>d < NUM_CACHES. cpages X1 d = cpages X d) \<and>
    header_frame (slab_pages X) (kmem s) (kmem s1) \<and> slab_upd s s1 \<and>
    n \<in> set (X1 (c, False)) \<and> kinds_ok {n} X1 fl"
  proof (cases b)
    case True
    have nT: "n \<in> set (X (c, True))" using b True by simp
    have s1': "on_list (\<not> True) slab_list_add ?ca ?a (on_list True slab_list_remove ?ca ?a s) = s1"
      using full True by (simp add: s1_def)
    note mv = slab_move [OF r c nT, unfolded s1']
    have "kinds_ok {n} (move_page c True n X) fl"
      by (rule kinds_move [OF l c nT kinds_mono [OF k]]) simp
    with mv(1,3,4,5) True move_page_mem(1) [OF l c nT] show ?thesis
      by (simp add: X1_def)
  next
    case False
    with full r b kinds_mono [OF k, of "{n}"] show ?thesis by (simp add: s1_def X1_def)
  qed
  have p1: "page_rel (kmem s1) ?ca n c (fl n)"
  proof -
    have "cache_at s1 c = ?ca" using s1 slab_updD(1) by metis
    with s1 c n show ?thesis unfolding slab_rel_def pages_rel_def by metis
  qed
  define m1 where "m1 = st64 (kmem s1) ?q (slab_free_list (kmem s1) ?a)"
  define m2 where "m2 = set_slab_free_list m1 ?a ?q"
  define m3 where "m3 = set_free_count m2 ?a (free_count m2 ?a + 1)"
  note put = page_rel_put [OF p1 c n4 j, folded m1_def, folded m2_def, folded m3_def]
  have eq: "slab_give ?q s = s1\<lparr>kmem := m3\<rparr>"
    unfolding slab_give_def mask Let_def pc m3_def m2_def m1_def s1_def on_list_def by simp
  let ?s2 = "s1\<lparr>kmem := m3\<rparr>"
  have n1: "n \<in> cpages X1 c" using s1 by (simp add: cpages_def)
  have ca1: "cache_at s1 c = ?ca" using s1 slab_updD(1) by metis
  have "slab_rel s1 X1 fl" using s1 by blast
  from slab_page_update [OF this c n1 put(2,3,4)] put(1) ca1
  have "slab_rel ?s2 X1 (fl(n := j # fl n))" by simp
  moreover have "kinds_ok {n} X1 fl" using s1 by blast
  then have "kinds_ok {n} X1 (fl(n := j # fl n))" by (auto simp: kinds_ok_def)
  moreover have "m3 e = kmem s e"
    if e: "\<forall>k \<in> slab_pages X. \<forall>x < 40. e \<noteq> page_addr k + x" "\<forall>x < 8. e \<noteq> ?q + of_nat x" for e
  proof -
    have "m3 e = m1 e" using put(7) e(1) nS unfolding frame_upto_def by blast
    also have "\<dots> = kmem s1 e" unfolding m1_def by (rule st64_other) (use e(2) in blast)
    also have "\<dots> = kmem s e" using s1 e(1) unfolding frame_upto_def by blast
    finally show ?thesis .
  qed
  moreover have "slab_upd s ?s2" using s1 by (simp add: slab_upd_kmem)
  ultimately show ?thesis using s1 unfolding eq by (intro exI [of _ X1]) simp
qed

section \<open>The heap with its slabs\<close>

definition slab_inv :: "'a slabs_scheme \<Rightarrow> free_lists \<Rightarrow> block set \<Rightarrow> slab_lists \<Rightarrow> (nat \<Rightarrow> nat list) \<Rightarrow> bool" where
  "slab_inv s L A X fl \<longleftrightarrow> heap_rel s L A \<and> slab_rel s X fl \<and> kinds_ok {} X fl \<and>
     (\<forall>n \<in> slab_pages X. (n, 0) \<in> A) \<and>
     (\<forall>b \<in> A. is_slab (metadata s (int (fst b))) \<longleftrightarrow> fst b \<in> slab_pages X)"

text \<open>The bytes an operation may write: slab headers, link words of free pages, one object.\<close>

definition quiet :: "slab_lists \<Rightarrow> block set \<Rightarrow> u64 set \<Rightarrow> mem \<Rightarrow> mem \<Rightarrow> bool" where
  "quiet X A W m m' \<longleftrightarrow> (\<forall>a. (\<forall>k \<in> slab_pages X. \<forall>x < 40. a \<noteq> page_addr k + x) \<longrightarrow>
     (\<forall>k \<in> free_pages A. \<forall>x < 0x1000. a \<noteq> page_addr k + x) \<longrightarrow> a \<notin> W \<longrightarrow> m' a = m a)"

lemma quiet_header: "header_frame (slab_pages X) m m' \<Longrightarrow> quiet X A W m m'"
  unfolding frame_upto_def quiet_def by blast

lemma quiet_page: "page_frame (free_pages A) m m' \<Longrightarrow> quiet X A W m m'"
  unfolding frame_upto_def quiet_def by blast

lemma quiet_trans: "quiet X A W m1 m2 \<Longrightarrow> quiet X A W m2 m3 \<Longrightarrow> quiet X A W m1 m3"
  unfolding quiet_def by metis

lemma only_headers_frame: "only_headers K s s' \<Longrightarrow> page_frame K (kmem s) (kmem s')"
proof -
  have "x < 16 \<Longrightarrow> x < 0x1000" for x :: u64 by (simp add: word_less_nat_alt)
  then show "only_headers K s s' \<Longrightarrow> page_frame K (kmem s) (kmem s')"
    unfolding only_headers_def frame_upto_def by blast
qed

lemma only_headers_slabs:
  assumes "only_headers K s s'"
  shows "kernel_caches s' = kernel_caches s" "kernel_caches_addr s' = kernel_caches_addr s"
proof -
  have eq: "s' = s\<lparr>kmem := kmem s', free_areas := free_areas s', metadata := metadata s'\<rparr>"
    using assms unfolding only_headers_def by blast
  show "kernel_caches s' = kernel_caches s" "kernel_caches_addr s' = kernel_caches_addr s"
    using arg_cong [OF eq, of kernel_caches] arg_cong [OF eq, of kernel_caches_addr] by simp_all
qed

lemma free_pages_less: "free_pages A \<subseteq> {..<TOTAL_PAGES}"
  by (auto simp: free_pages_def)

lemma heap_rel_slab_upd:
  assumes r: "heap_rel s L A" and u: "slab_upd s s'" and f: "page_frame K (kmem s) (kmem s')" "K \<subseteq> {..<TOTAL_PAGES}"
    "K \<inter> free_pages A = {}"
  shows "heap_rel s' L A"
proof (rule heap_rel_client [OF r slab_updD(2) [OF u]])
  show "is_free (metadata s' k) = is_free (metadata s k) \<and> order (metadata s' k) = order (metadata s k)" for k
    by (simp add: slab_updD(3) [OF u])
  fix k and x :: u64
  assume k: "k \<in> free_pages A" "x < 0x1000"
  then have "k < TOTAL_PAGES" "k \<notin> K" using f(3) by (auto simp: free_pages_def)
  then show "kmem s' (page_addr k + x) = kmem s (page_addr k + x)"
    using page_frame_byte [OF f(1,2)] k(2) by blast
qed

lemma slab_inv_disjoint: "(\<forall>n \<in> slab_pages X. (n, 0) \<in> A) \<Longrightarrow> slab_pages X \<inter> free_pages A = {}"
proof -
  assume a: "\<forall>n \<in> slab_pages X. (n, 0) \<in> A"
  have "n \<notin> free_pages A" if "n \<in> slab_pages X" for n
    using a that start_in_pages [of n 0] unfolding free_pages_def by blast
  then show ?thesis by blast
qed

lemma slab_free_inv:
  assumes inv: "slab_inv s L A X fl" and c: "c < NUM_CACHES" and n: "n \<in> cpages X c"
    and j: "j < nslots c" "j \<notin> set (fl n)"
  defines "fl' \<equiv> fl(n := j # fl n)" and "s' \<equiv> slab_free (slot_addr n c j) s"
  shows "\<exists>L' A' X'. slab_inv s' L' A' X' fl' \<and>
    (if length (fl' n) = nslots c
     then A' = A - {(n, 0)} \<and> (\<forall>d < NUM_CACHES. cpages X' d = cpages X d - {n})
     else A' = A \<and> (\<forall>d < NUM_CACHES. cpages X' d = cpages X d)) \<and>
    quiet X A' {slot_addr n c j + of_nat x | x. x < 8} (kmem s) (kmem s')"
proof -
  let ?q = "slot_addr n c j" and ?a = "page_addr n" and ?W = "{slot_addr n c j + of_nat x | x. x < 8}"
  have hr: "heap_rel s L A" and r: "slab_rel s X fl" and k: "kinds_ok {} X fl"
    and pA: "\<forall>n \<in> slab_pages X. (n, 0) \<in> A" and sl: "\<forall>b \<in> A. is_slab (metadata s (int (fst b))) \<longleftrightarrow> fst b \<in> slab_pages X"
    using inv unfolding slab_inv_def by blast+
  have l: "links_rel s X" using r by (simp add: slab_rel_def)
  have n4: "n < TOTAL_PAGES" by (rule cpages_less [OF l c n])
  have nS: "n \<in> slab_pages X" using c n by (auto simp: slab_pages_cpages)
  have mask: "?q AND PAGE_MASK_4KB = ?a" by (rule slot_addr_mask [OF c j(1) n4])
  define s2 where "s2 = slab_give ?q s"
  obtain X2 where r2: "slab_rel s2 X2 fl'" and k2: "kinds_ok {n} X2 fl'" and n2: "n \<in> set (X2 (c, False))"
    and cp2: "\<forall>d < NUM_CACHES. cpages X2 d = cpages X d"
    and fr2: "\<forall>a. (\<forall>k \<in> slab_pages X. \<forall>x < 40. a \<noteq> page_addr k + x) \<longrightarrow> (\<forall>x < 8. a \<noteq> ?q + of_nat x) \<longrightarrow> kmem s2 a = kmem s a"
    and u2: "slab_upd s s2"
    using slab_give_rel [OF r k c n j] unfolding s2_def fl'_def by blast
  have sp2: "slab_pages X2 = slab_pages X" using cp2 by (simp add: slab_pages_cpages)
  have l2: "links_rel s2 X2" using r2 by (simp add: slab_rel_def)
  have p2: "page_rel (kmem s2) (cache_at s c) n c (fl' n)"
    using r2 n2 c slab_updD(1) [OF u2] by (simp add: slab_rel_def pages_rel_def cpages_def)
  have p0: "page_rel (kmem s) (cache_at s c) n c (fl n)"
    using r c n by (simp add: slab_rel_def pages_rel_def)
  have pc: "parent_cache (kmem s) ?a = cache_at s c" using p0 by (simp add: page_rel_def)
  have full: "free_count (kmem s2) ?a = total_count (kmem s2) ?a \<longleftrightarrow> length (fl' n) = nslots c"
    using p2 nslots_word [OF c page_rel_count [OF p2], of "nslots c"] by (auto simp: page_rel_def)
  have q0: "?q \<noteq> 0" by (rule slot_addr_nonnull [OF c j(1) n4])
  have quiet2: "quiet X A' ?W (kmem s) (kmem s2)" for A'
    using fr2 unfolding quiet_def by blast
  have dis: "slab_pages X \<inter> free_pages A = {}" by (rule slab_inv_disjoint [OF pA])
  have spl: "slab_pages X \<subseteq> {..<TOTAL_PAGES}" using slab_pages_less [OF links_fam [OF l]] by blast
  have hr2: "heap_rel s2 L A"
  proof (rule heap_rel_slab_upd [OF hr u2 _ spl dis])
    have "?q + of_nat x \<noteq> a" if "\<forall>k \<in> slab_pages X. \<forall>x < 0x1000. a \<noteq> page_addr k + x" "x < 8" for a x
    proof -
      have "of_nat (slot_off c j) + (of_nat x :: u64) < 0x1000"
        using slot_off_less [OF c j(1)] unat_slot_off [OF c j(1)] that(2)
        by (simp add: word_less_nat_alt unat_word_ariths unat_of_nat)
      then have "a \<noteq> page_addr n + (of_nat (slot_off c j) + of_nat x)" using that(1) nS by blast
      then show ?thesis by (metis slot_addr_def add.assoc)
    qed
    moreover have "x < 40 \<Longrightarrow> x < 0x1000" for x :: u64 by (simp add: word_less_nat_alt)
    ultimately show "page_frame (slab_pages X) (kmem s) (kmem s2)"
      using fr2 unfolding frame_upto_def by metis
  qed
  have sl2: "\<forall>b \<in> A. is_slab (metadata s2 (int (fst b))) \<longleftrightarrow> fst b \<in> slab_pages X"
    using sl by (simp add: slab_updD(3) [OF u2])
  show ?thesis
  proof (cases "length (fl' n) = nslots c")
    case False
    have s': "s' = s2"
      unfolding s'_def slab_free_eq mask pc Let_def s2_def [symmetric] using q0 False full by simp
    have len: "length (fl' n) < nslots c" using False page_rel_count [OF p2] by simp
    have "kinds_ok {} X2 (fl'(n := fl' n))"
      by (rule kinds_settle [OF l2 c n2 k2 _ len]) (simp add: fl'_def)
    then have "slab_inv s2 L A X2 fl'" using hr2 r2 pA sl2 by (simp add: slab_inv_def sp2)
    with quiet2 cp2 False show ?thesis unfolding s' by auto
  next
    case True
    define X3 where "X3 = X2((c, False) := remove1 n (X2 (c, False)))"
    define s3 where "s3 = on_list False slab_list_remove (cache_at s2 c) ?a s2"
    note ul = slab_unlist [OF r2 c n2, folded s3_def X3_def]
    let ?s4 = "s3\<lparr>metadata := (metadata s3)(int n := (metadata s3 (int n))\<lparr>is_slab := False\<rparr>)\<rparr>"
    let ?A = "A - {(n, 0)}"
    have s': "s' = buddy_free ?a ?s4"
      unfolding s'_def slab_free_eq mask pc Let_def s2_def [symmetric]
      using q0 True full slot_addr_index [OF c j(1) n4] slab_updD(1) [OF u2]
      by (simp add: s3_def on_list_def)
    have cp3: "\<forall>d < NUM_CACHES. cpages X3 d = cpages X d - {n}" using ul(4) cp2 by simp
    then have sp3: "slab_pages X3 = slab_pages X - {n}" by (auto simp: slab_pages_cpages)
    have fr3: "header_frame (slab_pages X) (kmem s2) (kmem s3)" using ul(2) by (simp add: sp2)
    have hr3: "heap_rel s3 L A"
      by (rule heap_rel_slab_upd [OF hr2 ul(5) header_page_frame [OF fr3] spl dis])
    have hr4: "heap_rel ?s4 L A" by (rule heap_rel_client [OF hr3]) simp_all
    have nA: "(n, 0) \<in> A" using pA nS by blast
    note fr = buddy_free_sim [OF hr4 nA]
    have "slab_pages X3 \<inter> free_pages ?A = {}"
      by (rule slab_inv_disjoint) (use pA sp3 in auto)
    then have dis3: "free_pages ?A \<inter> slab_pages X3 = {}" by blast
    have r4: "slab_rel ?s4 X3 fl'"
      by (rule slab_rel_frame [where K = "{}", OF ul(1)]) simp_all
    have r': "slab_rel s' X3 fl'"
      unfolding s' by (rule slab_rel_frame [OF r4 only_headers_frame [OF fr(2)] free_pages_less dis3])
        (simp_all add: only_headers_slabs [OF fr(2)])
    have k3: "kinds_ok {} X3 fl'"
      unfolding kinds_ok_def
    proof (intro allI impI ballI)
      fix d b k assume d: "d < NUM_CACHES" "k \<in> set (X3 (d, b)) - {}"
      then have "k \<in> slab_pages X3" using slab_pages_mem [of "(d, b)" k X3] by simp
      then have "k \<noteq> n" using sp3 by simp
      moreover have "k \<in> set (X2 (d, b))"
        using d(2) set_remove1_subset [of n "X2 (c, False)"] by (auto simp: X3_def split: if_splits)
      ultimately show "(b \<longleftrightarrow> fl' k = []) \<and> length (fl' k) < nslots d"
        using k2 d(1) unfolding kinds_ok_def by blast
    qed
    have sl': "is_slab (metadata s' (int (fst b))) \<longleftrightarrow> fst b \<in> slab_pages X3" if b: "b \<in> ?A" for b
    proof -
      have ne: "fst b \<notin> free_pages ?A" using b start_in_pages [of "fst b" "snd b"] by (auto simp: free_pages_def)
      then have "int (fst b) \<notin> int ` free_pages ?A" by auto
      then have "metadata s' (int (fst b)) = metadata ?s4 (int (fst b))"
        using fr(2) unfolding only_headers_def s' by blast
      moreover have "fst b \<noteq> n"
      proof
        assume "fst b = n"
        then have "b = (n, 0)"
          using heap_rel_blocks(2) [OF hr, of b "(n, 0)"] nA b start_in_pages [of n 0] start_in_pages [of n "snd b"]
          by (metis Diff_iff disjoint_iff prod.collapse)
        with b show False by simp
      qed
      moreover have "metadata s3 = metadata s" using slab_updD(3) [OF ul(5)] slab_updD(3) [OF u2] by simp
      ultimately show ?thesis using sl b sp3 by simp
    qed
    have "slab_inv s' (abs_free n 0 L) ?A X3 fl'"
      using fr(1) r' k3 pA sp3 sl' by (simp add: slab_inv_def s')
    moreover have "quiet X ?A ?W (kmem s) (kmem s')"
    proof (rule quiet_trans [OF quiet2 quiet_trans [OF quiet_header [OF fr3]]])
      show "quiet X ?A ?W (kmem s3) (kmem s')"
        unfolding s' using quiet_page [OF only_headers_frame [OF fr(2)]] by simp
    qed
    ultimately show ?thesis using True cp3 by auto
  qed
qed

lemma set_parent_other: "page_aligned a \<Longrightarrow> parent_cache (set_slab_free_list m a v) a = parent_cache m a"
  "page_aligned a \<Longrightarrow> parent_cache (set_free_count m a w) a = parent_cache m a"
  "page_aligned a \<Longrightarrow> slab_free_list (set_free_count m a w) a = slab_free_list m a"
  by (simp_all add: slab_fields frame_simps)

lemma slab_create_page:
  assumes c: "c < NUM_CACHES" and n: "n < TOTAL_PAGES"
  defines "a \<equiv> page_addr n"
  shows "\<exists>m'. (do { m4 \<leftarrow> slab_thread a (of_nat (slot_size c)) (a + PAGE_SIZE_4KB) ((a + 40 + 7) AND NOT 7)
        (set_free_count (set_slab_free_list (set_parent_cache m a cache) a ((a + 40 + 7) AND NOT 7)) a 0);
      Some (set_total_count m4 a (free_count m4 a)) }) = Some m' \<and>
    page_rel m' cache n c [0..<nslots c] \<and> page_frame {n} m m'"
proof -
  have pa: "page_aligned a" using n by (simp add: a_def)
  have first: "(a + 40 + 7) AND NOT 7 = slot_addr n c 0"
    using first_obj_eq [OF pa] by (simp add: a_def slot_addr_def slot_off_def)
  define m3 where "m3 = set_free_count (set_slab_free_list (set_parent_cache m a cache) a (slot_addr n c 0)) a 0"
  obtain m4 where m4: "slab_thread a (of_nat (slot_size c)) (a + PAGE_SIZE_4KB) (slot_addr n c 0) m3 = Some m4"
    and th: "threaded n c 0 m3 m4"
    using slab_thread_result [OF c n, of 0 m3] unfolding a_def by auto
  let ?m' = "set_total_count m4 a (free_count m4 a)"
  have h3: "free_count m3 a = 0" "slab_free_list m3 a = slot_addr n c 0" "parent_cache m3 a = cache"
    using pa by (simp_all add: m3_def set_parent_cache_def slab_fields frame_simps)
  have h4: "free_count m4 a = of_nat (nslots c)" "slab_free_list m4 a = slot_addr n c 0" "parent_cache m4 a = cache"
    using th h3 by (simp_all add: threaded_def a_def)
  have h': "free_count ?m' a = of_nat (nslots c)" "slab_free_list ?m' a = slot_addr n c 0"
    "parent_cache ?m' a = cache" "total_count ?m' a = of_nat (nslots c)"
    using h4 pa by (simp_all add: set_total_count_def slab_fields frame_simps)
  have slots: "ld64 ?m' (slot_addr n c k) = ld64 m4 (slot_addr n c k)" if "k < nslots c" for k
    unfolding set_total_count_def by (rule st_header_slot(2) [OF c that n pa]) simp
  have "fchain m4 (slot_addr n c 0) (map (slot_addr n c) [0..<nslots c])"
    using fchain_threaded [OF th c n, of 0] nslots_pos [OF c] by simp
  moreover have "fchain m4 h (map (slot_addr n c) [0..<nslots c]) = fchain ?m' h (map (slot_addr n c) [0..<nslots c])" for h
    by (rule fchain_cong) (use slots in auto)
  ultimately have rel: "page_rel ?m' cache n c [0..<nslots c]"
    using h' by (simp add: page_rel_def flip: a_def) auto
  have st: "page_frame {n} m (set_parent_cache m a v)" "page_frame {n} m (set_slab_free_list m a v)"
    "page_frame {n} m (set_free_count m a w)" for m v w
    unfolding set_free_count_def set_slab_free_list_def set_parent_cache_def a_def
    by (simp_all add: page_frame_st page_frame_st [where x = 0, simplified])
  have "page_frame {n} m m3"
    unfolding m3_def by (rule page_frame_trans [OF page_frame_trans [OF st(1) st(2)] st(3)])
  moreover have "page_frame {n} m4 ?m'"
    unfolding set_total_count_def a_def by (rule page_frame_st) simp
  ultimately have "page_frame {n} m ?m'" using th unfolding threaded_def by (blast intro: page_frame_trans)
  with rel m4 first show ?thesis by (simp add: m3_def)
qed

lemma slab_inv_create:
  assumes inv: "slab_inv s L A X fl" and c: "c < NUM_CACHES" and al: "abs_alloc 0 L = Some (n, L')"
  shows "\<exists>s1. slab_create (cache_at s c) s = Some (page_addr n, s1) \<and> n < TOTAL_PAGES \<and> n \<in> free_pages A \<and>
    heap_rel s1 L' (insert (n, 0) A) \<and> slab_rel s1 X fl \<and> page_rel (kmem s1) (cache_at s c) n c [0..<nslots c] \<and>
    cache_at s1 = cache_at s \<and>
    is_slab (metadata s1 (int n)) \<and> (\<forall>k. k \<notin> int ` free_pages A \<longrightarrow> metadata s1 k = metadata s k) \<and>
    page_frame (free_pages A) (kmem s) (kmem s1)"
proof -
  have hr: "heap_rel s L A" and r: "slab_rel s X fl"
    and pA: "\<forall>n \<in> slab_pages X. (n, 0) \<in> A"
    using inv unfolding slab_inv_def by blast+
  obtain s' where s': "buddy_alloc 0 s = (page_addr n, s')" "heap_rel s' L' (insert (n, 0) A)"
    "only_headers (free_pages A) s s'" "n < TOTAL_PAGES"
    using buddy_alloc_sim [OF hr al] by blast
  let ?a = "page_addr n"
  have nA: "n \<in> free_pages A"
    using abs_alloc_complete(2) [OF _ al] hr start_in_pages [of n 0] unfolding heap_rel_def by blast
  note sl = only_headers_slabs [OF s'(3)]
  have ca: "cache_at s' = cache_at s" using sl by (simp add: cache_at_def fun_eq_iff)
  have sz: "obj_size (kernel_caches s' (cache_at s c)) = of_nat (slot_size c)"
    using r c by (simp add: slab_rel_def caches_ok_def sl)
  have usz: "ucast (of_nat (slot_size c) :: u32) = (of_nat (slot_size c) :: u64)"
    using slot_size_range [OF c] by (simp add: unsigned_of_nat take_bit_nat_eq_self)
  obtain m' where m': "(do { m4 \<leftarrow> slab_thread ?a (of_nat (slot_size c)) (?a + PAGE_SIZE_4KB) ((?a + 40 + 7) AND NOT 7)
        (set_free_count (set_slab_free_list (set_parent_cache (kmem s') ?a (cache_at s c)) ?a ((?a + 40 + 7) AND NOT 7)) ?a 0);
      Some (set_total_count m4 ?a (free_count m4 ?a)) }) = Some m'"
    and rel: "page_rel m' (cache_at s c) n c [0..<nslots c]" and fr: "page_frame {n} (kmem s') m'"
    using slab_create_page [OF c s'(4)] by blast
  define s2 where "s2 = s'\<lparr>metadata := (metadata s')(int n := (metadata s' (int n))\<lparr>is_slab := True\<rparr>)\<rparr>"
  let ?s1 = "s2\<lparr>kmem := m'\<rparr>"
  have eq: "slab_create (cache_at s c) s = Some (?a, ?s1)"
    using m' s'(1,4) sz usz by (auto simp: slab_create_def s2_def Let_def split: option.splits bind_splits)
  have hr2: "heap_rel s2 L' (insert (n, 0) A)"
    by (rule heap_rel_client [OF s'(2)]) (simp_all add: s2_def)
  have nn: "{n} \<inter> free_pages (insert (n, 0) A) = {}" using start_in_pages [of n 0] by (auto simp: free_pages_def)
  have "slab_upd s2 ?s1" by (rule slab_upd_kmem [OF slab_upd_refl])
  moreover have "page_frame {n} (kmem s2) (kmem ?s1)" using fr by (simp add: s2_def)
  ultimately have hr1: "heap_rel ?s1 L' (insert (n, 0) A)"
    using s'(4) nn by (intro heap_rel_slab_upd [OF hr2, where K = "{n}"]) auto
  have dis: "free_pages A \<inter> slab_pages X = {}" using slab_inv_disjoint [OF pA] by blast
  have fr1: "page_frame (free_pages A) (kmem s) (kmem ?s1)"
    using only_headers_frame [OF s'(3)] page_frame_mono [OF fr, of "free_pages A"] nA
    by (auto intro: page_frame_trans)
  have "slab_rel ?s1 X fl"
    by (rule slab_rel_frame [OF r fr1 free_pages_less dis]) (simp_all add: s2_def sl)
  moreover have "metadata ?s1 k = metadata s k" if "k \<notin> int ` free_pages A" for k
  proof -
    have "k \<noteq> int n" using that nA by blast
    then show ?thesis using s'(3) that unfolding only_headers_def by (simp add: s2_def)
  qed
  moreover have "is_slab (metadata ?s1 (int n))" "cache_at ?s1 = cache_at s"
    using sl by (simp_all add: s2_def cache_at_def fun_eq_iff)
  ultimately show ?thesis using eq s'(4) nA hr1 rel fr1 by (intro exI [of _ ?s1]) simp
qed

lemma header_lt: "(x :: u64) < 40 \<Longrightarrow> x < 0x1000"
  by (simp add: word_less_nat_alt)

lemma slab_inv_take:
  assumes hr: "heap_rel s L A" and r: "slab_rel s X fl" and k: "kinds_ok {n} X fl"
    and pA: "\<forall>n \<in> slab_pages X. (n, 0) \<in> A"
    and sl: "\<forall>b \<in> A. is_slab (metadata s (int (fst b))) \<longleftrightarrow> fst b \<in> slab_pages X"
    and c: "c < NUM_CACHES" and X: "X (c, False) = n # ns" and fl: "fl n = j # js"
  shows "\<exists>s' X'. slab_take (cache_at s c) s = (slot_addr n c j, s') \<and> slab_inv s' L A X' (fl(n := js)) \<and>
    (\<forall>d < NUM_CACHES. cpages X' d = cpages X d) \<and> header_frame (slab_pages X) (kmem s) (kmem s')"
proof -
  obtain s' X' where s': "slab_take (cache_at s c) s = (slot_addr n c j, s')" "slab_rel s' X' (fl(n := js))"
    "kinds_ok {} X' (fl(n := js))" "\<forall>d < NUM_CACHES. cpages X' d = cpages X d"
    "header_frame (slab_pages X) (kmem s) (kmem s')" "slab_upd s s'"
    using slab_take_rel [OF r c X fl k] by blast
  have l: "links_rel s X" using r by (simp add: slab_rel_def)
  have spl: "slab_pages X \<subseteq> {..<TOTAL_PAGES}" using slab_pages_less [OF links_fam [OF l]] by blast
  have "slab_pages X' = slab_pages X" using s'(4) by (simp add: slab_pages_cpages)
  moreover have "heap_rel s' L A"
    by (rule heap_rel_slab_upd [OF hr s'(6) header_page_frame [OF s'(5)] spl slab_inv_disjoint [OF pA]])
  ultimately have "slab_inv s' L A X' (fl(n := js))"
    using s' pA sl by (simp add: slab_inv_def slab_updD(3) [OF s'(6)])
  with s' show ?thesis by blast
qed

text \<open>What an allocation from cache \<^verbatim>\<open>c\<close> does to the abstract slabs: take a slot of an old or of a fresh page.\<close>

definition slab_grant :: "nat \<Rightarrow> nat \<Rightarrow> nat \<Rightarrow> block set \<Rightarrow> slab_lists \<Rightarrow> (nat \<Rightarrow> nat list) \<Rightarrow>
    block set \<Rightarrow> slab_lists \<Rightarrow> (nat \<Rightarrow> nat list) \<Rightarrow> bool" where
  "slab_grant c n j A X fl A' X' fl' \<longleftrightarrow>
     (A' = A \<and> n \<in> cpages X c \<and> fl n = j # fl' n \<and> fl' = fl(n := fl' n) \<and> (\<forall>d < NUM_CACHES. cpages X' d = cpages X d)) \<or>
     (A' = insert (n, 0) A \<and> n \<in> free_pages A \<and> j = 0 \<and> fl' = fl(n := [1..<nslots c]) \<and>
       (\<forall>d < NUM_CACHES. cpages X' d = (if d = c then insert n (cpages X d) else cpages X d)))"

lemma slab_alloc_old:
  assumes inv: "slab_inv s L A X fl" and c: "c < NUM_CACHES" and X: "X (c, False) = n # ns"
  shows "\<exists>j s' X' fl'. slab_alloc (cache_at s c) s = Some (slot_addr n c j, s') \<and> slab_inv s' L A X' fl' \<and>
    slab_grant c n j A X fl A X' fl' \<and> quiet X A {} (kmem s) (kmem s')"
proof -
  have r: "slab_rel s X fl" and hr: "heap_rel s L A" and k: "kinds_ok {} X fl"
    and pA: "\<forall>n \<in> slab_pages X. (n, 0) \<in> A" and sl: "\<forall>b \<in> A. is_slab (metadata s (int (fst b))) \<longleftrightarrow> fst b \<in> slab_pages X"
    using inv unfolding slab_inv_def by blast+
  have l: "links_rel s X" using r by (simp add: slab_rel_def)
  have "n \<in> set (X (c, False)) - {}" using X by simp
  then have "fl n \<noteq> []" using k c unfolding kinds_ok_def by blast
  then obtain j js where fl: "fl n = j # js" by (cases "fl n") auto
  obtain s' X' where s': "slab_take (cache_at s c) s = (slot_addr n c j, s')" "slab_inv s' L A X' (fl(n := js))"
    "\<forall>d < NUM_CACHES. cpages X' d = cpages X d" "header_frame (slab_pages X) (kmem s) (kmem s')"
    using slab_inv_take [OF hr r kinds_mono [OF k] pA sl c X fl] by blast
  have ca: "cache_at s c \<noteq> 0" using r c by (simp add: slab_rel_def caches_ok_def)
  have head: "slabs_partial (kernel_caches s (cache_at s c)) \<noteq> 0"
    using links_headD(2) [OF l, of "(c, False)"] X c by (simp add: lhead_def)
  have "n \<in> cpages X c" using X by (simp add: cpages_def)
  then have "slab_grant c n j A X fl A X' (fl(n := js))" using fl s'(3) by (simp add: slab_grant_def)
  with s' ca head quiet_header [OF s'(4)] show ?thesis
    by (intro exI [of _ j] exI [of _ s'] exI [of _ X'] exI [of _ "fl(n := js)"]) (simp add: slab_alloc_def)
qed

lemma slab_alloc_new:
  assumes inv: "slab_inv s L A X fl" and c: "c < NUM_CACHES" and X: "X (c, False) = []"
    and al: "abs_alloc 0 L = Some (n, L')"
  shows "\<exists>j s' A' X' fl'. slab_alloc (cache_at s c) s = Some (slot_addr n c j, s') \<and> slab_inv s' L' A' X' fl' \<and>
    slab_grant c n j A X fl A' X' fl' \<and> quiet X A {} (kmem s) (kmem s')"
proof -
  have r: "slab_rel s X fl" and hr: "heap_rel s L A" and k: "kinds_ok {} X fl"
    and pA: "\<forall>n \<in> slab_pages X. (n, 0) \<in> A" and sl: "\<forall>b \<in> A. is_slab (metadata s (int (fst b))) \<longleftrightarrow> fst b \<in> slab_pages X"
    using inv unfolding slab_inv_def by blast+
  have l: "links_rel s X" using r by (simp add: slab_rel_def)
  let ?q = "(c, False)" and ?A = "insert (n, 0) A" and ?fl1 = "fl(n := [0..<nslots c])"
  have q: "?q \<in> slab_ids" using c by simp
  have ca: "cache_at s c \<noteq> 0" using r c by (simp add: slab_rel_def caches_ok_def)
  have head: "slabs_partial (kernel_caches s (cache_at s c)) = 0"
    using links_headD(2) [OF l q] X by (simp add: lhead_def)
  obtain s1 where s1: "slab_create (cache_at s c) s = Some (page_addr n, s1)" "n < TOTAL_PAGES" "n \<in> free_pages A"
    "heap_rel s1 L' ?A" "slab_rel s1 X fl" "page_rel (kmem s1) (cache_at s c) n c [0..<nslots c]"
    "cache_at s1 = cache_at s" "is_slab (metadata s1 (int n))"
    "\<forall>k. k \<notin> int ` free_pages A \<longrightarrow> metadata s1 k = metadata s k" "page_frame (free_pages A) (kmem s) (kmem s1)"
    using slab_inv_create [OF inv c al] by blast
  have l1: "links_rel s1 X" and co1: "caches_ok s1" and p1: "pages_rel s1 X fl"
    using s1(5) by (simp_all add: slab_rel_def)
  have out: "n \<notin> slab_pages X" using slab_inv_disjoint [OF pA] s1(3) by blast
  define s2 where "s2 = on_list False slab_list_add (cache_at s1 c) (page_addr n) s1"
  let ?X2 = "X(?q := n # X ?q)"
  have u2: "slab_upd s1 s2" by (simp add: s2_def)
  have l2: "links_rel s2 ?X2" unfolding s2_def by (rule slab_add_links [OF l1 c s1(2) out])
  have st: "list_step (insert n (slab_pages X)) (kmem s1) (kmem s2)"
    unfolding s2_def by (rule slab_add_step [OF l1 c s1(2)])
  have co2: "caches_ok s2"
    unfolding s2_def by (rule on_list_caches_ok [where f = slab_list_add, OF slab_list_add_mem co1])
  have cp2: "cpages ?X2 d = (if d = c then insert n (cpages X d) else cpages X d)" for d
    by (auto simp: cpages_def)
  have sp2: "slab_pages ?X2 = insert n (slab_pages X)" using c by (auto simp: slab_pages_cpages cp2 split: if_splits)
  have p2: "pages_rel s2 ?X2 ?fl1"
    unfolding pages_rel_def slab_updD(1) [OF u2]
  proof (intro allI impI ballI)
    fix d k assume d: "d < NUM_CACHES" "k \<in> cpages ?X2 d"
    have k4: "k < TOTAL_PAGES" by (rule cpages_less [OF l2 d])
    show "page_rel (kmem s2) (cache_at s1 d) k d (?fl1 k)"
    proof (cases "k = n")
      case True
      have "n \<in> cpages ?X2 c" by (simp add: cp2)
      then have "d = c" using cpages_disjoint [OF l2 c d(1)] d(2) True by metis
      with True s1(6,7) st k4 c show ?thesis by (simp add: list_step_def)
    next
      case False
      then have "k \<in> cpages X d" using d(2) by (auto simp: cp2 split: if_splits)
      with p1 d(1) st k4 False show ?thesis by (simp add: list_step_def pages_rel_def)
    qed
  qed
  have r2: "slab_rel s2 ?X2 ?fl1" using l2 co2 p2 by (simp add: slab_rel_def)
  have pA2: "\<forall>k \<in> slab_pages ?X2. (k, 0) \<in> ?A" using pA by (simp add: sp2)
  have "slab_pages ?X2 \<subseteq> {..<TOTAL_PAGES}" using slab_pages_less [OF links_fam [OF l2]] by blast
  moreover have f12: "header_frame (slab_pages ?X2) (kmem s1) (kmem s2)" using st by (simp add: list_step_def sp2)
  ultimately have hr2: "heap_rel s2 L' ?A"
    by (intro heap_rel_slab_upd [OF s1(4) u2 header_page_frame [OF f12]] slab_inv_disjoint [OF pA2])
  have sl2: "\<forall>b \<in> ?A. is_slab (metadata s2 (int (fst b))) \<longleftrightarrow> fst b \<in> slab_pages ?X2"
  proof
    fix b assume b: "b \<in> ?A"
    show "is_slab (metadata s2 (int (fst b))) \<longleftrightarrow> fst b \<in> slab_pages ?X2"
    proof (cases "fst b = n")
      case True
      with s1(8) show ?thesis by (simp add: slab_updD(3) [OF u2] sp2)
    next
      case False
      with b have bA: "b \<in> A" by auto
      have "fst b \<notin> free_pages A" using bA start_in_pages [of "fst b" "snd b"] by (auto simp: free_pages_def)
      then have "int (fst b) \<notin> int ` free_pages A" by auto
      with s1(9) sl bA False show ?thesis by (simp add: slab_updD(3) [OF u2] sp2)
    qed
  qed
  have k2: "kinds_ok {n} ?X2 ?fl1"
    using k out unfolding kinds_ok_def by auto
  have fl1: "?fl1 n = 0 # [1..<nslots c]" using nslots_pos [OF c] by (simp add: upt_conv_Cons)
  have X2: "?X2 ?q = n # []" by (simp add: X)
  obtain s3 X3 where s3: "slab_take (cache_at s2 c) s2 = (slot_addr n c 0, s3)"
    "slab_inv s3 L' ?A X3 (?fl1(n := [1..<nslots c]))" "\<forall>d < NUM_CACHES. cpages X3 d = cpages ?X2 d"
    "header_frame (slab_pages ?X2) (kmem s2) (kmem s3)"
    using slab_inv_take [OF hr2 r2 k2 pA2 sl2 c X2 fl1] by blast
  have ca2: "cache_at s2 c = cache_at s c" using slab_updD(1) [OF u2] s1(7) by simp
  have n0: "page_addr n \<noteq> 0" using s1(2) by simp
  have eq: "slab_alloc (cache_at s c) s = Some (slot_addr n c 0, s3)"
  proof -
    have "slab_take (cache_at s c) s2 = (slot_addr n c 0, s3)" using s3(1) ca2 by simp
    moreover have "s2 = on_partial slab_list_add (cache_at s c) (page_addr n) s1"
      by (simp add: s2_def s1(7) on_list_def)
    ultimately show ?thesis using ca head s1(1) n0 by (simp add: slab_alloc_def)
  qed
  have "slab_grant c n 0 A X fl ?A X3 (?fl1(n := [1..<nslots c]))"
    using s1(3) s3(3) by (simp add: slab_grant_def cp2)
  moreover have "quiet X A {} (kmem s) (kmem s3)"
  proof -
    have "header_frame (slab_pages ?X2) (kmem s1) (kmem s3)" by (rule page_frame_trans [OF f12 s3(4)])
    then have "quiet X A {} (kmem s1) (kmem s3)"
      using s1(3) unfolding frame_upto_def quiet_def sp2 by (auto; metis header_lt)
    with quiet_page [OF s1(10)] show ?thesis by (rule quiet_trans)
  qed
  ultimately show ?thesis using eq s3(2) by blast
qed

section \<open>Initialisation\<close>

lemma init_caches_fields:
  "cache_at (init_caches i szs s) = cache_at s"
  "kmem (init_caches i szs s) = kmem s" "free_areas (init_caches i szs s) = free_areas s"
  "metadata (init_caches i szs s) = metadata s"
  by (induction i szs s rule: init_caches.induct) (simp_all add: cache_at_def fun_eq_iff)

lemma init_caches_get:
  "i + length szs \<le> NUM_CACHES \<Longrightarrow> c < NUM_CACHES \<Longrightarrow> kernel_caches (init_caches i szs s) (cache_at s c) =
    (if i \<le> c \<and> c < i + length szs then \<lparr>obj_size = szs ! (c - i), slabs_partial = 0, slabs_full = 0\<rparr>
     else kernel_caches s (cache_at s c))"
proof (induction i szs s rule: init_caches.induct)
  case (2 i sz szs s)
  let ?s1 = "s\<lparr>kernel_caches := (kernel_caches s)(cache_at s i := \<lparr>obj_size = sz, slabs_partial = 0, slabs_full = 0\<rparr>)\<rparr>"
  have ca: "cache_at ?s1 c = cache_at s c" by (simp add: cache_at_def)
  have "cache_at s c = cache_at s i \<longleftrightarrow> c = i" using "2.prems" cache_at_inj [of c i s] by simp
  then show ?case
    using "2.IH" "2.prems" unfolding ca by (auto simp: nth_Cons' Suc_le_eq)
qed auto

lemma cache_sizes_nth: "c < NUM_CACHES \<Longrightarrow> cache_sizes ! c = of_nat (slot_size c)"
proof -
  assume "c < NUM_CACHES"
  then have "c \<in> {0, 1, 2, 3, 4, 5, 6, 7}" by auto
  then show ?thesis by (auto simp: cache_sizes_def slot_size_def)
qed

lemma init_slab_inv:
  assumes hr: "heap_rel s L {}" and ca: "\<forall>c < NUM_CACHES. cache_at s c \<noteq> 0"
  shows "slab_inv (init_slab s) L {} (\<lambda>_. []) (\<lambda>_. [])"
proof -
  let ?s = "init_slab s"
  have get: "kernel_caches ?s (cache_at s c) = \<lparr>obj_size = of_nat (slot_size c), slabs_partial = 0, slabs_full = 0\<rparr>"
    if "c < NUM_CACHES" for c
  proof -
    have "length cache_sizes = 8" by (simp add: cache_sizes_def)
    with init_caches_get [of 0 cache_sizes c s] that show ?thesis
      by (simp add: init_slab_def cache_sizes_nth [OF that])
  qed
  have f: "cache_at ?s = cache_at s" "kmem ?s = kmem s" "free_areas ?s = free_areas s" "metadata ?s = metadata s"
    by (simp_all add: init_slab_def init_caches_fields)
  have "heap_rel ?s L {}" by (rule heap_rel_client [OF hr f(3)]) (simp_all add: f)
  moreover have "caches_ok ?s" using ca get by (simp add: caches_ok_def f)
  moreover have "links_rel ?s (\<lambda>_. [])"
    using get by (auto simp: links_rel_def pages_fam_def dlls_def lhead_def f)
  ultimately show ?thesis
    by (simp add: slab_inv_def slab_rel_def pages_rel_def cpages_def kinds_ok_def slab_pages_def)
qed

end
