(* ===== verification/Cstring.thy ===== *)
theory Cstring
  imports Memory
begin

text \<open>
  The memory routines of \<^verbatim>\<open>libc/string.c\<close>, byte by byte as their loops run, with what each
  computes: the filled range, the copied range when no source byte is overwritten before it is
  read, and the lexicographic comparison.
\<close>

section \<open>Filling\<close>

primrec memset_n :: "mem \<Rightarrow> u64 \<Rightarrow> u8 \<Rightarrow> nat \<Rightarrow> mem" where
  "memset_n m p v 0 = m"
| "memset_n m p v (Suc k) = memset_n (m(p := v)) (p + 1) v k"

definition memset :: "mem \<Rightarrow> u64 \<Rightarrow> u32 \<Rightarrow> u64 \<Rightarrow> mem" where
  "memset m dest char_val count = memset_n m dest (ucast char_val) (unat count)"

lemma ex_Suc_offset: "(\<exists>i < Suc k. a = p + of_nat i) \<longleftrightarrow> a = p \<or> (\<exists>i < k. a = (p + 1) + of_nat i)"
  for a p :: u64
proof
  assume "\<exists>i < Suc k. a = p + of_nat i"
  then obtain i where "i < Suc k" "a = p + of_nat i" by blast
  then show "a = p \<or> (\<exists>i < k. a = (p + 1) + of_nat i)"
    by (cases i) (auto simp: ac_simps)
next
  assume "a = p \<or> (\<exists>i < k. a = (p + 1) + of_nat i)"
  then show "\<exists>i < Suc k. a = p + of_nat i"
  proof (elim disjE exE conjE)
    assume "a = p"
    then show ?thesis by (intro exI [of _ 0]) simp
  next
    fix i assume "i < k" "a = (p + 1) + of_nat i"
    then show ?thesis by (intro exI [of _ "Suc i"]) (simp add: ac_simps)
  qed
qed

lemma memset_n_get: "memset_n m p v k a = (if \<exists>i < k. a = p + of_nat i then v else m a)"
proof (induction k arbitrary: m p)
  case (Suc k)
  then show ?case unfolding ex_Suc_offset memset_n.simps by auto
qed simp

lemma in_range_iff: "(\<exists>i < unat n. a = p + of_nat i) \<longleftrightarrow> a - p < n" for a p n :: u64
proof
  assume "\<exists>i < unat n. a = p + of_nat i"
  then obtain i where i: "i < unat n" "a = p + of_nat i" by blast
  then have "unat (of_nat i :: u64) = i"
    using unsigned_less [where 'a = nat and w = n] by (simp add: unat_of_nat)
  with i show "a - p < n" by (simp add: word_less_nat_alt)
next
  assume "a - p < n"
  then show "\<exists>i < unat n. a = p + of_nat i"
    by (intro exI [of _ "unat (a - p)"]) (simp add: word_less_nat_alt)
qed

lemma memset_get: "memset m d c n a = (if a - d < n then ucast c else m a)"
  by (simp add: memset_def memset_n_get in_range_iff)

section \<open>Copying\<close>

primrec memcpy_n :: "mem \<Rightarrow> u64 \<Rightarrow> u64 \<Rightarrow> nat \<Rightarrow> mem" where
  "memcpy_n m d s 0 = m"
| "memcpy_n m d s (Suc k) = memcpy_n (m(d := m s)) (d + 1) (s + 1) k"

definition memcpy :: "mem \<Rightarrow> u64 \<Rightarrow> u64 \<Rightarrow> u64 \<Rightarrow> mem" where
  "memcpy m dest src count = memcpy_n m dest src (unat count)"

lemma memcpy_n_get:
  assumes "\<And>i j. i < j \<Longrightarrow> j < k \<Longrightarrow> d + of_nat i \<noteq> s + of_nat j" "k \<le> 2 ^ 64"
  shows "i < k \<Longrightarrow> memcpy_n m d s k (d + of_nat i) = m (s + of_nat i)"
    "(\<And>i. i < k \<Longrightarrow> a \<noteq> d + of_nat i) \<Longrightarrow> memcpy_n m d s k a = m a"
  using assms
proof (induction k arbitrary: m d s i a)
  case (Suc k)
  {
    case 2
    have "a \<noteq> d" using "2.prems"(1) [of 0] by simp
    moreover have "a \<noteq> (d + 1) + of_nat i" if "i < k" for i
      using "2.prems"(1) [of "Suc i"] that by (simp add: ac_simps)
    moreover have "(d + 1) + of_nat i \<noteq> (s + 1) + of_nat j" if "i < j" "j < k" for i j
      using "2.prems"(2) [of "Suc i" "Suc j"] that by (simp add: ac_simps)
    ultimately show ?case using Suc.IH(2) "2.prems"(3) by simp
  next
    case 1
    have sub: "(d + 1) + of_nat i \<noteq> (s + 1) + of_nat j" if "i < j" "j < k" for i j
      using "1.prems"(2) [of "Suc i" "Suc j"] that by (simp add: ac_simps)
    have k: "k \<le> 2 ^ 64" using "1.prems"(3) by simp
    show ?case
    proof (cases i)
      case 0
      have "d \<noteq> (d + 1) + of_nat j" if "j < k" for j
      proof
        assume "d = (d + 1) + of_nat j"
        then have "(of_nat (Suc j) :: u64) = 0" by (simp add: add.assoc)
        then have "2 ^ 64 dvd Suc j" by (simp only: word_of_nat_eq_0_iff len_of_numeral_defs) simp
        with that "1.prems"(3) show False by (auto dest: dvd_imp_le)
      qed
      then have "memcpy_n (m(d := m s)) (d + 1) (s + 1) k d = (m(d := m s)) d"
        by (intro Suc.IH(2) sub k)
      with 0 show ?thesis by simp
    next
      case (Suc i')
      have ne: "s + 1 + of_nat i' \<noteq> d"
        using "1.prems"(2) [of 0 i] "1.prems"(1) Suc by (simp add: ac_simps)
      have "memcpy_n (m(d := m s)) (d + 1) (s + 1) k (d + 1 + of_nat i') = (m(d := m s)) (s + 1 + of_nat i')"
        by (rule Suc.IH(1)) (use "1.prems"(1) Suc sub k in auto)
      with ne Suc show ?thesis by (simp add: ac_simps)
    qed
  }
qed simp_all

section \<open>Comparing\<close>

function memcmp_from :: "mem \<Rightarrow> u64 \<Rightarrow> u64 \<Rightarrow> u64 \<Rightarrow> u64 \<Rightarrow> int" where
  "memcmp_from m p1 p2 sz i =
     (if i < sz then
        if m (p1 + i) \<noteq> m (p2 + i) then if m (p1 + i) < m (p2 + i) then - 1 else 1
        else memcmp_from m p1 p2 sz (i + 1)
      else 0)"
  by pat_completeness auto
termination
  by (relation "measure (\<lambda>(m, p1, p2, sz, i). unat (sz - i))") (auto simp: unat_diff_Suc_less)

declare memcmp_from.simps [simp del]

definition memcmp :: "mem \<Rightarrow> u64 \<Rightarrow> u64 \<Rightarrow> u64 \<Rightarrow> int" where
  "memcmp m s1 s2 sz = memcmp_from m s1 s2 sz 0"

lemma memcmp_from_cases:
  "(memcmp_from m p q n i = 0 \<and> (\<forall>j. i \<le> j \<and> j < n \<longrightarrow> m (p + j) = m (q + j))) \<or>
   (\<exists>j. i \<le> j \<and> j < n \<and> (\<forall>k. i \<le> k \<and> k < j \<longrightarrow> m (p + k) = m (q + k)) \<and> m (p + j) \<noteq> m (q + j) \<and>
     memcmp_from m p q n i = (if m (p + j) < m (q + j) then - 1 else 1))"
proof (induction m p q n i rule: memcmp_from.induct)
  case (1 m p q n i)
  show ?case
  proof (cases "i < n \<and> m (p + i) = m (q + i)")
    case True
    then have eq: "memcmp_from m p q n i = memcmp_from m p q n (i + 1)"
      by (subst memcmp_from.simps) simp
    have le: "i \<le> k \<longleftrightarrow> k = i \<or> i + 1 \<le> k" for k using True by (intro word_le_Suc_cases [of i n]) simp
    from 1 True show ?thesis
      unfolding eq le using True by (auto; metis)
  next
    case False
    then show ?thesis by (subst (1 2) memcmp_from.simps) (auto simp: order.strict_iff_not)
  qed
qed

end
