(* ===== verification/Digits.thy ===== *)
theory Digits
  imports Machine "HOL-Library.Monad_Syntax" "HOL-Library.Char_ord"
begin

text \<open>
  Number printing: the digit loop that \<^verbatim>\<open>serial_put_number\<close>, \<^verbatim>\<open>kputnum_direct\<close> and
  \<^verbatim>\<open>local_putnum\<close> share, against the positional notation of a number; and C strings in memory.
\<close>

section \<open>Positional notation\<close>

fun digits_of :: "nat \<Rightarrow> nat \<Rightarrow> nat list" where
  "digits_of b n = (if b < 2 \<or> n < b then [n] else digits_of b (n div b) @ [n mod b])"

declare digits_of.simps [simp del]

definition digits_value :: "nat \<Rightarrow> nat list \<Rightarrow> nat" where
  "digits_value b ds = foldl (\<lambda>a d. a * b + d) 0 ds"

lemma digits_value_of: "2 \<le> b \<Longrightarrow> digits_value b (digits_of b n) = n"
proof (induction b n rule: digits_of.induct)
  case (1 b n)
  then show ?case
    by (subst digits_of.simps) (auto simp: digits_value_def)
qed

lemma digits_of_range: "2 \<le> b \<Longrightarrow> d \<in> set (digits_of b n) \<Longrightarrow> d < b"
proof (induction b n rule: digits_of.induct)
  case (1 b n)
  then show ?case by (subst (asm) (2) digits_of.simps) (auto split: if_splits)
qed

lemma digits_of_nonempty: "digits_of b n \<noteq> []"
  by (subst digits_of.simps) simp

text \<open>No leading zero, and the number of digits.\<close>

lemma digits_of_hd: "2 \<le> b \<Longrightarrow> 0 < n \<Longrightarrow> hd (digits_of b n) \<noteq> 0"
proof (induction b n rule: digits_of.induct)
  case (1 b n)
  show ?case
  proof (cases "n < b")
    case True
    with "1.prems" show ?thesis by (subst digits_of.simps) simp
  next
    case False
    then have "0 < n div b" using "1.prems" by (simp add: div_greater_zero_iff)
    with 1 False have "hd (digits_of b (n div b)) \<noteq> 0" by simp
    with False "1.prems" show ?thesis
      by (subst digits_of.simps) (simp add: digits_of_nonempty)
  qed
qed

lemma digits_of_length: "2 \<le> b \<Longrightarrow> n < b ^ k \<Longrightarrow> 0 < k \<Longrightarrow> length (digits_of b n) \<le> k"
proof (induction b n arbitrary: k rule: digits_of.induct)
  case (1 b n)
  show ?case
  proof (cases "n < b")
    case True
    with "1.prems" show ?thesis by (subst digits_of.simps) simp
  next
    case False
    obtain j where k: "k = Suc j" using "1.prems"(3) by (cases k) auto
    have "j \<noteq> 0" using False "1.prems"(2) k by (cases j) auto
    moreover have "n div b < b ^ j"
      using "1.prems" k by (simp add: less_mult_imp_div_less mult.commute)
    ultimately have "length (digits_of b (n div b)) \<le> j" using 1 False by simp
    with False "1.prems"(1) k show ?thesis by (subst digits_of.simps) simp
  qed
qed

section \<open>The digit loop\<close>

text \<open>
  \<^verbatim>\<open>const char digits[] = "0123456789abcdef"\<close>, and the loop
  \<^verbatim>\<open>while (num > 0) { buf[i++] = digits[num % base]; num /= base; }\<close>. With base 1 it runs forever
  and with base 0 it divides by zero; both are the result None.
\<close>

definition digit_char :: "nat \<Rightarrow> char" where
  "digit_char d = ''0123456789abcdef'' ! d"

partial_function (option) num_loop :: "'a::len word \<Rightarrow> 'a word \<Rightarrow> char list \<Rightarrow> char list option" where
  "num_loop base num buf =
     (if num = 0 then Some buf
      else if base = 0 then None
      else num_loop base (num div base) (buf @ [digit_char (unat (num mod base))]))"

lemma num_loop_digits:
  assumes "2 \<le> unat base" "num \<noteq> 0"
  shows "num_loop base num buf = Some (buf @ map digit_char (rev (digits_of (unat base) (unat num))))"
  using assms(2)
proof (induction "unat num" arbitrary: num buf rule: less_induct)
  case less
  have b0: "base \<noteq> 0" using assms(1) by auto
  show ?case
  proof (cases "unat num < unat base")
    case True
    then have "num div base = 0" "unat (num mod base) = unat num"
      by (simp_all add: word_unat_eq_iff unat_div unat_mod)
    then have "num_loop base num buf = Some (buf @ [digit_char (unat num)])"
      using less.prems b0 by (simp add: num_loop.simps [of base num] num_loop.simps [of base 0])
    with True show ?thesis by (simp add: digits_of.simps [of "unat base"])
  next
    case False
    have lt: "unat (num div base) < unat num"
      using assms(1) less.prems by (simp add: unat_div unat_gt_0)
    have "0 < unat (num div base)" using False assms(1) by (simp add: unat_div div_greater_zero_iff)
    then have "num div base \<noteq> 0" by auto
    from less.hyps [OF lt this]
    have "num_loop base num buf = Some ((buf @ [digit_char (unat (num mod base))]) @
        map digit_char (rev (digits_of (unat base) (unat (num div base)))))"
      using less.prems b0 by (simp add: num_loop.simps [of base num])
    with False assms(1) show ?thesis
      by (simp add: digits_of.simps [of "unat base" "unat num"] unat_div unat_mod)
  qed
qed

definition show_number :: "nat \<Rightarrow> nat \<Rightarrow> string" where
  "show_number b n = map digit_char (digits_of b n)"

text \<open>Reading the printed digits back gives the number.\<close>

definition char_digit :: "char \<Rightarrow> nat" where
  "char_digit c = (if 48 \<le> (of_char c :: nat) \<and> (of_char c :: nat) \<le> 57 then of_char c - 48 else of_char c - 87)"

lemma char_digit_char: "d < 16 \<Longrightarrow> char_digit (digit_char d) = d"
proof -
  assume "d < 16"
  then have "d = 0 \<or> d = 1 \<or> d = 2 \<or> d = 3 \<or> d = 4 \<or> d = 5 \<or> d = 6 \<or> d = 7 \<or>
    d = 8 \<or> d = 9 \<or> d = 10 \<or> d = 11 \<or> d = 12 \<or> d = 13 \<or> d = 14 \<or> d = 15" by arith
  then show ?thesis by (elim disjE) (simp_all add: char_digit_def digit_char_def)
qed

lemma read_show_number:
  assumes "2 \<le> b" "b \<le> 16"
  shows "digits_value b (map char_digit (show_number b n)) = n"
proof -
  have "map char_digit (show_number b n) = digits_of b n"
    unfolding show_number_def map_map
    by (rule map_idI) (use digits_of_range [OF assms(1)] assms(2) char_digit_char in fastforce)
  with digits_value_of [OF assms(1)] show ?thesis by simp
qed

section \<open>Strings in memory\<close>

text \<open>The string \<^verbatim>\<open>s\<close> at address \<^verbatim>\<open>p\<close>, with its terminating zero byte.\<close>

fun cstr :: "(u64 \<Rightarrow> u8) \<Rightarrow> u64 \<Rightarrow> string \<Rightarrow> bool" where
  "cstr m p [] \<longleftrightarrow> m p = 0"
| "cstr m p (c # cs) \<longleftrightarrow> m p = of_char c \<and> m p \<noteq> 0 \<and> cstr m (p + 1) cs"

end
