(* ===== verification/Format.thy ===== *)
theory Format
  imports Digits
begin

text \<open>
  What a format string means: the text that the directives of \<^verbatim>\<open>serial_print\<close> and \<^verbatim>\<open>kprintf\<close>
  stand for, on the string itself and not on its bytes in memory. The two interpreters
  know the same directives and differ in how they write the numbers.
\<close>

text \<open>An argument is a word, or the address of a string with its contents.\<close>

datatype arg = Num u64 | Str u64 string

primrec arg_word :: "arg \<Rightarrow> u64" where
  "arg_word (Num v) = v"
| "arg_word (Str a t) = a"

record conv =
  conv_d :: "u64 \<Rightarrow> string"
  conv_x :: "u64 \<Rightarrow> string"
  conv_llx :: "u64 \<Rightarrow> string"
  conv_p :: "u64 \<Rightarrow> string"

text \<open>
  None: an argument is missing or is not a string, or the format ends in a lone \<^verbatim>\<open>%\<close>. Unknown
  directives are dropped.
\<close>

fun arg_text :: "arg \<Rightarrow> string option" where
  "arg_text (Str a t) = Some t"
| "arg_text (Num v) = None"

definition directive :: "conv \<Rightarrow> char \<Rightarrow> (arg \<Rightarrow> string option) option" where
  "directive cv d =
     (if d = CHR ''s'' then Some arg_text
      else if d = CHR ''d'' then Some (\<lambda>a. Some (conv_d cv (arg_word a)))
      else if d = CHR ''x'' then Some (\<lambda>a. Some (conv_x cv (arg_word a)))
      else if d = CHR ''p'' then Some (\<lambda>a. Some (conv_p cv (arg_word a)))
      else None)"

function render :: "conv \<Rightarrow> string \<Rightarrow> arg list \<Rightarrow> string option" where
  "render cv [] as = Some []"
| "render cv (c # cs) as =
     (if c \<noteq> CHR ''%'' then do { t \<leftarrow> render cv cs as; Some (c # t) }
      else case cs of
        [] \<Rightarrow> None
      | d # ds \<Rightarrow>
          (case directive cv d of
             Some f \<Rightarrow>
               (case as of
                  [] \<Rightarrow> None
                | a # as' \<Rightarrow> do { u \<leftarrow> f a; t \<leftarrow> render cv ds as'; Some (u @ t) })
           | None \<Rightarrow>
               if d = CHR ''l'' \<and> take 2 ds = ''lx'' then
                 (case as of
                    [] \<Rightarrow> None
                  | a # as' \<Rightarrow> do { t \<leftarrow> render cv (drop 2 ds) as'; Some (conv_llx cv (arg_word a) @ t) })
               else if d = CHR ''%'' then do { t \<leftarrow> render cv ds as; Some (CHR ''%'' # t) }
               else render cv ds as))"
  by pat_completeness auto
termination by (relation "measure (\<lambda>(cv, cs, as). length cs)") auto

declare render.simps(2) [simp del]

text \<open>
  The directives of a format that take an argument, each with the one it takes (the \<^verbatim>\<open>l\<close> of \<^verbatim>\<open>%llx\<close>): two
  ways to write the numbers that agree on these render the format alike.
\<close>

function directives :: "string \<Rightarrow> arg list \<Rightarrow> (char \<times> arg) list" where
  "directives [] as = []"
| "directives (c # cs) as =
     (if c \<noteq> CHR ''%'' then directives cs as
      else case cs of
        [] \<Rightarrow> []
      | d # ds \<Rightarrow>
          (if d = CHR ''s'' \<or> d = CHR ''d'' \<or> d = CHR ''x'' \<or> d = CHR ''p'' then
             (case as of [] \<Rightarrow> [] | a # as' \<Rightarrow> (d, a) # directives ds as')
           else if d = CHR ''l'' \<and> take 2 ds = ''lx'' then
             (case as of [] \<Rightarrow> [] | a # as' \<Rightarrow> (d, a) # directives (drop 2 ds) as')
           else directives ds as))"
  by pat_completeness auto
termination by (relation "measure (\<lambda>(cs, as). length cs)") auto

declare directives.simps(2) [simp del]

definition conv_agree :: "conv \<Rightarrow> conv \<Rightarrow> char \<Rightarrow> u64 \<Rightarrow> bool" where
  "conv_agree cv cv' d v \<longleftrightarrow> (d = CHR ''d'' \<longrightarrow> conv_d cv v = conv_d cv' v) \<and> (d = CHR ''x'' \<longrightarrow> conv_x cv v = conv_x cv' v) \<and>
     (d = CHR ''l'' \<longrightarrow> conv_llx cv v = conv_llx cv' v) \<and> (d = CHR ''p'' \<longrightarrow> conv_p cv v = conv_p cv' v)"

lemma render_agree:
  "\<forall>(d, a) \<in> set (directives cs as). conv_agree cv cv' d (arg_word a) \<Longrightarrow> render cv cs as = render cv' cs as"
proof (induction cs arbitrary: "as" rule: length_induct)
  case (1 cs)
  have IH: "render cv ds bs = render cv' ds bs"
    if "length ds < length cs" "set (directives ds bs) \<subseteq> set (directives cs as)" for ds bs
    using that 1 by blast
  show ?case
  proof (cases cs)
    case (Cons c bs)
    show ?thesis
    proof (cases "c = CHR ''%''")
      case False
      then show ?thesis using IH [of bs "as"] by (simp add: Cons render.simps(2) directives.simps(2))
    next
      case True
      show ?thesis
      proof (cases bs)
        case Nil
        then show ?thesis by (simp add: Cons True render.simps(2))
      next
        case d: (Cons d ds)
        note here = Cons True d
        consider (dir) "d = CHR ''s'' \<or> d = CHR ''d'' \<or> d = CHR ''x'' \<or> d = CHR ''p''"
          | (llx) "d = CHR ''l''" "take 2 ds = ''lx''"
          | (lit) "\<not> (d = CHR ''s'' \<or> d = CHR ''d'' \<or> d = CHR ''x'' \<or> d = CHR ''p'')" "\<not> (d = CHR ''l'' \<and> take 2 ds = ''lx'')"
          by blast
        then show ?thesis
        proof cases
          case lit
          then have "directive cv d = None" "directive cv' d = None" "directives cs as = directives ds as"
            by (auto simp: directive_def here directives.simps(2))
          then show ?thesis using lit(2) IH [of ds "as"] by (auto simp: here render.simps(2))
        next
          case dir
          show ?thesis
          proof (cases "as")
            case Nil
            then show ?thesis using dir by (auto simp: here render.simps(2) directive_def)
          next
            case (Cons a bs')
            have ds: "directives cs as = (d, a) # directives ds bs'" using dir Cons by (simp add: here directives.simps(2))
            have "conv_agree cv cv' d (arg_word a)" using 1 ds by auto
            moreover have "render cv ds bs' = render cv' ds bs'" using ds by (intro IH) (auto simp: here)
            ultimately show ?thesis using dir Cons by (auto simp: here render.simps(2) directive_def conv_agree_def)
          qed
        next
          case llx
          show ?thesis
          proof (cases "as")
            case Nil
            then show ?thesis using llx by (simp add: here render.simps(2) directive_def)
          next
            case (Cons a bs')
            have ds: "directives cs as = (d, a) # directives (drop 2 ds) bs'" using llx Cons by (simp add: here directives.simps(2))
            have "conv_agree cv cv' d (arg_word a)" using 1 ds by auto
            moreover have "render cv (drop 2 ds) bs' = render cv' (drop 2 ds) bs'" using ds by (intro IH) (auto simp: here)
            ultimately show ?thesis using llx Cons by (simp add: here render.simps(2) directive_def conv_agree_def)
          qed
        qed
      qed
    qed
  qed simp
qed

text \<open>A format without directives stands for itself.\<close>

lemma render_plain: "CHR ''%'' \<notin> set cs \<Longrightarrow> render cv cs as = Some cs"
  by (induction cs) (auto simp: render.simps(2))

text \<open>The strings among the arguments are in memory where their addresses say.\<close>

definition strings_ok :: "(u64 \<Rightarrow> u8) \<Rightarrow> arg list \<Rightarrow> bool" where
  "strings_ok m as \<longleftrightarrow> (\<forall>a t. Str a t \<in> set as \<longrightarrow> cstr m a t)"

lemma strings_ok_Cons [simp]: "strings_ok m (x # as) \<longleftrightarrow> (\<forall>a t. x = Str a t \<longrightarrow> cstr m a t) \<and> strings_ok m as"
  by (auto simp: strings_ok_def)

lemma strings_ok_Nil [simp]: "strings_ok m []"
  by (simp add: strings_ok_def)

text \<open>Reading a string in memory.\<close>

lemma of_char_u8_inj [simp]: "(of_char c :: u8) = of_char d \<longleftrightarrow> c = d"
proof
  assume "(of_char c :: u8) = of_char d"
  then have "unat (of_char c :: u8) = unat (of_char d :: u8)" by simp
  moreover have "unat (of_char c :: u8) = of_char c" for c :: char
  proof -
    have "unat (of_nat (of_char c) :: u8) = of_char c" by (simp only: unat_of_nat) simp
    then show ?thesis by (simp only: of_nat_of_char)
  qed
  ultimately have "(of_char c :: nat) = of_char d" by simp
  then show "c = d" by simp
qed simp

text \<open>The bytes the interpreters compare with, as characters.\<close>

lemma byte_char:
  "(of_char c :: u8) = 0x25 \<longleftrightarrow> c = CHR ''%''" "(of_char c :: u8) = 0x73 \<longleftrightarrow> c = CHR ''s''"
  "(of_char c :: u8) = 0x64 \<longleftrightarrow> c = CHR ''d''" "(of_char c :: u8) = 0x78 \<longleftrightarrow> c = CHR ''x''"
  "(of_char c :: u8) = 0x6C \<longleftrightarrow> c = CHR ''l''" "(of_char c :: u8) = 0x70 \<longleftrightarrow> c = CHR ''p''"
  using of_char_u8_inj [of c "CHR ''%''"] of_char_u8_inj [of c "CHR ''s''"] of_char_u8_inj [of c "CHR ''d''"]
    of_char_u8_inj [of c "CHR ''x''"] of_char_u8_inj [of c "CHR ''l''"] of_char_u8_inj [of c "CHR ''p''"]
  by simp_all

lemma cstr_drop: "cstr m p cs \<Longrightarrow> k \<le> length cs \<Longrightarrow> cstr m (p + of_nat k) (drop k cs)"
proof (induction k arbitrary: p cs)
  case (Suc k)
  then obtain c cs' where "cs = c # cs'" by (cases cs) auto
  with Suc.IH [of "p + 1" cs'] Suc.prems show ?case by (simp add: ac_simps)
qed simp

end
