(* ===== verification/Serial.thy ===== *)
theory Serial
  imports Format "HOL-Library.Signed_Division"
begin

text \<open>
  The serial console, \<^verbatim>\<open>arch/x86_64/drivers/video/serial.c\<close>: port writes with busy waiting, the
  number printer, the format interpreter \<^verbatim>\<open>serial_print\<close> on format strings in kernel memory, and
  \<^verbatim>\<open>itoa\<close>. The lemmas say what is transmitted when the device keeps becoming ready.
\<close>

section \<open>Transmitting\<close>

abbreviation COM1_PORT :: u16 where "COM1_PORT \<equiv> 0x3F8"

definition serial_init :: "'a machine_scheme \<Rightarrow> 'a machine_scheme" where
  "serial_init s =
     outb (COM1_PORT + 4) 0x0B (outb (COM1_PORT + 2) 0xC7 (outb (COM1_PORT + 3) 0x03
       (outb (COM1_PORT + 1) 0x00 (outb (COM1_PORT + 0) 0x03 (outb (COM1_PORT + 3) 0x80
         (outb (COM1_PORT + 1) 0x00 s))))))"

text \<open>\<^verbatim>\<open>while ((inb(COM1_PORT + 5) & 0x20) == 0);\<close> need not end.\<close>

partial_function (option) serial_wait :: "'a machine_scheme \<Rightarrow> 'a machine_scheme option" where
  "serial_wait s =
     (let (v, s1) = inb (COM1_PORT + 5) s in if v AND 0x20 = 0 then serial_wait s1 else Some s1)"

definition serial_putchar :: "u8 \<Rightarrow> 'a machine_scheme \<Rightarrow> 'a machine_scheme option" where
  "serial_putchar c s = do { s1 \<leftarrow> serial_wait s; Some (outb COM1_PORT c s1) }"

primrec serial_putchars :: "string \<Rightarrow> 'a machine_scheme \<Rightarrow> 'a machine_scheme option" where
  "serial_putchars [] s = Some s"
| "serial_putchars (c # cs) s = do { s1 \<leftarrow> serial_putchar (of_char c) s; serial_putchars cs s1 }"

text \<open>The digits go into \<^verbatim>\<open>buf\<close> from the least significant one and out from its end.\<close>

definition serial_put_number :: "u32 \<Rightarrow> u32 \<Rightarrow> 'a machine_scheme \<Rightarrow> 'a machine_scheme option" where
  "serial_put_number num base s =
     (if num = 0 then serial_putchar (of_char (CHR ''0'')) s
      else do { buf \<leftarrow> num_loop base num []; serial_putchars (rev buf) s })"

text \<open>
  The hexadecimal digits of \<^verbatim>\<open>%llx\<close>, written inline in \<^verbatim>\<open>serial_print\<close>, are the same loop on 64 bits.
\<close>

definition serial_put_hex64 :: "u64 \<Rightarrow> 'a machine_scheme \<Rightarrow> 'a machine_scheme option" where
  "serial_put_hex64 val s =
     (if val = 0 then serial_putchar (of_char (CHR ''0'')) s
      else do { buf \<leftarrow> num_loop 16 val []; serial_putchars (rev buf) s })"

text \<open>
  The format interpreter reads the format byte by byte from memory; \<^verbatim>\<open>args\<close> are the variadic
  arguments not yet fetched, and fetching one that was not passed is undefined: None. In the
  case \<^verbatim>\<open>%s\<close> the argument is itself interpreted as a format, with no arguments.
\<close>

partial_function (option) serial_format :: "u64 \<Rightarrow> u64 list \<Rightarrow> 'a machine_scheme \<Rightarrow> 'a machine_scheme option" where
  "serial_format p args s =
     (let c = kmem s p in
      if c = 0 then Some s
      else if c \<noteq> 0x25 then do { s1 \<leftarrow> serial_putchar c s; serial_format (p + 1) args s1 }
      else
        let p = p + 1; d = kmem s p in
        if d = 0x73 then
          (case args of [] \<Rightarrow> None
           | a # rest \<Rightarrow> do { s1 \<leftarrow> serial_format a [] s; serial_format (p + 1) rest s1 })
        else if d = 0x64 then
          (case args of [] \<Rightarrow> None
           | a # rest \<Rightarrow>
               let i = ucast a :: u32 in
               if i <s 0
               then do { s1 \<leftarrow> serial_putchar 0x2D s; s2 \<leftarrow> serial_put_number (- i) 10 s1; serial_format (p + 1) rest s2 }
               else do { s2 \<leftarrow> serial_put_number i 10 s; serial_format (p + 1) rest s2 })
        else if d = 0x78 then
          (case args of [] \<Rightarrow> None
           | a # rest \<Rightarrow> do { s1 \<leftarrow> serial_put_number (ucast a) 16 s; serial_format (p + 1) rest s1 })
        else if d = 0x6C then
          if kmem s (p + 1) = 0x6C \<and> kmem s (p + 2) = 0x78 then
            (case args of [] \<Rightarrow> None
             | a # rest \<Rightarrow> do { s1 \<leftarrow> serial_put_hex64 a s; serial_format (p + 3) rest s1 })
          else serial_format (p + 1) args s
        else if d = 0x70 then
          (case args of [] \<Rightarrow> None
           | a # rest \<Rightarrow> do { s1 \<leftarrow> serial_putchars ''0x'' s; s2 \<leftarrow> serial_put_number (ucast a) 16 s1;
               serial_format (p + 1) rest s2 })
        else if d = 0x25 then do { s1 \<leftarrow> serial_putchar 0x25 s; serial_format (p + 1) args s1 }
        else serial_format (p + 1) args s)"

definition serial_print :: "u64 \<Rightarrow> u64 list \<Rightarrow> 'a machine_scheme \<Rightarrow> 'a machine_scheme option" where
  "serial_print format args s = serial_format format args s"

section \<open>itoa\<close>

text \<open>
  \<^verbatim>\<open>value % base\<close> truncates towards zero, so the digits of a negative number are read from the
  first half of the mirrored table. The buffer is the list of characters written so far.
\<close>

definition itoa_table :: string where
  "itoa_table = ''zyxwvutsrqponmlkjihgfedcba9876543210123456789abcdefghijklmnopqrstuvwxyz''"

partial_function (option) itoa_loop :: "int \<Rightarrow> int \<Rightarrow> string \<Rightarrow> string option" where
  "itoa_loop val base buf =
     (let buf' = buf @ [itoa_table ! nat (35 + val smod base)]; val' = val sdiv base
      in if val' \<noteq> 0 then itoa_loop val' base buf' else Some buf')"

function itoa_reverse :: "nat \<Rightarrow> nat \<Rightarrow> string \<Rightarrow> string" where
  "itoa_reverse low p buf =
     (if low < p then itoa_reverse (low + 1) (p - 1) (buf[low := buf ! p, p := buf ! low]) else buf)"
  by pat_completeness auto
termination by (relation "measure (\<lambda>(low, p, buf). p - low)") auto

declare itoa_reverse.simps [simp del]

definition itoa :: "int \<Rightarrow> int \<Rightarrow> string option" where
  "itoa val base =
     (if base < 2 \<or> 36 < base then Some []
      else
        let sign = (if val < 0 \<and> base = 10 then ''-'' else []) in do {
          buf \<leftarrow> itoa_loop val base sign;
          Some (itoa_reverse (length sign) (length buf - 1) buf)
        })"

section \<open>What is transmitted\<close>

text \<open>The device becomes ready again and again, whatever was read from it before.\<close>

definition uart_ready :: "'a machine_scheme \<Rightarrow> bool" where
  "uart_ready s \<longleftrightarrow> (\<forall>k. \<exists>j \<ge> k. port_in s j (COM1_PORT + 5) AND 0x20 \<noteq> 0)"

text \<open>\<^verbatim>\<open>sent s bs s'\<close>: only the bytes \<^verbatim>\<open>bs\<close> went out on the data port, and status reads.\<close>

definition sent :: "'a machine_scheme \<Rightarrow> u8 list \<Rightarrow> 'a machine_scheme \<Rightarrow> bool" where
  "sent s bs s' \<longleftrightarrow> s'\<lparr>port_reads := port_reads s\<rparr> = s\<lparr>port_out := port_out s @ map (Pair COM1_PORT) bs\<rparr>"

lemma sent_refl [simp]: "sent s [] s"
  by (cases s) (simp add: sent_def)

lemma sent_trans: "sent s bs t \<Longrightarrow> sent t cs u \<Longrightarrow> sent s (bs @ cs) u"
  by (cases s, cases t, cases u) (simp add: sent_def)

lemma sent_fields:
  assumes "sent s bs s'"
  shows "kmem s' = kmem s" "port_in s' = port_in s" "uart_ready s' = uart_ready s"
    "port_out s' = port_out s @ map (Pair COM1_PORT) bs"
  using assms by (cases s, cases s', simp add: sent_def uart_ready_def)+

lemma serial_wait_ready:
  assumes "uart_ready s"
  shows "\<exists>s'. serial_wait s = Some s' \<and> sent s [] s'"
proof -
  obtain j where j: "j \<ge> port_reads s" "port_in s j (COM1_PORT + 5) AND 0x20 \<noteq> 0"
    using assms by (auto simp: uart_ready_def)
  then show ?thesis
  proof (induction "j - port_reads s" arbitrary: s)
    case 0
    then have "port_in s (port_reads s) (COM1_PORT + 5) AND 0x20 \<noteq> 0" by simp
    then show ?case
      by (cases s) (simp add: serial_wait.simps inb_def sent_def)
  next
    case (Suc d)
    show ?case
    proof (cases "port_in s (port_reads s) (COM1_PORT + 5) AND 0x20 = 0")
      case True
      let ?s1 = "s\<lparr>port_reads := Suc (port_reads s)\<rparr>"
      have "serial_wait s = serial_wait ?s1"
        using True by (subst serial_wait.simps) (simp add: inb_def)
      moreover obtain s' where "serial_wait ?s1 = Some s'" "sent ?s1 [] s'"
      proof -
        have "d = j - port_reads ?s1" "port_reads ?s1 \<le> j" using Suc.hyps(2) by simp_all
        with Suc.hyps(1) [of ?s1] Suc.prems(2) that show ?thesis by auto
      qed
      moreover have "sent s [] ?s1" by (cases s) (simp add: sent_def)
      ultimately show ?thesis using sent_trans by fastforce
    next
      case False
      then show ?thesis by (cases s) (simp add: serial_wait.simps inb_def sent_def)
    qed
  qed
qed

lemma serial_putchar_sent:
  assumes "uart_ready s"
  shows "\<exists>s'. serial_putchar c s = Some s' \<and> sent s [c] s'"
proof -
  obtain s1 where s1: "serial_wait s = Some s1" "sent s [] s1" using serial_wait_ready [OF assms] by blast
  have "sent s1 [c] (outb COM1_PORT c s1)" by (cases s1) (simp add: sent_def outb_def)
  with s1 sent_trans [OF s1(2)] show ?thesis by (fastforce simp: serial_putchar_def)
qed

lemma serial_putchars_sent:
  "uart_ready s \<Longrightarrow> \<exists>s'. serial_putchars cs s = Some s' \<and> sent s (map of_char cs) s'"
proof (induction cs arbitrary: s)
  case (Cons c cs)
  obtain s1 where s1: "serial_putchar (of_char c) s = Some s1" "sent s [of_char c] s1"
    using serial_putchar_sent [OF Cons.prems] by blast
  then obtain s' where "serial_putchars cs s1 = Some s'" "sent s1 (map of_char cs) s'"
    using Cons sent_fields(3) by blast
  with s1 sent_trans [OF s1(2)] show ?case by fastforce
qed simp

lemma digits_of_zero: "digits_of b 0 = [0]"
  by (subst digits_of.simps) auto

lemma serial_put_number_sent:
  assumes "uart_ready s" "2 \<le> unat base" "unat base \<le> 16"
  shows "\<exists>s'. serial_put_number num base s = Some s' \<and>
    sent s (map of_char (show_number (unat base) (unat num))) s'"
proof (cases "num = 0")
  case True
  then show ?thesis
    using serial_putchar_sent [OF assms(1)]
    by (simp add: serial_put_number_def show_number_def digits_of_zero digit_char_def)
next
  case False
  with num_loop_digits [OF assms(2) False, of "[]"]
    serial_putchars_sent [OF assms(1), of "map digit_char (digits_of (unat base) (unat num))"]
  show ?thesis by (simp add: serial_put_number_def show_number_def rev_map)
qed

lemma serial_put_hex64_sent:
  assumes "uart_ready s"
  shows "\<exists>s'. serial_put_hex64 v s = Some s' \<and> sent s (map of_char (show_number 16 (unat v))) s'"
proof (cases "v = 0")
  case True
  then show ?thesis
    using serial_putchar_sent [OF assms]
    by (simp add: serial_put_hex64_def show_number_def digits_of_zero digit_char_def)
next
  case False
  have "2 \<le> unat (16 :: u64)" by simp
  from num_loop_digits [OF this False, of "[]"]
    serial_putchars_sent [OF assms, of "map digit_char (digits_of 16 (unat v))"] False
  show ?thesis by (simp add: serial_put_hex64_def show_number_def rev_map)
qed

section \<open>itoa prints in any base\<close>

definition itoa_digit :: "nat \<Rightarrow> char" where
  "itoa_digit d = ''0123456789abcdefghijklmnopqrstuvwxyz'' ! d"

lemma itoa_table_digit:
  assumes "d < 36"
  shows "itoa_table ! (35 + d) = itoa_digit d" "itoa_table ! (35 - d) = itoa_digit d"
proof -
  have "\<forall>d \<in> set [0..<36]. itoa_table ! (35 + d) = itoa_digit d \<and> itoa_table ! (35 - d) = itoa_digit d"
    by code_simp
  with assms show "itoa_table ! (35 + d) = itoa_digit d" "itoa_table ! (35 - d) = itoa_digit d" by auto
qed

lemma itoa_step:
  assumes "2 \<le> base" "base \<le> 36"
  shows "itoa_table ! nat (35 + val smod base) = itoa_digit (nat \<bar>val\<bar> mod nat base)"
    "nat \<bar>val sdiv base\<bar> = nat \<bar>val\<bar> div nat base" "val sdiv base = 0 \<longleftrightarrow> nat \<bar>val\<bar> < nat base"
proof -
  let ?d = "nat \<bar>val\<bar> mod nat base"
  have "?d < nat base" using assms by simp
  then have d: "?d < 36" using assms by linarith
  have b: "0 < base" "sgn base = 1" "\<bar>base\<bar> = base" using assms by simp_all
  have dv: "val sdiv base = sgn val * (\<bar>val\<bar> div base)"
    using b by (simp add: signed_divide_int_def sgn_mult abs_mult ac_simps)
  show dn: "nat \<bar>val sdiv base\<bar> = nat \<bar>val\<bar> div nat base"
    using b assms by (auto simp: dv abs_mult nat_div_distrib pos_imp_zdiv_nonneg_iff sgn_if)
  show "val sdiv base = 0 \<longleftrightarrow> nat \<bar>val\<bar> < nat base"
    using dn assms by (metis div_eq_0_iff nat_0_iff abs_le_zero_iff nat_eq_iff2 gr_implies_not0 zero_less_nat_eq b(1) abs_ge_zero)
  have md: "val smod base = sgn val * (\<bar>val\<bar> mod base)"
    by (simp add: signed_modulo_int_def b)
  have "\<bar>val\<bar> mod base = int ?d" using assms by (simp add: nat_mod_distrib zmod_int)
  then have "nat (35 + val smod base) = (if val < 0 then 35 - ?d else 35 + ?d)"
    using d by (auto simp: md sgn_if nat_diff_distrib')
  then show "itoa_table ! nat (35 + val smod base) = itoa_digit ?d"
    by (simp only: itoa_table_digit [OF d] split: if_split) simp
qed

lemma itoa_loop_digits:
  assumes "2 \<le> base" "base \<le> 36"
  shows "itoa_loop val base buf = Some (buf @ map itoa_digit (rev (digits_of (nat base) (nat \<bar>val\<bar>))))"
proof (induction "nat \<bar>val\<bar>" arbitrary: val buf rule: less_induct)
  case less
  note st = itoa_step [OF assms, of val]
  have b: "2 \<le> nat base" using assms by linarith
  show ?case
  proof (cases "val sdiv base = 0")
    case True
    with st b show ?thesis by (subst itoa_loop.simps) (simp add: digits_of.simps [of "nat base" "nat \<bar>val\<bar>"])
  next
    case False
    with st(3) have ge: "\<not> nat \<bar>val\<bar> < nat base" by simp
    then have "0 < nat \<bar>val\<bar>" using b by linarith
    with st(2) b have lt: "nat \<bar>val sdiv base\<bar> < nat \<bar>val\<bar>" by simp
    from less.hyps [OF lt] False st ge b show ?thesis
      by (subst itoa_loop.simps) (simp add: digits_of.simps [of "nat base" "nat \<bar>val\<bar>"] Let_def)
  qed
qed

lemma itoa_reverse_nth:
  "p < length buf \<Longrightarrow> length (itoa_reverse low p buf) = length buf \<and>
    (\<forall>i < length buf. itoa_reverse low p buf ! i = (if low \<le> i \<and> i \<le> p then buf ! (low + p - i) else buf ! i))"
proof (induction low p buf rule: itoa_reverse.induct)
  case (1 low p buf)
  show ?case
  proof (cases "low < p")
    case True
    let ?buf = "buf[low := buf ! p, p := buf ! low]"
    have eq: "itoa_reverse low p buf = itoa_reverse (low + 1) (p - 1) ?buf"
      using True by (subst itoa_reverse.simps) simp
    have IH: "length (itoa_reverse (low + 1) (p - 1) ?buf) = length ?buf \<and>
      (\<forall>i < length ?buf. itoa_reverse (low + 1) (p - 1) ?buf ! i =
        (if low + 1 \<le> i \<and> i \<le> p - 1 then ?buf ! (low + 1 + (p - 1) - i) else ?buf ! i))"
      using "1.IH" [OF True] "1.prems" by simp
    have "itoa_reverse (low + 1) (p - 1) ?buf ! i = (if low \<le> i \<and> i \<le> p then buf ! (low + p - i) else buf ! i)"
      if i: "i < length buf" for i
    proof -
      consider "i = low" | "i = p" | "low < i" "i < p" | "i < low \<or> p < i" by linarith
      then show ?thesis
        using IH i True "1.prems" by cases (auto simp: nth_list_update)
    qed
    with IH show ?thesis unfolding eq by simp
  next
    case False
    moreover have "buf ! (low + p - i) = buf ! i" if "low \<le> i" "i \<le> p" for i
    proof -
      have "i = low" "low = p" using that False by simp_all
      then show ?thesis by simp
    qed
    ultimately show ?thesis by (subst (1 2) itoa_reverse.simps) simp
  qed
qed

lemma itoa_reverse_append:
  assumes "bs \<noteq> []"
  shows "itoa_reverse (length as) (length (as @ bs) - 1) (as @ bs) = as @ rev bs"
proof (rule nth_equalityI)
  note r = itoa_reverse_nth [of "length (as @ bs) - 1" "as @ bs" "length as"]
  show "length (itoa_reverse (length as) (length (as @ bs) - 1) (as @ bs)) = length (as @ rev bs)"
    using r assms by simp
  fix i assume i: "i < length (itoa_reverse (length as) (length (as @ bs) - 1) (as @ bs))"
  show "itoa_reverse (length as) (length (as @ bs) - 1) (as @ bs) ! i = (as @ rev bs) ! i"
  proof (cases "i < length as")
    case True
    then show ?thesis using r assms by (simp add: nth_append)
  next
    case False
    then have j: "i = length as + (i - length as)" "i - length as < length bs" using i r assms by simp_all
    then show ?thesis using r assms by (simp add: nth_append rev_nth ac_simps)
  qed
qed

lemma itoa_correct:
  assumes "2 \<le> base" "base \<le> 36"
  shows "itoa val base = Some ((if val < 0 \<and> base = 10 then ''-'' else []) @
    map itoa_digit (digits_of (nat base) (nat \<bar>val\<bar>)))"
proof -
  let ?as = "if val < 0 \<and> base = 10 then ''-'' else []" and ?ds = "digits_of (nat base) (nat \<bar>val\<bar>)"
  have "map itoa_digit (rev ?ds) \<noteq> []" using digits_of_nonempty by simp
  from itoa_reverse_append [OF this, of ?as] itoa_loop_digits [OF assms, of val ?as] assms
  show ?thesis by (simp add: itoa_def Let_def rev_map [symmetric])
qed

section \<open>What a format prints\<close>

lemma serial_wait_fields: "serial_wait s = Some s' \<Longrightarrow> \<exists>n. s' = s\<lparr>port_reads := n\<rparr>"
proof (rule serial_wait.raw_induct [where P = "\<lambda>s s'. \<exists>n. s' = s\<lparr>port_reads := n\<rparr>"])
  fix f and t t' :: "'a machine_scheme"
  assume IH: "\<And>x y. f x = Some y \<Longrightarrow> \<exists>n. y = x\<lparr>port_reads := n\<rparr>"
    and eq: "(let (v, s1) = inb (COM1_PORT + 5) t in if v AND 32 = 0 then f s1 else Some s1) = Some t'"
  show "\<exists>n. t' = t\<lparr>port_reads := n\<rparr>"
    using eq by (auto simp: inb_def split: if_splits dest!: IH)
qed

lemma serial_putchar_kmem: "serial_putchar c s = Some s' \<Longrightarrow> kmem s' = kmem s"
  by (auto simp: serial_putchar_def outb_def bind_eq_Some_conv dest!: serial_wait_fields)

lemma serial_putchars_kmem: "serial_putchars cs s = Some s' \<Longrightarrow> kmem s' = kmem s"
  by (induction cs arbitrary: s) (auto simp: bind_eq_Some_conv dest!: serial_putchar_kmem)

lemma serial_putchars_append:
  "serial_putchars (xs @ ys) s = do { s1 \<leftarrow> serial_putchars xs s; serial_putchars ys s1 }"
  by (induction xs arbitrary: s) (auto intro!: Option.bind_cong)

lemma serial_put_number_show:
  "2 \<le> unat base \<Longrightarrow> serial_put_number num base s = serial_putchars (show_number (unat base) (unat num)) s"
  using num_loop_digits [of base num "[]"]
  by (cases "num = 0")
    (auto simp: serial_put_number_def show_number_def digits_of_zero digit_char_def rev_map)

lemma serial_put_hex64_show: "serial_put_hex64 v s = serial_putchars (show_number 16 (unat v)) s"
  using num_loop_digits [of 16 v "[]"]
  by (cases "v = 0") (auto simp: serial_put_hex64_def show_number_def digits_of_zero digit_char_def rev_map)

definition show_int :: "nat \<Rightarrow> int \<Rightarrow> string" where
  "show_int b i = (if i < 0 then CHR ''-'' # show_number b (nat (- i)) else show_number b (nat i))"

text \<open>
  What the directives mean: an \<^verbatim>\<open>int\<close> in decimal, an \<^verbatim>\<open>unsigned int\<close> and a 64-bit word in hexadecimal,
  and a pointer, with all its 64 bits, in hexadecimal after \<^verbatim>\<open>0x\<close>. The code prints the low 32 bits of a
  pointer only: \<^verbatim>\<open>serial_code_conv\<close>.
\<close>

definition serial_conv :: conv where
  "serial_conv = \<lparr>
     conv_d = (\<lambda>v. show_int 10 (int_of_u64 v)),
     conv_x = (\<lambda>v. show_number 16 (unat (ucast v :: u32))),
     conv_llx = (\<lambda>v. show_number 16 (unat v)),
     conv_p = (\<lambda>v. ''0x'' @ show_number 16 (unat v))\<rparr>"

definition serial_code_conv :: conv where
  "serial_code_conv = serial_conv\<lparr>conv_p := (\<lambda>v. ''0x'' @ show_number 16 (unat (ucast v :: u32)))\<rparr>"

definition low_pointers :: "string \<Rightarrow> arg list \<Rightarrow> bool" where
  "low_pointers cs as \<longleftrightarrow> (\<forall>a. (CHR ''p'', a) \<in> set (directives cs as) \<longrightarrow> arg_word a < 0x100000000)"

lemma serial_code_renders:
  assumes "low_pointers cs as"
  shows "render serial_code_conv cs as = render serial_conv cs as"
proof (rule render_agree, intro ballI, clarify)
  fix d a assume da: "(d, a) \<in> set (directives cs as)"
  have "unat (ucast (arg_word a) :: u32) = unat (arg_word a)" if "d = CHR ''p''"
  proof -
    have "unat (arg_word a) < 2 ^ 32" using assms da that by (auto simp: low_pointers_def word_less_nat_alt)
    then show ?thesis by (simp add: unsigned_ucast_eq unsigned_take_bit_eq take_bit_nat_eq_self)
  qed
  then show "conv_agree serial_code_conv serial_conv d (arg_word a)"
    by (simp add: conv_agree_def serial_code_conv_def serial_conv_def)
qed

lemma unat_minus_sint: "sint (i :: 'a::len word) < 0 \<Longrightarrow> unat (- i) = nat (- sint i)"
proof -
  assume neg: "sint i < 0"
  have "- sint i \<le> 2 ^ (LENGTH('a) - 1)" using sint_greater_eq [of i] by simp
  also have "\<dots> < (2 :: int) ^ LENGTH('a)" by simp
  finally have "- sint i < 2 ^ LENGTH('a)" .
  moreover have "- i = word_of_int (- sint i)" by simp
  ultimately have "uint (- i) = - sint i"
    using neg by (metis uint_word_of_int_eq take_bit_int_eq_self less_imp_le neg_0_le_iff_le)
  then show ?thesis by (simp add: unat_eq_nat_uint)
qed

lemma unat_sint: "0 \<le> sint (i :: 'a::len word) \<Longrightarrow> unat i = nat (sint i)"
proof -
  assume pos: "0 \<le> sint i"
  have "sint i < 2 ^ (LENGTH('a) - 1)" using sint_less [of i] by simp
  also have "\<dots> < (2 :: int) ^ LENGTH('a)" by simp
  finally have "sint i < 2 ^ LENGTH('a)" .
  with pos have "uint (word_of_int (sint i) :: 'a word) = sint i"
    by (simp only: uint_word_of_int_eq take_bit_int_eq_self)
  then show ?thesis by (simp add: unat_eq_nat_uint)
qed

lemma serial_put_int:
  fixes i :: u32
  shows "(if i <s 0 then do { s1 \<leftarrow> serial_putchar 0x2D s; s2 \<leftarrow> serial_put_number (- i) 10 s1; k s2 }
      else do { s2 \<leftarrow> serial_put_number i 10 s; k s2 })
    = do { s2 \<leftarrow> serial_putchars (show_int 10 (sint i)) s; k s2 }"
proof -
  have sgn: "i <s 0 \<longleftrightarrow> sint i < 0" by (simp add: word_sless_alt)
  have "(0x2D :: u8) = of_char (CHR ''-'')" by simp
  then show ?thesis
    unfolding sgn by (simp add: show_int_def serial_put_number_show unat_minus_sint unat_sint)
qed

definition plain_args :: "arg list \<Rightarrow> bool" where
  "plain_args as \<longleftrightarrow> (\<forall>a t. Str a t \<in> set as \<longrightarrow> CHR ''%'' \<notin> set t)"

lemma plain_args_Cons [simp]:
  "plain_args (x # as) \<longleftrightarrow> (\<forall>a t. x = Str a t \<longrightarrow> CHR ''%'' \<notin> set t) \<and> plain_args as"
  by (auto simp: plain_args_def)

lemma serial_format_plain:
  "cstr (kmem s) p cs \<Longrightarrow> CHR ''%'' \<notin> set cs \<Longrightarrow> serial_format p as s = serial_putchars cs s"
proof (induction cs arbitrary: p s)
  case (Cons c cs)
  have "serial_format (p + 1) as s1 = serial_putchars cs s1" if "serial_putchar (of_char c) s = Some s1" for s1
    using Cons serial_putchar_kmem [OF that] by simp
  with Cons.prems show ?case
    by (subst serial_format.simps) (auto simp: Let_def byte_char intro!: Option.bind_cong)
qed (simp add: serial_format.simps)

text \<open>One directive: what \<^verbatim>\<open>act\<close> does to the state is to send \<^verbatim>\<open>u\<close>, and the rest follows.\<close>

lemma serial_then:
  assumes "act = serial_putchars u s" "\<And>s1. kmem s1 = kmem s \<Longrightarrow> k s1 = serial_putchars t s1"
  shows "do { s1 \<leftarrow> act; k s1 } = serial_putchars (u @ t) s"
  unfolding serial_putchars_append assms(1)
  by (intro Option.bind_cong refl assms(2)) (rule serial_putchars_kmem)

text \<open>The interpreter at an ordinary character and at a directive.\<close>

lemma serial_format_char:
  assumes "kmem s p = of_char c" "kmem s p \<noteq> 0" "c \<noteq> CHR ''%''"
  shows "serial_format p ys s = do { s1 \<leftarrow> serial_putchar (of_char c) s; serial_format (p + 1) ys s1 }"
  using assms by (subst serial_format.simps) (simp add: Let_def byte_char)

lemma serial_format_directive:
  assumes "kmem s p = 0x25" "kmem s (p + 1) = of_char d" "q = p + 1 + 1"
  shows "serial_format p ys s =
     (if d = CHR ''s'' then
      (case ys of [] \<Rightarrow> None
       | a # rest \<Rightarrow> do { s1 \<leftarrow> serial_format a [] s; serial_format q rest s1 })
    else if d = CHR ''d'' then
      (case ys of [] \<Rightarrow> None
       | a # rest \<Rightarrow> do { s2 \<leftarrow> serial_putchars (show_int 10 (int_of_u64 a)) s; serial_format q rest s2 })
    else if d = CHR ''x'' then
      (case ys of [] \<Rightarrow> None
       | a # rest \<Rightarrow> do { s1 \<leftarrow> serial_put_number (ucast a) 16 s; serial_format q rest s1 })
    else if d = CHR ''l'' then
      if kmem s q = 0x6C \<and> kmem s (q + 1) = 0x78 then
        (case ys of [] \<Rightarrow> None
         | a # rest \<Rightarrow> do { s1 \<leftarrow> serial_put_hex64 a s; serial_format (q + 2) rest s1 })
      else serial_format q ys s
    else if d = CHR ''p'' then
      (case ys of [] \<Rightarrow> None
       | a # rest \<Rightarrow> do { s1 \<leftarrow> serial_putchars ''0x'' s; s2 \<leftarrow> serial_put_number (ucast a) 16 s1;
           serial_format q rest s2 })
    else if d = CHR ''%'' then do { s1 \<leftarrow> serial_putchar 0x25 s; serial_format q ys s1 }
    else serial_format q ys s)"
proof -
  have nz: "(0x25 :: u8) = 0 \<longleftrightarrow> False" "(0x25 :: u8) \<noteq> 0x25 \<longleftrightarrow> False" by simp_all
  have q: "p + 1 + 1 = q" "p + 1 + 2 = q + 1" "p + 1 + 3 = q + 2" using assms(3) by (simp_all add: add.assoc)
  show ?thesis
    by (subst serial_format.simps)
      (simp only: q Let_def assms(1,2) byte_char nz if_False serial_put_int int_of_u64_def)
qed

lemma serial_format_renders:
  fixes s :: "'a machine_scheme"
  shows "render serial_code_conv cs xs = Some out \<Longrightarrow> cstr (kmem s) p cs \<Longrightarrow> strings_ok (kmem s) xs \<Longrightarrow> plain_args xs \<Longrightarrow>
    serial_format p (map arg_word xs) s = serial_putchars out s"
proof (induction cs arbitrary: xs p s out rule: length_induct)
  case (1 cs)
  note mem = "1.prems"(2-4)
  have IH: "serial_format q (map arg_word zs) s1 = serial_putchars t s1"
    if "length ds < length cs" "render serial_code_conv ds zs = Some t" "kmem s1 = kmem s" "cstr (kmem s) q ds"
      "strings_ok (kmem s) zs" "plain_args zs" for ds zs q t and s1 :: "'a machine_scheme"
    using "1.IH" that by metis
  show ?case
  proof (cases cs)
    case Nil
    with "1.prems" show ?thesis by (simp add: serial_format.simps)
  next
    case (Cons c bs)
    have c: "kmem s p = of_char c" "kmem s p \<noteq> 0" "cstr (kmem s) (p + 1) bs" using mem(1) Cons by auto
    show ?thesis
    proof (cases "c = CHR ''%''")
      case False
      then obtain t where t: "render serial_code_conv bs xs = Some t" "out = [c] @ t"
        using "1.prems"(1) Cons by (auto simp: render.simps(2) bind_eq_Some_conv)
      show ?thesis
        unfolding serial_format_char [OF c(1,2) False] t(2) by (rule serial_then) (use IH [OF _ t(1) _ c(3) mem(2,3)] Cons in simp_all)
    next
      case True
      with "1.prems"(1) Cons obtain d ds where bs: "bs = d # ds"
        by (cases bs) (simp_all add: render.simps(2))
      obtain q where q: "q = p + 1 + 1" by blast
      have d: "kmem s (p + 1) = of_char d" "cstr (kmem s) q ds" using c(3) bs q by simp_all
      have p25: "kmem s p = 0x25" using c(1) True by simp
      note step = serial_format_directive [OF p25 d(1) q]
      note go = IH [OF _ _ _ d(2)]
      have len: "length ds < length cs" using Cons bs by simp
      show ?thesis
      proof (cases "directive serial_code_conv d")
        case (Some f)
        then obtain a xs' u t where a: "xs = a # xs'" "f a = Some u" "render serial_code_conv ds xs' = Some t" "out = u @ t"
          using "1.prems"(1) Cons bs True by (auto simp: render.simps(2) bind_eq_Some_conv split: list.splits)
        have mem': "strings_ok (kmem s) xs'" "plain_args xs'" using mem(2,3) a(1) by simp_all
        note rest = go [OF len a(3) _ mem']
        consider "d = CHR ''s''" "f = arg_text" | "d = CHR ''d''" "f = (\<lambda>a. Some (conv_d serial_code_conv (arg_word a)))"
          | "d = CHR ''x''" "f = (\<lambda>a. Some (conv_x serial_code_conv (arg_word a)))"
          | "d = CHR ''p''" "f = (\<lambda>a. Some (conv_p serial_code_conv (arg_word a)))"
          using Some by (auto simp: directive_def split: if_splits)
        then show ?thesis
        proof cases
          case 1
          then obtain b where b: "a = Str b u" using a(2) by (cases a) auto
          then have "serial_format b [] s = serial_putchars u s"
            using mem(2,3) a(1) by (intro serial_format_plain) auto
          then show ?thesis
            unfolding step a(1,4) using 1 b by (simp add: serial_then [OF _ rest])
        next
          case 2
          then show ?thesis
            unfolding step a(1,4) using a(2) by (simp add: serial_code_conv_def serial_conv_def serial_then [OF _ rest])
        next
          case 3
          then show ?thesis
            unfolding step a(1,4) using a(2) by (simp add: serial_code_conv_def serial_conv_def serial_put_number_show serial_then [OF _ rest])
        next
          case 4
          then have u: "u = ''0x'' @ show_number 16 (unat (ucast (arg_word a) :: u32))"
            using a(2) by (simp add: serial_code_conv_def serial_conv_def)
          have "do { s1 \<leftarrow> serial_putchars ''0x'' s; s2 \<leftarrow> serial_put_number (ucast (arg_word a)) 16 s1;
              serial_format q (map arg_word xs') s2 } = serial_putchars (u @ t) s"
            unfolding u append.assoc by (intro serial_then refl) (simp_all add: serial_put_number_show rest)
          then show ?thesis unfolding step a(1,4) using 4 by simp
        qed
      next
        case None
        then have nd: "d \<noteq> CHR ''s''" "d \<noteq> CHR ''d''" "d \<noteq> CHR ''x''" "d \<noteq> CHR ''p''"
          by (auto simp: directive_def)
        consider (llx) "d = CHR ''l''" "take 2 ds = ''lx''" | (l) "d = CHR ''l''" "take 2 ds \<noteq> ''lx''"
          | (percent) "d = CHR ''%''" | (other) "d \<noteq> CHR ''l''" "d \<noteq> CHR ''%''" by blast
        then show ?thesis
        proof cases
          case llx
          then obtain es where es: "ds = CHR ''l'' # CHR ''x'' # es"
            by (cases ds; cases "tl ds") (auto simp: numeral_2_eq_2)
          obtain a xs' t where a: "xs = a # xs'" "render serial_code_conv es xs' = Some t"
            "out = show_number 16 (unat (arg_word a)) @ t"
            using "1.prems"(1) Cons bs True None llx es
            by (auto simp: render.simps(2) bind_eq_Some_conv serial_code_conv_def serial_conv_def split: list.splits)
          have mem': "strings_ok (kmem s) xs'" "plain_args xs'" using mem(2,3) a(1) by simp_all
          have lx: "kmem s q = 0x6C" "kmem s (q + 1) = 0x78" "cstr (kmem s) (q + 2) es"
            using d(2) es by (simp_all add: add.assoc)
          have "length es < length cs" using len es by simp
          note rest = IH [OF this a(2) _ lx(3) mem']
          show ?thesis
            unfolding step a(1,3) using llx lx
            by (simp add: serial_put_hex64_show serial_then [OF refl rest])
        next
          case l
          have "\<not> (kmem s q = 0x6C \<and> kmem s (q + 1) = 0x78)"
          proof
            assume lx: "kmem s q = 0x6C \<and> kmem s (q + 1) = 0x78"
            then obtain e es where "ds = e # es" using d(2) by (cases ds) auto
            with lx d(2) l(2) show False by (cases es) (auto simp: byte_char)
          qed
          moreover have "render serial_code_conv ds xs = Some out"
            using "1.prems"(1) Cons bs True None l by (simp add: render.simps(2))
          ultimately show ?thesis
            unfolding step list.map using l go [OF len _ refl mem(2,3)] by (simp only: if_False char.inject simp_thms if_True)
        next
          case percent
          then obtain t where t: "render serial_code_conv ds xs = Some t" "out = ''%'' @ t"
            using "1.prems"(1) Cons bs True None by (auto simp: render.simps(2) bind_eq_Some_conv)
          have "do { s1 \<leftarrow> serial_putchar 0x25 s; serial_format q (map arg_word xs) s1 } = serial_putchars out s"
            unfolding t(2) by (rule serial_then) (simp_all add: go [OF len t(1) _ mem(2,3)])
          then show ?thesis unfolding step using percent by simp
        next
          case other
          have "render serial_code_conv ds xs = Some out"
            using "1.prems"(1) Cons bs True None other by (simp add: render.simps(2))
          then show ?thesis
            unfolding step using nd other go [OF len _ refl mem(2,3)] by simp
        qed
      qed
    qed
  qed
qed

section \<open>Properties\<close>

text \<open>
  C20: \<^verbatim>\<open>serial_print\<close> is an interpreter for its format language: on a format string in memory, with
  string arguments that contain no \<^verbatim>\<open>%\<close> and pointer arguments below 4 GiB, it does exactly what sending the
  rendered text character by character does, for every answer of the device; and when the device keeps
  becoming ready, it returns and the bytes of that text are what went out.
\<close>

theorem serial_print_renders:
  assumes "cstr (kmem s) p cs" "strings_ok (kmem s) xs" "plain_args xs" "low_pointers cs xs"
    and "render serial_conv cs xs = Some out"
  shows "serial_print p (map arg_word xs) s = serial_putchars out s \<and>
    (uart_ready s \<longrightarrow> (\<exists>s'. serial_print p (map arg_word xs) s = Some s' \<and> sent s (map of_char out) s'))"
proof -
  have "render serial_code_conv cs xs = Some out" using assms(5) serial_code_renders [OF assms(4)] by simp
  from serial_format_renders [OF this assms(1-3)] serial_putchars_sent [of s out] show ?thesis
    by (simp add: serial_print_def)
qed

text \<open>The pointers are the restriction: of one above 4 GiB only the low half is printed.\<close>

lemma serial_code_conv_pointer:
  "conv_p serial_code_conv 0xFFFFE00000001000 = ''0x1000''" "conv_p serial_conv 0xFFFFE00000001000 = ''0xffffe00000001000''"
  by (simp_all add: serial_code_conv_def serial_conv_def show_number_def digits_of.simps digit_char_def)

text \<open>A machine whose memory holds the format \<^verbatim>\<open>"%d:%p"\<close> at 0x1000 and whose port is ready.\<close>

definition serial_example :: machine where
  "serial_example = \<lparr>cpu_rflags = 0x202, cpu_cr3 = 0, cpu_msr = (\<lambda>_. 0), port_out = [], port_in = (\<lambda>_ _. 0x20),
     port_reads = 0, mmio_out = [], mmio_in = (\<lambda>_ _. 0), mmio_reads = 0, tlb_invalidated = [],
     kmem = (\<lambda>_. 0)(0x1000 := 0x25, 0x1001 := 0x64, 0x1002 := 0x3A, 0x1003 := 0x25, 0x1004 := 0x70),
     pmem = (\<lambda>_. 0)\<rparr>"

theorem serial_print_renders_witness:
  "\<exists>s'. serial_print 0x1000 [- 42, 255] serial_example = Some s' \<and> sent serial_example (map of_char ''-42:0xff'') s'"
proof -
  have m: "cstr (kmem serial_example) 0x1000 ''%d:%p''" by (simp add: serial_example_def)
  have a: "strings_ok (kmem serial_example) [Num (- 42), Num 255]" "plain_args [Num (- 42), Num 255]"
    by (simp_all add: plain_args_def)
  have l: "low_pointers ''%d:%p'' [Num (- 42), Num 255]" by (simp add: low_pointers_def directives.simps(2))
  have r: "uart_ready serial_example" by (auto simp: uart_ready_def serial_example_def)
  have "digits_of 10 42 = [4, 2]" "digits_of 16 255 = [15, 15]"
    by (simp_all add: digits_of.simps)
  then have "render serial_conv ''%d:%p'' [Num (- 42), Num 255] = Some ''-42:0xff''"
    by (simp add: render.simps(2) directive_def serial_conv_def show_int_def show_number_def digit_char_def int_of_u64_def)
  from conjunct2 [OF serial_print_renders [OF m a l this]] r show ?thesis by simp
qed

text \<open>
  a number printed by \<^verbatim>\<open>serial_put_number\<close> can be read back: for the bases 2 to 16 the bytes sent
  are digits whose positional value is the number, with no leading zero, at most 32 of them,
  which is the size of the buffer.
\<close>

theorem serial_put_number_reads_back:
  assumes "uart_ready s" "2 \<le> unat base" "unat base \<le> 16"
  shows "\<exists>s' ds. serial_put_number num base s = Some s' \<and> sent s (map of_char ds) s' \<and>
    digits_value (unat base) (map char_digit ds) = unat num \<and> length ds \<le> 32 \<and>
    (num \<noteq> 0 \<longrightarrow> char_digit (hd ds) \<noteq> 0)"
proof -
  let ?b = "unat base" and ?n = "unat num"
  have "?n < 2 ^ 32" using unsigned_less [where 'a = nat and w = num] by simp
  also have "(2 :: nat) ^ 32 \<le> ?b ^ 32" using assms(2) by (rule power_mono) simp
  finally have "length (show_number ?b ?n) \<le> 32"
    using digits_of_length [OF assms(2), of ?n 32] by (simp add: show_number_def)
  moreover have "char_digit (hd (show_number ?b ?n)) \<noteq> 0" if "num \<noteq> 0"
  proof -
    have "0 < ?n" using that by (simp add: unat_gt_0)
    then have "hd (digits_of ?b ?n) \<noteq> 0" by (rule digits_of_hd [OF assms(2)])
    moreover have "hd (digits_of ?b ?n) < ?b"
      by (rule digits_of_range [OF assms(2) hd_in_set [OF digits_of_nonempty]])
    ultimately show ?thesis
      using assms(3) by (simp add: show_number_def hd_map [OF digits_of_nonempty] char_digit_char)
  qed
  ultimately show ?thesis
    using serial_put_number_sent [OF assms, of num] read_show_number [OF assms(2,3), of ?n] by blast
qed

theorem serial_put_number_reads_back_witness:
  "\<exists>s' ds. serial_put_number 0xBEEF 16 serial_example = Some s' \<and> sent serial_example (map of_char ds) s' \<and>
    digits_value 16 (map char_digit ds) = 0xBEEF"
proof -
  have "uart_ready serial_example" by (auto simp: uart_ready_def serial_example_def)
  from serial_put_number_reads_back [OF this, of 16 "0xBEEF"] show ?thesis by auto
qed

text \<open>
  C32: \<^verbatim>\<open>itoa\<close>, with its mirrored digit table and the in-place reversal, writes the positional
  notation of the absolute value in every base from 2 to 36, with a minus sign only in base 10,
  for every value including the most negative one; and for any other base the empty string.
\<close>

theorem itoa_positional:
  "itoa val base = Some
     (if 2 \<le> base \<and> base \<le> 36 then
        (if val < 0 \<and> base = 10 then ''-'' else []) @ map itoa_digit (digits_of (nat base) (nat \<bar>val\<bar>))
      else [])"
proof (cases "2 \<le> base \<and> base \<le> 36")
  case True
  then show ?thesis using itoa_correct [of base val] by simp
next
  case False
  then show ?thesis by (auto simp: itoa_def)
qed

text \<open>
  C33: \<^verbatim>\<open>%s\<close> treats its argument as a format: printing the string \<^verbatim>\<open>"%d"\<close>, or any string that starts
  with that directive, fetches an argument the nested call was never given, which is undefined.
\<close>

theorem serial_print_string_as_format:
  assumes "cstr (kmem s) p ''%s''" "cstr (kmem s) a (''%d'' @ cs)"
  shows "serial_print p [a] s = None"
proof -
  have "serial_format a [] s = None"
    using assms(2) by (subst serial_format_directive [of s a "CHR ''d''" "a + 1 + 1"]) simp_all
  then show ?thesis
    using assms(1) unfolding serial_print_def
    by (subst serial_format_directive [of s p "CHR ''s''" "p + 1 + 1"]) simp_all
qed

theorem serial_print_string_as_format_witness:
  "serial_print 0x1000 [0x2000] (serial_example\<lparr>kmem := (\<lambda>_. 0)(0x1000 := 0x25, 0x1001 := 0x73, 0x2000 := 0x25, 0x2001 := 0x64)\<rparr>) = None"
  by (rule serial_print_string_as_format [where cs = "[]"]) simp_all

end
