(* ===== verification/Vmm.thy ===== *)
theory Vmm
  imports Pmm Cstring Serial
begin

text \<open>
  The virtual memory manager, \<^verbatim>\<open>mm/vmm.c\<close>. A page table is a page of 512 entries in physical
  memory, which the code reaches through the direct map: the virtual address \<^verbatim>\<open>phys + DIRECT_OFFSET\<close>
  is the byte \<^verbatim>\<open>phys\<close> of \<^verbatim>\<open>pmem\<close>. While the direct map is being built, tables are reached through the
  window that \<^verbatim>\<open>boot.s\<close> maps at \<^verbatim>\<open>KERNEL_OFFSET\<close>, which ends at 128 MiB: a table above it is a page fault,
  None. The lemmas relate the operations to the page walk of the processor.
\<close>

section \<open>Entries\<close>

abbreviation PTE_PRESENT :: u64 where "PTE_PRESENT \<equiv> 1"
abbreviation PTE_WRITABLE :: u64 where "PTE_WRITABLE \<equiv> 2"
abbreviation PTE_USER :: u64 where "PTE_USER \<equiv> 4"
abbreviation PTE_PAGE_SIZE :: u64 where "PTE_PAGE_SIZE \<equiv> 0x80"

definition vmm_index :: "nat \<Rightarrow> u64 \<Rightarrow> u64" where
  "vmm_index sh vaddr = drop_bit sh vaddr AND 0x1FF"

definition pte :: "mem \<Rightarrow> u64 \<Rightarrow> u64 \<Rightarrow> u64" where
  "pte m table idx = ld64 m (table + 8 * idx)"

definition set_pte :: "mem \<Rightarrow> u64 \<Rightarrow> u64 \<Rightarrow> u64 \<Rightarrow> mem" where
  "set_pte m table idx v = st64 m (table + 8 * idx) v"

section \<open>Operations\<close>

text \<open>
  The block that \<^verbatim>\<open>vmm_map_page\<close> repeats for each level: make sure that the entry leads to a table,
  taking a cleared frame for a new one, and open the path to user mode if the page is to be.
  The result of \<^verbatim>\<open>pmm_alloc_page\<close> is not checked, in the code as here.
\<close>

definition vmm_step :: "u64 \<Rightarrow> u64 \<Rightarrow> u64 \<Rightarrow> 'a pmm_scheme \<Rightarrow> 'a pmm_scheme option" where
  "vmm_step table idx flags s =
     (if pte (pmem s) table idx AND PTE_PRESENT = 0 then do {
        (new_table_phys, s1) \<leftarrow> pmm_alloc_page s;
        let m = memset (pmem s1) new_table_phys 0 PAGE_SIZE_4KB;
            e = (if flags AND PTE_USER \<noteq> 0 then new_table_phys OR (PTE_PRESENT OR PTE_WRITABLE OR PTE_USER)
                 else new_table_phys OR (PTE_PRESENT OR PTE_WRITABLE))
        in Some (s1\<lparr>pmem := set_pte m table idx e\<rparr>)
      }
      else if flags AND PTE_USER \<noteq> 0
      then Some (s\<lparr>pmem := set_pte (pmem s) table idx (pte (pmem s) table idx OR PTE_USER)\<rparr>)
      else Some s)"

definition vmm_next :: "u64 \<Rightarrow> u64 \<Rightarrow> 'a pmm_scheme \<Rightarrow> u64" where
  "vmm_next table idx s = pte (pmem s) table idx AND PAGE_MASK_4KB"

definition vmm_map_page :: "u64 \<Rightarrow> u64 \<Rightarrow> u64 \<Rightarrow> u64 \<Rightarrow> u64 \<Rightarrow> 'a pmm_scheme \<Rightarrow> 'a pmm_scheme option" where
  "vmm_map_page pml4 paddr vaddr ps flags s =
     (let pml4_indx = vmm_index 39 vaddr; pdpt_indx = vmm_index 30 vaddr; pd_indx = vmm_index 21 vaddr in do {
        s1 \<leftarrow> vmm_step pml4 pml4_indx flags s;
        let pdpt = vmm_next pml4 pml4_indx s1;
        s2 \<leftarrow> vmm_step pdpt pdpt_indx flags s1;
        let pd = vmm_next pdpt pdpt_indx s2;
        if ps = PAGE_SIZE_4KB then do {
          let pt_indx = vmm_index 12 vaddr;
          s3 \<leftarrow> vmm_step pd pd_indx flags s2;
          let pt = vmm_next pd pd_indx s3;
          Some (invalidate vaddr (s3\<lparr>pmem := set_pte (pmem s3) pt pt_indx (paddr OR (PTE_PRESENT OR flags))\<rparr>))
        }
        else if ps = PAGE_SIZE_2MB then
          Some (invalidate vaddr (s2\<lparr>pmem := set_pte (pmem s2) pd pd_indx
            (paddr OR (PTE_PRESENT OR PTE_PAGE_SIZE OR flags))\<rparr>))
        else serial_putchars ''Wrong Page Size.\<newline>'' s2
      })"

text \<open>
  \<^verbatim>\<open>vmm_get_entry\<close> returns a pointer to the entry and stores the level through its argument; NULL
  is None, and the pointer is given as the physical address of the entry.
\<close>

definition vmm_get_entry :: "u64 \<Rightarrow> u64 \<Rightarrow> 'a pmm_scheme \<Rightarrow> (u64 \<times> nat) option" where
  "vmm_get_entry pml4 vaddr s =
     (let pml4_indx = vmm_index 39 vaddr; pdpt_indx = vmm_index 30 vaddr;
          pd_indx = vmm_index 21 vaddr; pt_indx = vmm_index 12 vaddr; m = pmem s
      in if pte m pml4 pml4_indx AND PTE_PRESENT = 0 then None
         else if pte m pml4 pml4_indx AND PTE_PAGE_SIZE \<noteq> 0 then Some (pml4 + 8 * pml4_indx, 3)
         else
           let pdpt = pte m pml4 pml4_indx AND PAGE_MASK_4KB
           in if pte m pdpt pdpt_indx AND PTE_PRESENT = 0 then None
              else if pte m pdpt pdpt_indx AND PTE_PAGE_SIZE \<noteq> 0 then Some (pdpt + 8 * pdpt_indx, 2)
              else
                let pd = pte m pdpt pdpt_indx AND PAGE_MASK_4KB
                in if pte m pd pd_indx AND PTE_PRESENT = 0 then None
                   else if pte m pd pd_indx AND PTE_PAGE_SIZE \<noteq> 0 then Some (pd + 8 * pd_indx, 2)
                   else
                     let pt = pte m pd pd_indx AND PAGE_MASK_4KB
                     in Some (pt + 8 * pt_indx, 0))"

definition vmm_unmap_page :: "u64 \<Rightarrow> u64 \<Rightarrow> 'a pmm_scheme \<Rightarrow> u64 \<times> 'a pmm_scheme" where
  "vmm_unmap_page pml4 vaddr s =
     (case vmm_get_entry pml4 vaddr s of
        Some (entry, level) \<Rightarrow>
          let old_entry = ld64 (pmem s) entry;
              paddr = old_entry AND PAGE_MASK_4KB
          in (paddr, invalidate vaddr (s\<lparr>pmem := st64 (pmem s) entry 0\<rparr>))
      | None \<Rightarrow> (0, s))"

text \<open>
  While the direct map is built, a table at \<^verbatim>\<open>phys\<close> is accessed at \<^verbatim>\<open>phys + KERNEL_OFFSET\<close>. Of these addresses
  \<^verbatim>\<open>boot.s\<close> maps 64 pages of 2 MiB, physical memory from 0 on, and nothing else (its identity map is
  removed again before \<^verbatim>\<open>kernel_main\<close>): an access to another table is a page fault, None. \<^verbatim>\<open>boot_step\<close> is the
  block that the loop repeats for the first two levels.
\<close>

abbreviation BOOT_WINDOW :: u64 where "BOOT_WINDOW \<equiv> 0x8000000"

definition in_window :: "u64 \<Rightarrow> bool" where
  "in_window phys \<longleftrightarrow> phys \<le> BOOT_WINDOW - PAGE_SIZE_4KB"

definition boot_step :: "u64 \<Rightarrow> u64 \<Rightarrow> 'a pmm_scheme \<Rightarrow> 'a pmm_scheme option" where
  "boot_step table idx s =
     (if \<not> in_window table then None
      else if pte (pmem s) table idx AND PTE_PRESENT = 0 then do {
        (new_table_phys, s1) \<leftarrow> pmm_alloc_page s;
        if in_window new_table_phys then
          let m = memset (pmem s1) new_table_phys 0 PAGE_SIZE_4KB
          in Some (s1\<lparr>pmem := set_pte m table idx (new_table_phys OR (PTE_PRESENT OR PTE_WRITABLE))\<rparr>)
        else None
      }
      else Some s)"

text \<open>The loop over physical memory; its counter can wrap, so it is partial.\<close>

partial_function (option) vmm_direct_loop :: "u64 \<Rightarrow> u64 \<Rightarrow> u64 \<Rightarrow> 'a pmm_scheme \<Rightarrow> 'a pmm_scheme option" where
  "vmm_direct_loop pml4 paddr maxAddr s =
     (if paddr < maxAddr then
        let vaddr = paddr + DIRECT_OFFSET;
            pml4_indx = vmm_index 39 vaddr; pdpt_indx = vmm_index 30 vaddr; pd_indx = vmm_index 21 vaddr
        in do {
          s1 \<leftarrow> boot_step pml4 pml4_indx s;
          let pdpt = vmm_next pml4 pml4_indx s1;
          s2 \<leftarrow> boot_step pdpt pdpt_indx s1;
          let pd = vmm_next pdpt pdpt_indx s2;
          if in_window pd then
            vmm_direct_loop pml4 (paddr + PAGE_SIZE_2MB) maxAddr
              (s2\<lparr>pmem := set_pte (pmem s2) pd pd_indx (paddr OR (PTE_PRESENT OR PTE_WRITABLE OR PTE_PAGE_SIZE))\<rparr>)
          else None
        }
      else Some s)"

definition vmm_init_direct_mapping :: "u64 \<Rightarrow> 'a pmm_scheme \<Rightarrow> 'a pmm_scheme option" where
  "vmm_init_direct_mapping maxAddr s = do {
     (pml4_phys, s1) \<leftarrow> pmm_alloc_page s;
     if in_window pml4_phys \<and> in_window (read_cr3 s1) then do {
       let m = memset (pmem s1) pml4_phys 0 PAGE_SIZE_4KB;
       let s2 = s1\<lparr>pmem := set_pte m pml4_phys 511 (pte m (read_cr3 s1) 511)\<rparr>;
       s3 \<leftarrow> vmm_direct_loop pml4_phys 0 maxAddr s2;
       Some (write_cr3 pml4_phys s3)
     }
     else None
   }"

abbreviation MSR_IA32_PAT :: u32 where "MSR_IA32_PAT \<equiv> 0x277"

definition init_pat :: "'a machine_scheme \<Rightarrow> 'a machine_scheme" where
  "init_pat s =
     (let (low, high) = read_msr MSR_IA32_PAT s
      in write_msr MSR_IA32_PAT low ((high AND NOT 0xFF) OR 0x06) s)"

section \<open>The page walk of the processor\<close>

text \<open>
  The reference: the walk along a list of indices, through present entries, to a page entry: at
  the last level, or with the page-size bit. The result is the entry and the number of levels
  below it (0: a 4 KiB page, 1: 2 MiB, 2: 1 GiB). The address of the next table is in bits 12 to 51 of
  an entry; the page-size bit is reserved at the top level, where it makes the access fault. Not
  in it are the checks of the processor on other reserved bits and on the rights of the access.
\<close>

abbreviation PTE_ADDR_MASK :: u64 where "PTE_ADDR_MASK \<equiv> 0xFFFFFFFFFF000"

fun walk :: "mem \<Rightarrow> u64 \<Rightarrow> u64 list \<Rightarrow> (u64 \<times> nat) option" where
  "walk m t [] = None"
| "walk m t (i # is) =
     (let e = pte m t i in
      if e AND PTE_PRESENT = 0 then None
      else if is = [] then Some (e, 0)
      else if e AND PTE_PAGE_SIZE \<noteq> 0 then (if length is = 3 then None else Some (e, length is))
      else walk m (e AND PTE_ADDR_MASK) is)"

definition vmm_path :: "u64 \<Rightarrow> u64 list" where
  "vmm_path vaddr = [vmm_index 39 vaddr, vmm_index 30 vaddr, vmm_index 21 vaddr, vmm_index 12 vaddr]"

definition vmm_walk :: "'a pmm_scheme \<Rightarrow> u64 \<Rightarrow> u64 \<Rightarrow> (u64 \<times> nat) option" where
  "vmm_walk s pml4 vaddr = walk (pmem s) pml4 (vmm_path vaddr)"

text \<open>
  The walk as the code reads the entries, with \<^verbatim>\<open>PAGE_MASK_4KB\<close> for the address and the page-size bit
  at every level: the two agree on well-formed tables (\<^verbatim>\<open>vmm_walk_soft\<close>), and the lemmas up to there are
  about this one.
\<close>

fun soft_walk :: "mem \<Rightarrow> u64 \<Rightarrow> u64 list \<Rightarrow> (u64 \<times> nat) option" where
  "soft_walk m t [] = None"
| "soft_walk m t (i # is) =
     (let e = pte m t i in
      if e AND PTE_PRESENT = 0 then None
      else if is = [] \<or> e AND PTE_PAGE_SIZE \<noteq> 0 then Some (e, length is)
      else soft_walk m (e AND PAGE_MASK_4KB) is)"

definition vmm_soft :: "'a pmm_scheme \<Rightarrow> u64 \<Rightarrow> u64 \<Rightarrow> (u64 \<times> nat) option" where
  "vmm_soft s pml4 vaddr = soft_walk (pmem s) pml4 (vmm_path vaddr)"

text \<open>The table an entry leads to, and the table at the end of a path of indices.\<close>

definition child :: "u64 \<Rightarrow> u64 option" where
  "child e = (if e AND PTE_PRESENT = 0 \<or> e AND PTE_PAGE_SIZE \<noteq> 0 then None else Some (e AND PAGE_MASK_4KB))"

fun tbl :: "mem \<Rightarrow> u64 \<Rightarrow> u64 list \<Rightarrow> u64 option" where
  "tbl m t [] = Some t"
| "tbl m t (i # is) = (case child (pte m t i) of None \<Rightarrow> None | Some t' \<Rightarrow> tbl m t' is)"

definition idx_ok :: "u64 list \<Rightarrow> bool" where
  "idx_ok is \<longleftrightarrow> (\<forall>i \<in> set is. i < 512)"

lemma idx_ok_simps [simp]: "idx_ok []" "idx_ok (i # is) \<longleftrightarrow> i < 512 \<and> idx_ok is"
  "idx_ok (p @ q) \<longleftrightarrow> idx_ok p \<and> idx_ok q"
  by (auto simp: idx_ok_def)

lemma vmm_index_less: "vmm_index k v < 512"
proof -
  have "vmm_index k v \<le> 0x1FF" unfolding vmm_index_def by (rule word_and_le1)
  then show ?thesis by (simp add: word_le_nat_alt word_less_nat_alt)
qed

lemma vmm_path_ok [simp]: "idx_ok (vmm_path v)" "length (vmm_path v) = 4"
  by (simp_all add: vmm_path_def vmm_index_less)

lemma tbl_snoc: "tbl m t (p @ [i]) = (case tbl m t p of None \<Rightarrow> None | Some g \<Rightarrow> child (pte m g i))"
  by (induction p arbitrary: t) (auto split: option.splits)

lemma tbl_append: "tbl m t (p @ q) = (case tbl m t p of None \<Rightarrow> None | Some g \<Rightarrow> tbl m g q)"
  by (induction p arbitrary: t) (auto split: option.splits)

lemma walk_Some:
  "soft_walk m t is = Some (e, l) \<Longrightarrow> \<exists>q j r g. is = q @ j # r \<and> l = length r \<and> tbl m t q = Some g \<and> e = pte m g j \<and>
     e AND PTE_PRESENT \<noteq> 0 \<and> (r = [] \<or> e AND PTE_PAGE_SIZE \<noteq> 0)"
proof (induction m t "is" rule: soft_walk.induct)
  case (2 m t i "is")
  let ?e = "pte m t i"
  show ?case
  proof (cases "is = [] \<or> ?e AND PTE_PAGE_SIZE \<noteq> 0")
    case True
    with "2.prems" show ?thesis
      by (intro exI [of _ "[]"] exI [of _ i] exI [of _ "is"] exI [of _ t]) (auto simp: Let_def split: if_splits)
  next
    case False
    have pr: "?e AND PTE_PRESENT \<noteq> 0" and w: "soft_walk m (?e AND PAGE_MASK_4KB) is = Some (e, l)"
      using "2.prems" False by (auto simp: Let_def split: if_splits)
    obtain q j r g where q: "is = q @ j # r" "l = length r" "tbl m (?e AND PAGE_MASK_4KB) q = Some g" "e = pte m g j"
      "e AND PTE_PRESENT \<noteq> 0" "r = [] \<or> e AND PTE_PAGE_SIZE \<noteq> 0"
      using "2.IH" [OF refl pr False w] by blast
    have "tbl m t (i # q) = Some g" using pr False q(3) by (simp add: child_def)
    with q show ?thesis
      by (intro exI [of _ "i # q"] exI [of _ j] exI [of _ r] exI [of _ g]) auto
  qed
qed simp

lemma walk_SomeI:
  "tbl m t q = Some g \<Longrightarrow> e = pte m g j \<Longrightarrow> e AND PTE_PRESENT \<noteq> 0 \<Longrightarrow> r = [] \<or> e AND PTE_PAGE_SIZE \<noteq> 0 \<Longrightarrow>
    soft_walk m t (q @ j # r) = Some (e, length r)"
proof (induction q arbitrary: t)
  case (Cons i q)
  then show ?case by (auto simp: Let_def child_def split: if_splits)
qed auto

lemma walk_iff:
  "soft_walk m t is = Some (e, l) \<longleftrightarrow> (\<exists>q j r g. is = q @ j # r \<and> l = length r \<and> tbl m t q = Some g \<and> e = pte m g j \<and>
     e AND PTE_PRESENT \<noteq> 0 \<and> (r = [] \<or> e AND PTE_PAGE_SIZE \<noteq> 0))"
  using walk_Some walk_SomeI by blast

text \<open>
  Two page tables with the same tables at the same paths, whose entries agree unless neither is
  the end of a walk, translate alike.
\<close>

definition is_leaf :: "u64 \<Rightarrow> nat \<Rightarrow> bool" where
  "is_leaf e depth \<longleftrightarrow> e AND PTE_PRESENT \<noteq> 0 \<and> (depth = 3 \<or> e AND PTE_PAGE_SIZE \<noteq> 0)"

lemma walk_leaf:
  assumes "length is = 4"
  shows "soft_walk m t is = Some (e, l) \<longleftrightarrow> (\<exists>q j r g. is = q @ j # r \<and> l = length r \<and> tbl m t q = Some g \<and> e = pte m g j \<and>
     is_leaf e (length q))"
proof -
  have "r = [] \<longleftrightarrow> length q = 3" if "is = q @ j # r" for q j r
    using assms that by (cases r) auto
  then show ?thesis unfolding walk_iff is_leaf_def by blast
qed

section \<open>Well-formed page tables\<close>

text \<open>
  The tables form a tree: no frame is reached by two paths, and each is a frame in use and not
  frame 0. Physical memory has at most \<^verbatim>\<open>2 ^ 52\<close> bytes, the largest that the architecture allows, and the
  entries of the top level do not have the page-size bit, which is reserved there.
\<close>

definition pt_inv :: "'a pmm_scheme \<Rightarrow> u64 \<Rightarrow> bool" where
  "pt_inv s root \<longleftrightarrow> page_aligned root \<and> total_pages s \<le> 0x10000000000 \<and>
     (\<forall>i < 512. pte (pmem s) root i AND PTE_PRESENT \<noteq> 0 \<longrightarrow> pte (pmem s) root i AND PTE_PAGE_SIZE = 0) \<and>
     (\<forall>p q g. idx_ok p \<longrightarrow> idx_ok q \<longrightarrow> length p \<le> 3 \<longrightarrow> length q \<le> 3 \<longrightarrow>
        tbl (pmem s) root p = Some g \<longrightarrow> tbl (pmem s) root q = Some g \<longrightarrow> p = q) \<and>
     (\<forall>p g. idx_ok p \<longrightarrow> length p \<le> 3 \<longrightarrow> tbl (pmem s) root p = Some g \<longrightarrow> g \<noteq> 0 \<and> frame_used s g)"

lemma page_mask_aligned [simp]: "page_aligned (e AND PAGE_MASK_4KB)" "page_aligned (e AND - 0x1000)"
proof -
  show "page_aligned (e AND PAGE_MASK_4KB)"
    unfolding page_aligned_def by (intro bit_word_eqI) (auto simp: bit_simps)
  then show "page_aligned (e AND - 0x1000)" by simp
qed

lemma child_aligned: "child e = Some g \<Longrightarrow> page_aligned g"
  by (auto simp: child_def split: if_splits)

lemma tbl_aligned: "page_aligned t \<Longrightarrow> tbl m t p = Some g \<Longrightarrow> page_aligned g"
  by (induction p arbitrary: t) (auto split: option.splits dest: child_aligned)

lemma unat_entry_off: "i < 512 \<Longrightarrow> unat (8 * i :: u64) = 8 * unat i"
proof -
  assume "i < 512"
  then have "unat i < 512" by (simp add: word_less_nat_alt)
  then show ?thesis by (simp add: unat_word_ariths)
qed

lemma entry_off_bound: "i < 512 \<Longrightarrow> unat (8 * i :: u64) + 8 \<le> 4096"
proof -
  assume i: "i < 512"
  then have "unat i < 512" by (simp add: word_less_nat_alt)
  then show ?thesis using unat_entry_off [OF i] by simp
qed

lemma pte_set_pte:
  assumes "page_aligned t" "page_aligned g" "i < 512" "j < 512"
  shows "pte (set_pte m t i v) g j = (if g = t \<and> j = i then v else pte m g j)"
proof (cases "g = t \<and> j = i")
  case False
  have "t \<noteq> g \<or> unat (8 * i :: u64) + 8 \<le> unat (8 * j :: u64) \<or> unat (8 * j :: u64) + 8 \<le> unat (8 * i :: u64)"
  proof (cases "g = t")
    case True
    with False have "unat i \<noteq> unat j" by (simp add: word_unat_eq_iff)
    then show ?thesis using assms by (auto simp: unat_entry_off)
  qed simp
  then have "pte (set_pte m t i v) g j = pte m g j"
    unfolding pte_def set_pte_def using assms
    by (intro ld64_st64_page entry_off_bound) auto
  with False show ?thesis by auto
qed (simp add: pte_def set_pte_def)

lemma pte_memset:
  assumes "page_aligned f" "page_aligned g" "j < 512"
  shows "pte (memset m f 0 PAGE_SIZE_4KB) g j = (if g = f then 0 else pte m g j)"
proof -
  have b: "unat (8 * j :: u64) + 8 \<le> 4096" by (rule entry_off_bound [OF assms(3)])
  have off: "8 * j + of_nat k < 0x1000" if "k < 8" for k :: nat
    using b that by (simp add: word_less_nat_alt unat_word_ariths unat_of_nat)
  have byte: "memset m f 0 PAGE_SIZE_4KB (g + 8 * j + of_nat k) =
      (if g = f then 0 else m (g + 8 * j + of_nat k))" if k: "k < 8" for k :: nat
  proof (cases "g = f")
    case True
    have "g + 8 * j + of_nat k - f = 8 * j + of_nat k" by (simp add: True)
    then show ?thesis using off [OF k] True by (simp add: memset_get)
  next
    case False
    have "\<not> g + 8 * j + of_nat k - f < 0x1000"
    proof
      assume lt: "g + 8 * j + of_nat k - f < 0x1000"
      have "f + (g + 8 * j + of_nat k - f) = g + (8 * j + of_nat k)" by (simp add: add.assoc)
      with page_offset_eq [OF assms(1,2) lt off [OF k]] False show False by simp
    qed
    then show ?thesis using False by (simp add: memset_get)
  qed
  show ?thesis
  proof (cases "g = f")
    case True
    have "load_bytes n (memset m f 0 PAGE_SIZE_4KB) (g + 8 * j) = load_bytes n (\<lambda>_. 0) (g + 8 * j)" if "n \<le> 8" for n
      by (rule load_bytes_cong) (use that byte True in simp)
    moreover have "load_bytes n (\<lambda>_. 0) a = 0" for n a by (induction n arbitrary: a) simp_all
    ultimately show ?thesis using True by (simp add: pte_def ld64_def)
  next
    case False
    have "load_bytes 8 (memset m f 0 PAGE_SIZE_4KB) (g + 8 * j) = load_bytes 8 m (g + 8 * j)"
      by (rule load_bytes_cong) (use byte False in simp)
    with False show ?thesis by (simp add: pte_def ld64_def)
  qed
qed

lemma child_Some: "child e = Some g \<longleftrightarrow> e AND PTE_PRESENT \<noteq> 0 \<and> e AND PTE_PAGE_SIZE = 0 \<and> g = e AND PAGE_MASK_4KB"
  by (auto simp: child_def)

text \<open>Entries that lead to the same tables give the same paths.\<close>

lemma tbl_same:
  assumes "\<And>q g j. length q < k \<Longrightarrow> idx_ok q \<Longrightarrow> tbl m t q = Some g \<Longrightarrow> j < 512 \<Longrightarrow> child (pte m' g j) = child (pte m g j)"
  shows "length p \<le> k \<Longrightarrow> idx_ok p \<Longrightarrow> tbl m' t p = tbl m t p"
proof (induction p rule: rev_induct)
  case (snoc i p)
  then show ?case using assms [of p] by (auto simp: tbl_snoc split: option.split)
qed simp

text \<open>Linking a cleared table \<^verbatim>\<open>f\<close> into an entry that led nowhere adds one path.\<close>

lemma tbl_link:
  assumes inj: "\<And>q. idx_ok q \<Longrightarrow> length q < k \<Longrightarrow> tbl m r q = Some t \<Longrightarrow> q = p"
    and p: "tbl m r p = Some t" "child (pte m t i) = None" "child (pte m' t i) = Some f"
    and f: "\<And>j. j < 512 \<Longrightarrow> child (pte m' f j) = None"
    and same: "\<And>q g j. idx_ok q \<Longrightarrow> length q < k \<Longrightarrow> tbl m r q = Some g \<Longrightarrow> j < 512 \<Longrightarrow> (g, j) \<noteq> (t, i) \<Longrightarrow>
      child (pte m' g j) = child (pte m g j)"
  shows "idx_ok q \<Longrightarrow> length q \<le> k \<Longrightarrow> tbl m' r q = (if q = p @ [i] then Some f else tbl m r q)"
proof (induction q rule: rev_induct)
  case (snoc j q)
  have q: "idx_ok q" "j < 512" "length q < k" using snoc.prems by simp_all
  have IH: "tbl m' r q = (if q = p @ [i] then Some f else tbl m r q)" using snoc.IH q by simp
  show ?case
  proof (cases "q = p @ [i]")
    case True
    then have "tbl m r q = None" using p(1,2) by (simp add: tbl_snoc)
    then have "tbl m r (q @ [j]) = None" by (simp add: tbl_snoc)
    moreover have "tbl m' r (q @ [j]) = None"
      unfolding tbl_snoc [of m' r q] using True IH f [OF q(2)] by simp
    ultimately show ?thesis using True by simp
  next
    case False
    show ?thesis
    proof (cases "tbl m r q")
      case None
      with False IH p(1) show ?thesis by (auto simp: tbl_snoc)
    next
      case (Some g)
      show ?thesis
      proof (cases "(g, j) = (t, i)")
        case True
        with Some have "q = p" using inj q by blast
        with True False IH Some p(3) show ?thesis by (simp add: tbl_snoc)
      next
        case ne: False
        have "\<not> (q = p \<and> j = i)" using ne Some p(1) by auto
        with same [OF q(1,3) Some q(2) ne] False IH Some show ?thesis by (auto simp: tbl_snoc)
      qed
    qed
  qed
qed simp

text \<open>Two memories whose paths end in the same leaves translate alike.\<close>

lemma walk_same:
  assumes "\<And>q j g e. idx_ok q \<Longrightarrow> j < 512 \<Longrightarrow> length q \<le> 3 \<Longrightarrow>
      tbl m' t q = Some g \<and> e = pte m' g j \<and> is_leaf e (length q) \<longleftrightarrow>
      tbl m t q = Some g \<and> e = pte m g j \<and> is_leaf e (length q)"
    and "length is = 4" "idx_ok is"
  shows "soft_walk m' t is = soft_walk m t is"
proof -
  have "soft_walk m' t is = Some (e, l) \<longleftrightarrow> soft_walk m t is = Some (e, l)" for e l
  proof -
    have "is = q @ j # r \<Longrightarrow> idx_ok q \<and> j < 512 \<and> length q \<le> 3" for q j r
      using assms(2,3) by auto
    with assms(1) show ?thesis unfolding walk_leaf [OF assms(2)] by (metis (no_types))
  qed
  then show ?thesis by (metis option.exhaust surj_pair)
qed

lemma pt_invD:
  assumes "pt_inv s root"
  shows "page_aligned root"
    "idx_ok p \<Longrightarrow> idx_ok q \<Longrightarrow> length p \<le> 3 \<Longrightarrow> length q \<le> 3 \<Longrightarrow>
      tbl (pmem s) root p = Some g \<Longrightarrow> tbl (pmem s) root q = Some g \<Longrightarrow> p = q"
    "idx_ok p \<Longrightarrow> length p \<le> 3 \<Longrightarrow> tbl (pmem s) root p = Some g \<Longrightarrow> g \<noteq> 0 \<and> frame_used s g \<and> page_aligned g"
    "total_pages s \<le> 0x10000000000"
    "i < 512 \<Longrightarrow> pte (pmem s) root i AND PTE_PRESENT \<noteq> 0 \<Longrightarrow> pte (pmem s) root i AND PTE_PAGE_SIZE = 0"
  using assms tbl_aligned unfolding pt_inv_def by blast+

text \<open>On well-formed tables the processor walks as the code does.\<close>

lemma frame_address:
  assumes "frame_used s (e AND PAGE_MASK_4KB)" "total_pages s \<le> 0x10000000000"
  shows "e AND PTE_ADDR_MASK = e AND PAGE_MASK_4KB"
proof -
  let ?g = "e AND PAGE_MASK_4KB"
  have "?g div 0x1000 < 0x10000000000" using assms by (auto simp: frame_used_def)
  then have "unat ?g div 4096 < 2 ^ 40" by (simp add: word_less_nat_alt unat_div)
  then have "?g < 0x10000000000000" by (simp add: word_less_nat_alt)
  then have "?g AND mask 52 = ?g" by (intro less_mask_eq) simp
  moreover have "?g AND mask 52 = e AND (NOT 0xFFF AND mask 52)" by (simp only: and.assoc)
  moreover have "NOT 0xFFF AND mask 52 = PTE_ADDR_MASK" by (simp add: mask_eq_exp_minus_1)
  ultimately show ?thesis by simp
qed

lemma walk_soft:
  assumes inv: "pt_inv s root"
  shows "tbl (pmem s) root p = Some t \<Longrightarrow> idx_ok (p @ is) \<Longrightarrow> length p + length is = 4 \<Longrightarrow>
    walk (pmem s) t is = soft_walk (pmem s) t is"
proof (induction "is" arbitrary: p t)
  case (Cons i "is")
  let ?e = "pte (pmem s) t i"
  show ?case
  proof (cases "?e AND PTE_PRESENT = 0 \<or> is = []")
    case False
    then have pr: "?e AND PTE_PRESENT \<noteq> 0" and ne: "is \<noteq> []" by simp_all
    show ?thesis
    proof (cases "?e AND PTE_PAGE_SIZE = 0")
      case True
      then have "tbl (pmem s) root (p @ [i]) = Some (?e AND PAGE_MASK_4KB)"
        using Cons.prems(1) pr by (simp add: tbl_snoc child_def)
      moreover from this have "frame_used s (?e AND PAGE_MASK_4KB)"
        using pt_invD(3) [OF inv, of "p @ [i]"] Cons.prems ne by (cases "is") auto
      then have "?e AND PTE_ADDR_MASK = ?e AND PAGE_MASK_4KB" by (rule frame_address [OF _ pt_invD(4) [OF inv]])
      ultimately have "?e AND PTE_ADDR_MASK = ?e AND PAGE_MASK_4KB"
        "walk (pmem s) (?e AND PAGE_MASK_4KB) is = soft_walk (pmem s) (?e AND PAGE_MASK_4KB) is"
        using Cons.IH [of "p @ [i]" "?e AND PAGE_MASK_4KB"] Cons.prems by auto
      then show ?thesis using pr ne True by (simp add: Let_def)
    next
      case ps: False
      have "length is \<noteq> 3"
      proof
        assume "length is = 3"
        then have "t = root" using Cons.prems(1,3) by simp
        with ps pr pt_invD(5) [OF inv, of i] Cons.prems(2) show False by simp
      qed
      with ps pr ne show ?thesis by (simp add: Let_def)
    qed
  qed (auto simp: Let_def)
qed simp

lemma vmm_walk_soft: "pt_inv s root \<Longrightarrow> vmm_walk s root v = vmm_soft s root v"
  unfolding vmm_walk_def vmm_soft_def by (rule walk_soft [where p = "[]"]) simp_all

section \<open>Frames left\<close>

definition frames_left :: "'a pmm_scheme \<Rightarrow> nat \<Rightarrow> bool" where
  "frames_left s n \<longleftrightarrow> pmm_ok s \<and> 0 \<notin> free_frames s \<and> n \<le> card (free_frames s)"

lemma pmm_alloc_left:
  assumes "frames_left s (Suc n)"
  shows "\<exists>f bm. pmm_alloc_page s = Some (f, s\<lparr>bitmap := bm\<rparr>) \<and> f \<noteq> 0 \<and> page_aligned f \<and> \<not> frame_used s f \<and>
    frames_left (s\<lparr>bitmap := bm\<rparr>) n \<and> (\<forall>b. frame_used (s\<lparr>bitmap := bm\<rparr>) b \<longleftrightarrow> b = f \<or> frame_used s b)"
proof -
  have ok: "pmm_ok s" and nz: "0 \<notin> free_frames s" and card: "Suc n \<le> card (free_frames s)"
    using assms by (simp_all add: frames_left_def)
  have "free_frames s \<noteq> {}" using card by auto
  then obtain k where k: "lowest_free s = Some k" using lowest_free_None [of s] by fastforce
  let ?bm = "BITMAP_SET (bitmap s) k" and ?f = "k * PAGE_SIZE_4KB"
  have al: "pmm_alloc_page s = Some (?f, s\<lparr>bitmap := ?bm\<rparr>)"
    using ok k by (simp add: pmm_ok_def pmm_alloc_page_eq)
  note kf = lowest_free_Some [OF k]
  have fr: "free_frames (s\<lparr>bitmap := ?bm\<rparr>) = free_frames s - {k}" by (auto simp: free_frames_def)
  have kin: "k \<in> free_frames s" using kf by (simp add: free_frames_def)
  have "?f \<noteq> 0"
    using frame_addr_div [OF kf(1)] ok nz kin by (auto simp: pmm_ok_def)
  moreover from this have "page_aligned ?f \<and> \<not> frame_used s ?f \<and> frame_used (s\<lparr>bitmap := ?bm\<rparr>) ?f"
    using pmm.alloc_fresh [OF ok al] by blast
  moreover have "frame_used (s\<lparr>bitmap := ?bm\<rparr>) b = frame_used s b" if "b \<noteq> ?f" for b
    using pmm.alloc_other [OF ok al that] .
  moreover have "frames_left (s\<lparr>bitmap := ?bm\<rparr>) n"
    using card nz kin ok by (simp add: frames_left_def fr pmm_ok_def)
  ultimately show ?thesis using al by (intro exI [of _ ?f] exI [of _ ?bm]) metis
qed

section \<open>One level\<close>

definition pt_tables :: "'a pmm_scheme \<Rightarrow> u64 \<Rightarrow> u64 set" where
  "pt_tables s root = {g. \<exists>p. idx_ok p \<and> length p \<le> 3 \<and> tbl (pmem s) root p = Some g}"

text \<open>
  What building a path may change: frames become used, and of the frames that were in use only
  the bytes of the tables of this address space change.
\<close>

definition pt_step :: "u64 \<Rightarrow> 'a pmm_scheme \<Rightarrow> 'a pmm_scheme \<Rightarrow> bool" where
  "pt_step root s s' \<longleftrightarrow> s' = s\<lparr>bitmap := bitmap s', pmem := pmem s'\<rparr> \<and>
     (\<forall>b. frame_used s b \<longrightarrow> frame_used s' b) \<and>
     (\<forall>g \<in> pt_tables s' root. g \<in> pt_tables s root \<or> \<not> frame_used s g) \<and>
     (\<forall>g x. frame_used s g \<longrightarrow> g \<notin> pt_tables s root \<longrightarrow> x < 0x1000 \<longrightarrow> pmem s' (g + x) = pmem s (g + x))"

lemma pt_step_refl [simp]: "pt_step root s s"
  by (simp add: pt_step_def)

lemma pt_step_trans:
  assumes a: "pt_step root s t" and b: "pt_step root t u"
  shows "pt_step root s u"
proof -
  have "u = s\<lparr>bitmap := bitmap u, pmem := pmem u\<rparr>"
    using a b by (cases s; cases t; cases u) (simp add: pt_step_def)
  moreover have "g \<notin> pt_tables t root" if "frame_used s g" "g \<notin> pt_tables s root" for g
    using a that unfolding pt_step_def by blast
  ultimately show ?thesis
    using a b unfolding pt_step_def by (metis (no_types, lifting))
qed

lemma pt_tables_used: "pt_inv s root \<Longrightarrow> g \<in> pt_tables s root \<Longrightarrow> g \<noteq> 0 \<and> frame_used s g"
  unfolding pt_inv_def pt_tables_def by blast

lemma set_pte_byte:
  assumes "page_aligned t" "page_aligned g" "i < 512" "x < 0x1000" "g \<noteq> t"
  shows "set_pte m t i v (g + x) = m (g + x)"
  unfolding set_pte_def
proof (rule st64_other)
  fix k :: nat assume k: "k < 8"
  have "8 * i + of_nat k < 0x1000"
    using entry_off_bound [OF assms(3)] k by (simp add: word_less_nat_alt unat_word_ariths unat_of_nat)
  with page_offset_eq [OF assms(2,1,4) this] assms(5)
  show "g + x \<noteq> t + 8 * i + of_nat k" by (simp add: add.assoc)
qed

lemma memset_page_byte:
  assumes "page_aligned f" "page_aligned g" "x < 0x1000" "g \<noteq> f"
  shows "memset m f v PAGE_SIZE_4KB (g + x) = m (g + x)"
proof -
  have "\<not> g + x - f < 0x1000"
  proof
    assume lt: "g + x - f < 0x1000"
    have "f + (g + x - f) = g + x" by simp
    with page_offset_eq [OF assms(1,2) lt assms(3)] assms(4) show False by simp
  qed
  then show ?thesis by (simp add: memset_get)
qed

text \<open>Flag bits of entries.\<close>

lemma pte_bits:
  "(e :: u64) AND 1 = 0 \<longleftrightarrow> \<not> bit e 0" "e AND 4 = 0 \<longleftrightarrow> \<not> bit e 2" "e AND 0x80 = 0 \<longleftrightarrow> \<not> bit e 7"
  using and_exp_eq_0_iff_not_bit [of e 0] and_exp_eq_0_iff_not_bit [of e 2] and_exp_eq_0_iff_not_bit [of e 7]
  by simp_all

lemma mask_or:
  fixes f x :: u64
  assumes "page_aligned f" "x < 0x1000"
  shows "(f OR x) AND PAGE_MASK_4KB = f"
  using page_mask_offset [OF assms] page_add_or [OF assms] by simp

lemma table_entry:
  assumes "page_aligned f"
  shows "child (f OR 7) = Some f" "child (f OR 3) = Some f"
proof -
  have "bit (f OR 7) 0" "bit (f OR 3) 0" "\<not> bit (f OR 7) 7" "\<not> bit (f OR 3) 7"
    using assms by (simp_all add: page_aligned_bit bit_simps bit_numeral_rec)
  then show "child (f OR 7) = Some f" "child (f OR 3) = Some f"
    using mask_or [OF assms, of 7] mask_or [OF assms, of 3] by (simp_all add: child_def pte_bits)
qed

lemma user_entry: "child (e OR 4) = child e"
proof -
  have "(e OR 4) AND PAGE_MASK_4KB = e AND PAGE_MASK_4KB"
  proof (rule bit_word_eqI)
    fix n assume "n < LENGTH(64)"
    have "bit (4 :: u64) n \<longleftrightarrow> n = 2" using bit_exp_iff [where 'a = u64, of 2 n] by auto
    moreover have "bit (0xFFF :: u64) 2" by simp
    ultimately show "bit ((e OR 4) AND PAGE_MASK_4KB) n = bit (e AND PAGE_MASK_4KB) n"
      by (auto simp: bit_and_iff bit_or_iff bit_not_iff)
  qed
  moreover have "bit (e OR 4) 0 = bit e 0" "bit (e OR 4) 7 = bit e 7"
    by (simp_all add: bit_simps bit_numeral_rec)
  ultimately show ?thesis by (simp add: child_def pte_bits)
qed

text \<open>One level of \<^verbatim>\<open>vmm_map_page\<close>.\<close>

lemma vmm_step_new:
  assumes inv: "pt_inv s root" and p: "tbl (pmem s) root p = Some t" "idx_ok p" "length p \<le> 2" "i < 512"
    and none: "pte (pmem s) t i AND PTE_PRESENT = 0"
    and left: "frames_left s (Suc n)"
  shows "\<exists>s' f. vmm_step t i flags s = Some s' \<and> vmm_next t i s' = f \<and> tbl (pmem s') root (p @ [i]) = Some f \<and>
    pt_inv s' root \<and> frames_left s' n \<and> pt_step root s s' \<and> (flags AND PTE_USER \<noteq> 0 \<longrightarrow> bit (pte (pmem s') t i) 2) \<and>
    (\<forall>is. length is = 4 \<longrightarrow> idx_ok is \<longrightarrow> soft_walk (pmem s') root is = soft_walk (pmem s) root is)"
proof -
  obtain f bm where f: "pmm_alloc_page s = Some (f, s\<lparr>bitmap := bm\<rparr>)" "f \<noteq> 0" "page_aligned f" "\<not> frame_used s f"
    "frames_left (s\<lparr>bitmap := bm\<rparr>) n" "\<And>b. frame_used (s\<lparr>bitmap := bm\<rparr>) b \<longleftrightarrow> b = f \<or> frame_used s b"
    using pmm_alloc_left [OF left] by blast
  define v where "v = (if flags AND PTE_USER \<noteq> 0 then f OR 7 else f OR 3)"
  define m' where "m' = set_pte (memset (pmem s) f 0 PAGE_SIZE_4KB) t i v"
  define s' where "s' = s\<lparr>bitmap := bm, pmem := m'\<rparr>"
  have step: "vmm_step t i flags s = Some s'"
    using none f(1) by (simp add: vmm_step_def s'_def m'_def v_def)
  have root: "page_aligned root" and t: "page_aligned t" "frame_used s t" "f \<noteq> t"
    and tused: "\<And>q g. idx_ok q \<Longrightarrow> length q \<le> 3 \<Longrightarrow> tbl (pmem s) root q = Some g \<Longrightarrow> g \<noteq> 0 \<and> frame_used s g"
    and inj: "\<And>p q g. idx_ok p \<Longrightarrow> idx_ok q \<Longrightarrow> length p \<le> 3 \<Longrightarrow> length q \<le> 3 \<Longrightarrow>
      tbl (pmem s) root p = Some g \<Longrightarrow> tbl (pmem s) root q = Some g \<Longrightarrow> p = q"
    using p f(4) pt_invD(1-3) [OF inv] pt_invD(3) [OF inv p(2) _ p(1)] by (blast, force, force, force, blast, blast)
  have cv: "child v = Some f" by (simp add: v_def table_entry [OF f(3)])
  have get: "pte m' g j = (if g = t \<and> j = i then v else if g = f then 0 else pte (pmem s) g j)"
    if "page_aligned g" "j < 512" for g j
    by (simp only: m'_def pte_set_pte [OF t(1) that(1) p(4) that(2)] pte_memset [OF f(3) that])
  have tf: "page_aligned g" "g \<noteq> f" if "idx_ok q" "length q \<le> 3" "tbl (pmem s) root q = Some g" for q g
    using tused [OF that] f(4) tbl_aligned [OF root that(3)] by auto
  have tbl': "tbl m' root q = (if q = p @ [i] then Some f else tbl (pmem s) root q)" if "idx_ok q" "length q \<le> 3" for q
  proof (rule tbl_link [where k = 3, OF _ p(1) _ _ _ _ that])
    show "\<And>q. idx_ok q \<Longrightarrow> length q < 3 \<Longrightarrow> tbl (pmem s) root q = Some t \<Longrightarrow> q = p"
      using inj p by simp
    show "child (pte (pmem s) t i) = None" using none by (simp add: child_def)
    show "child (pte m' t i) = Some f" by (simp add: get [OF t(1) p(4)] cv)
    show "\<And>j. j < 512 \<Longrightarrow> child (pte m' f j) = None" using get [OF f(3)] t(3) by (simp add: child_def)
    show "child (pte m' g j) = child (pte (pmem s) g j)"
      if "idx_ok q" "length q < 3" "tbl (pmem s) root q = Some g" "j < 512" "(g, j) \<noteq> (t, i)" for q g j
      using that tf [of q g] get [of g j] by auto
  qed
  have used': "frame_used s' b \<longleftrightarrow> b = f \<or> frame_used s b" for b
    using f(6) [of b] by (simp add: frame_used_def s'_def)
  have pm': "pmem s' = m'" by (simp add: s'_def)
  have inv': "pt_inv s' root"
    unfolding pt_inv_def pm'
  proof (intro conjI allI impI root)
    show "total_pages s' \<le> 0x10000000000" using pt_invD(4) [OF inv] by (simp add: s'_def)
  next
    fix j :: u64 assume j: "j < 512" "pte m' root j AND PTE_PRESENT \<noteq> 0"
    have "root \<noteq> f" using tf(2) [of "[]" root] by simp
    then show "pte m' root j AND PTE_PAGE_SIZE = 0"
      using j get [OF root j(1)] cv pt_invD(5) [OF inv j(1)] by (auto simp: child_Some split: if_splits)
  next
    fix q r g
    assume a: "idx_ok q" "idx_ok r" "length q \<le> 3" "length r \<le> 3" "tbl m' root q = Some g" "tbl m' root r = Some g"
    have new: "g = f \<longleftrightarrow> z = p @ [i]" if "idx_ok z" "length z \<le> 3" "tbl m' root z = Some g" for z
      using tf(2) [OF that(1,2)] tbl' [OF that(1,2)] that(3) by (auto split: if_splits)
    show "q = r"
    proof (cases "g = f")
      case True
      then show ?thesis using new [OF a(1,3,5)] new [OF a(2,4,6)] by simp
    next
      case False
      then have "tbl (pmem s) root q = Some g" "tbl (pmem s) root r = Some g"
        using new [OF a(1,3,5)] new [OF a(2,4,6)] tbl' [OF a(1,3)] tbl' [OF a(2,4)] a(5,6) by simp_all
      then show ?thesis using inj a by blast
    qed
  next
    fix q g
    assume q: "idx_ok q" "length q \<le> 3" "tbl m' root q = Some g"
    then show "g \<noteq> 0" using tbl' tused f(2) by (auto split: if_splits)
    from q show "frame_used s' g"
      using tbl' tused used' by (auto split: if_splits)
  qed
  have "soft_walk m' root is = soft_walk (pmem s) root is" if "length is = 4" "idx_ok is" for "is"
  proof (rule walk_same [OF _ that])
    fix q and j g e :: u64
    assume q: "idx_ok q" "j < 512" "length q \<le> 3"
    show "tbl m' root q = Some g \<and> e = pte m' g j \<and> is_leaf e (length q) \<longleftrightarrow>
      tbl (pmem s) root q = Some g \<and> e = pte (pmem s) g j \<and> is_leaf e (length q)"
    proof (cases "q = p @ [i]")
      case True
      have "tbl (pmem s) root q = None" using True p(1) none by (simp add: tbl_snoc child_def)
      moreover have "\<not> is_leaf (pte m' f j) (length q)" using get [OF f(3) q(2)] t(3) by (simp add: is_leaf_def)
      ultimately show ?thesis using True tbl' [OF q(1,3)] by auto
    next
      case False
      then have eq: "tbl m' root q = tbl (pmem s) root q" using tbl' [OF q(1,3)] by simp
      show ?thesis
      proof (cases "tbl (pmem s) root q = Some g \<and> g = t \<and> j = i")
        case True
        then have "q = p" using inj q p by simp
        then have "\<not> is_leaf v (length q)" "\<not> is_leaf (pte (pmem s) g j) (length q)"
          using cv none p(3) True by (auto simp: is_leaf_def child_Some)
        then show ?thesis using True get [OF t(1) p(4)] by auto
      next
        case ne: False
        then show ?thesis unfolding eq using tf [OF q(1,3)] get [OF _ q(2)] by auto
      qed
    qed
  qed
  moreover have "pt_step root s s'"
    unfolding pt_step_def
  proof (intro conjI allI impI ballI)
    show "s' = s\<lparr>bitmap := bitmap s', pmem := pmem s'\<rparr>" by (simp add: s'_def)
    show "frame_used s' b" if "frame_used s b" for b using that used' by simp
    show "g \<in> pt_tables s root \<or> \<not> frame_used s g" if "g \<in> pt_tables s' root" for g
      using that tbl' f(4) by (auto simp: pt_tables_def s'_def split: if_splits)
    fix g and x :: u64 assume g: "frame_used s g" "g \<notin> pt_tables s root" "x < 0x1000"
    have "page_aligned g" "g \<noteq> f" using g(1) f(4) by (auto simp: frame_used_def)
    moreover have "t \<in> pt_tables s root" using p unfolding pt_tables_def by force
    then have "g \<noteq> t" using g(2) by auto
    ultimately show "pmem s' (g + x) = pmem s (g + x)"
      using f(3) t(1) p(4) g(3) by (simp add: s'_def m'_def set_pte_byte memset_page_byte)
  qed
  moreover have "frames_left s' n" using f(5) by (simp add: s'_def frames_left_def pmm_ok_def free_frames_def)
  moreover have "vmm_next t i s' = f"
    using cv by (simp add: vmm_next_def s'_def get [OF t(1) p(4)] child_Some)
  moreover have "tbl (pmem s') root (p @ [i]) = Some f" using tbl' [of "p @ [i]"] p by (simp add: s'_def)
  moreover have "flags AND PTE_USER \<noteq> 0 \<longrightarrow> bit (pte (pmem s') t i) 2"
    by (simp add: s'_def get [OF t(1) p(4)] v_def bit_or_iff)
  ultimately show ?thesis using step inv' by (intro exI [of _ s'] exI [of _ f]) (simp add: s'_def)
qed

lemma vmm_step_old:
  assumes inv: "pt_inv s root" and p: "tbl (pmem s) root p = Some t" "idx_ok p" "length p \<le> 2" "i < 512"
    and old: "child (pte (pmem s) t i) = Some f"
  shows "\<exists>s'. vmm_step t i flags s = Some s' \<and> vmm_next t i s' = f \<and> tbl (pmem s') root (p @ [i]) = Some f \<and>
    pt_inv s' root \<and> bitmap s' = bitmap s \<and> pt_step root s s' \<and> (flags AND PTE_USER \<noteq> 0 \<longrightarrow> bit (pte (pmem s') t i) 2) \<and>
    (\<forall>is. length is = 4 \<longrightarrow> idx_ok is \<longrightarrow> soft_walk (pmem s') root is = soft_walk (pmem s) root is)"
proof -
  define v where "v = (if flags AND PTE_USER \<noteq> 0 then pte (pmem s) t i OR 4 else pte (pmem s) t i)"
  define s' where "s' = (if flags AND PTE_USER \<noteq> 0 then s\<lparr>pmem := set_pte (pmem s) t i v\<rparr> else s)"
  have step: "vmm_step t i flags s = Some s'"
    using old by (simp add: vmm_step_def s'_def v_def child_Some)
  have t: "page_aligned t" using tbl_aligned [OF pt_invD(1) [OF inv] p(1)] .
  have cv: "child v = Some f" using old user_entry by (simp add: v_def)
  have get: "pte (pmem s') g j = (if g = t \<and> j = i then v else pte (pmem s) g j)" if "page_aligned g" "j < 512" for g j
    using pte_set_pte [OF t that(1) p(4) that(2), of "pmem s" v] by (cases "flags AND PTE_USER = 0") (auto simp: s'_def v_def)
  have ch: "child (pte (pmem s') g j) = child (pte (pmem s) g j)" if "page_aligned g" "j < 512" for g j
    using get [OF that] cv old by simp
  have tbl': "tbl (pmem s') root q = tbl (pmem s) root q" if "idx_ok q" "length q \<le> 3" for q
    by (rule tbl_same [where k = 3, OF _ that(2,1)]) (use ch tbl_aligned [OF pt_invD(1) [OF inv]] in blast)
  have other: "bitmap s' = bitmap s" "total_pages s' = total_pages s" "s' = s\<lparr>bitmap := bitmap s', pmem := pmem s'\<rparr>"
    by (simp_all add: s'_def)
  have used: "frame_used s' b = frame_used s b" for b using other(1,2) by (simp add: frame_used_def)
  have inv': "pt_inv s' root"
    unfolding pt_inv_def
  proof (intro conjI allI impI pt_invD(1) [OF inv])
    show "total_pages s' \<le> 0x10000000000" using pt_invD(4) [OF inv] other(2) by simp
    show "pte (pmem s') root j AND PTE_PAGE_SIZE = 0" if "j < 512" "pte (pmem s') root j AND PTE_PRESENT \<noteq> 0" for j
      using that get [OF pt_invD(1) [OF inv] that(1)] cv pt_invD(5) [OF inv that(1)] by (auto simp: child_Some split: if_splits)
  qed (use tbl' used pt_invD(2,3) [OF inv] in auto)
  have "soft_walk (pmem s') root is = soft_walk (pmem s) root is" if "length is = 4" "idx_ok is" for "is"
  proof (rule walk_same [OF _ that])
    fix q and j g e :: u64
    assume q: "idx_ok q" "j < 512" "length q \<le> 3"
    show "tbl (pmem s') root q = Some g \<and> e = pte (pmem s') g j \<and> is_leaf e (length q) \<longleftrightarrow>
      tbl (pmem s) root q = Some g \<and> e = pte (pmem s) g j \<and> is_leaf e (length q)"
    proof (cases "tbl (pmem s) root q = Some g \<and> g = t \<and> j = i")
      case True
      then have "tbl (pmem s) root q = Some t" by simp
      from pt_invD(2) [OF inv q(1) p(2) q(3) _ this p(1)] p(3) have "q = p" by simp
      then have "\<not> is_leaf v (length q)" "\<not> is_leaf (pte (pmem s) g j) (length q)"
        using cv old p(3) True by (auto simp: is_leaf_def child_Some)
      then show ?thesis using True get [OF t p(4)] by auto
    next
      case False
      then show ?thesis unfolding tbl' [OF q(1,3)] using pt_invD(3) [OF inv q(1,3)] get [OF _ q(2)] by auto
    qed
  qed
  moreover have "pt_step root s s'"
    unfolding pt_step_def
  proof (intro conjI allI impI ballI other(3))
    show "frame_used s' b" if "frame_used s b" for b using that used by simp
    show "g \<in> pt_tables s root \<or> \<not> frame_used s g" if "g \<in> pt_tables s' root" for g
      using that tbl' by (auto simp: pt_tables_def)
    fix g and x :: u64 assume g: "frame_used s g" "g \<notin> pt_tables s root" "x < 0x1000"
    have "t \<in> pt_tables s root" using p unfolding pt_tables_def by force
    then have "g \<noteq> t" using g(2) by auto
    with g show "pmem s' (g + x) = pmem s (g + x)"
      using t p(4) by (simp add: s'_def set_pte_byte frame_used_def)
  qed
  moreover have "vmm_next t i s' = f" using cv get [OF t p(4)] by (simp add: vmm_next_def child_Some)
  moreover have "tbl (pmem s') root (p @ [i]) = Some f" using tbl' [of "p @ [i]"] p old by (simp add: tbl_snoc)
  moreover have "flags AND PTE_USER \<noteq> 0 \<longrightarrow> bit (pte (pmem s') t i) 2"
    using get [OF t p(4)] by (simp add: v_def bit_or_iff)
  ultimately show ?thesis using step inv' other(1) by blast
qed

text \<open>Both cases: the translation stays as it is, and the path now goes one level further.\<close>

definition same_walks :: "u64 \<Rightarrow> 'a pmm_scheme \<Rightarrow> 'a pmm_scheme \<Rightarrow> bool" where
  "same_walks root s s' \<longleftrightarrow> (\<forall>is. length is = 4 \<longrightarrow> idx_ok is \<longrightarrow> soft_walk (pmem s') root is = soft_walk (pmem s) root is)"

lemma frames_leftI: "frames_left s (Suc n) \<Longrightarrow> frames_left s n"
  by (simp add: frames_left_def)

lemma frames_left_step: "frames_left s n \<Longrightarrow> pt_step root s s' \<Longrightarrow> bitmap s' = bitmap s \<Longrightarrow> frames_left s' n"
  by (cases s; cases s') (simp add: frames_left_def pt_step_def pmm_ok_def free_frames_def)

lemma vmm_step_ok:
  assumes inv: "pt_inv s root" and p: "tbl (pmem s) root p = Some t" "idx_ok p" "length p \<le> 2" "i < 512"
    and small: "pte (pmem s) t i AND PTE_PRESENT = 0 \<or> pte (pmem s) t i AND PTE_PAGE_SIZE = 0"
    and left: "frames_left s (Suc n)"
  shows "\<exists>s' f. vmm_step t i flags s = Some s' \<and> vmm_next t i s' = f \<and> tbl (pmem s') root (p @ [i]) = Some f \<and>
    pt_inv s' root \<and> frames_left s' n \<and> pt_step root s s' \<and> (flags AND PTE_USER \<noteq> 0 \<longrightarrow> bit (pte (pmem s') t i) 2) \<and>
    same_walks root s s'"
proof (cases "pte (pmem s) t i AND PTE_PRESENT = 0")
  case True
  from vmm_step_new [OF inv p True left] show ?thesis unfolding same_walks_def by blast
next
  case False
  then have "child (pte (pmem s) t i) = Some (pte (pmem s) t i AND PAGE_MASK_4KB)"
    using small by (simp add: child_def)
  from vmm_step_old [OF inv p this, of flags] frames_left_step [OF frames_leftI [OF left]]
  show ?thesis unfolding same_walks_def by blast
qed

section \<open>Writing the last entry\<close>

lemma tbl_cong:
  assumes "page_aligned t" "idx_ok p"
    "\<And>q j r g. p = q @ j # r \<Longrightarrow> tbl m t q = Some g \<Longrightarrow> pte m' g j = pte m g j"
  shows "tbl m' t p = tbl m t p"
  using assms
proof (induction p arbitrary: t)
  case (Cons i p)
  have "pte m' t i = pte m t i" using Cons.prems(3) [of "[]"] by simp
  moreover have "tbl m' t' p = tbl m t' p" if "child (pte m t i) = Some t'" for t'
  proof (rule Cons.IH [OF child_aligned [OF that]])
    show "pte m' g j = pte m g j" if "p = q @ j # r" "tbl m t' q = Some g" for q j r g
      using Cons.prems(3) [of "i # q"] that \<open>child (pte m t i) = Some t'\<close> by simp
  qed (use Cons.prems(2) in simp)
  ultimately show ?case by (simp split: option.split)
qed simp

lemma walk_cong:
  assumes "\<And>q j r g. is = q @ j # r \<Longrightarrow> tbl m t q = Some g \<Longrightarrow> pte m' g j = pte m g j"
  shows "soft_walk m' t is = soft_walk m t is"
  using assms
proof (induction "is" arbitrary: t)
  case (Cons i "is")
  have "pte m' t i = pte m t i" using Cons.prems [of "[]"] by simp
  moreover have "soft_walk m' t' is = soft_walk m t' is" if "child (pte m t i) = Some t'" for t'
  proof (rule Cons.IH)
    show "pte m' g j = pte m g j" if "is = q @ j # r" "tbl m t' q = Some g" for q j r g
      using Cons.prems [of "i # q"] that \<open>child (pte m t i) = Some t'\<close> by simp
  qed
  ultimately show ?case by (auto simp: Let_def child_def)
qed simp

lemma walk_append: "tbl m t p = Some g \<Longrightarrow> soft_walk m t (p @ j # r) = soft_walk m g (j # r)"
proof (induction p arbitrary: t)
  case (Cons i p)
  then show ?case by (auto simp: Let_def child_def split: if_splits)
qed simp

lemma set_leaf:
  assumes inv: "pt_inv s root" and p: "tbl (pmem s) root p = Some t" "idx_ok p" "length p \<le> 3" "i < 512"
    and leaf: "length p = 3 \<or> child v = None" and top: "p = [] \<longrightarrow> v AND PTE_PRESENT = 0"
  defines "s' \<equiv> s\<lparr>pmem := set_pte (pmem s) t i v\<rparr>"
  shows "pt_inv s' root" "pt_step root s s'" "pte (pmem s') t i = v"
    "\<And>r. length (p @ i # r) = 4 \<Longrightarrow> soft_walk (pmem s') root (p @ i # r) =
      (if v AND PTE_PRESENT = 0 then None else Some (v, length r))"
    "\<And>is. idx_ok is \<Longrightarrow> length is = 4 \<Longrightarrow> take (Suc (length p)) is \<noteq> p @ [i] \<Longrightarrow>
      soft_walk (pmem s') root is = soft_walk (pmem s) root is"
    "tbl (pmem s') root p = Some t"
proof -
  have root: "page_aligned root" and t: "page_aligned t"
    using pt_invD(1) [OF inv] pt_invD(3) [OF inv p(2,3,1)] by auto
  have get: "pte (pmem s') g j = (if g = t \<and> j = i then v else pte (pmem s) g j)" if "page_aligned g" "j < 512" for g j
    using pte_set_pte [OF t that(1) p(4) that(2)] by (simp add: s'_def)
  show tv: "pte (pmem s') t i = v" using get [OF t p(4)] by simp
  have apart: "pte (pmem s') g j = pte (pmem s) g j"
    if "z = q @ j # r" "idx_ok z" "length q \<le> 3" "tbl (pmem s) root q = Some g" "take (Suc (length p)) z \<noteq> p @ [i]" for z q j r g
  proof -
    have "\<not> (g = t \<and> j = i)"
    proof
      assume "g = t \<and> j = i"
      then have "q = p" using pt_invD(2) [OF inv _ p(2) that(3) p(3) _ p(1)] that by simp
      with \<open>g = t \<and> j = i\<close> that(1,5) show False by simp
    qed
    then show ?thesis using get [of g j] tbl_aligned [OF root that(4)] that(1,2) by auto
  qed
  have tbl': "tbl (pmem s') root q = tbl (pmem s) root q"
    if "idx_ok q" "length q \<le> 3" "take (Suc (length p)) q \<noteq> p @ [i]" for q
    by (rule tbl_cong [OF root that(1)]) (use apart [OF _ that(1) _ _ that(3)] that(2) in auto)
  have sub: "tbl (pmem s) root q = Some g" if "idx_ok q" "length q \<le> 3" "tbl (pmem s') root q = Some g" for q g
  proof (cases "take (Suc (length p)) q = p @ [i]")
    case True
    then obtain r where r: "q = p @ i # r" by (metis append_take_drop_id append_Cons append_assoc append_Nil)
    then have "length p \<noteq> 3" using that(2) by auto
    then have "child v = None" using leaf by simp
    moreover have "tbl (pmem s') root p = tbl (pmem s) root p" by (rule tbl' [OF p(2,3)]) auto
    ultimately have "tbl (pmem s') root q = None" using p(1) tv by (simp add: r tbl_append)
    with that show ?thesis by simp
  qed (use that tbl' in simp)
  have used: "frame_used s' b = frame_used s b" for b by (simp add: frame_used_def s'_def)
  show "pt_inv s' root"
    unfolding pt_inv_def
  proof (intro conjI allI impI root)
    show "total_pages s' \<le> 0x10000000000" using pt_invD(4) [OF inv] by (simp add: s'_def)
    fix j :: u64 assume j: "j < 512" "pte (pmem s') root j AND PTE_PRESENT \<noteq> 0"
    have "p = []" if "root = t" using pt_invD(2) [OF inv p(2) _ p(3) _ p(1), of "[]"] that by simp
    then show "pte (pmem s') root j AND PTE_PAGE_SIZE = 0"
      using j get [OF root j(1)] top pt_invD(5) [OF inv j(1)] by (auto split: if_splits)
  qed (use sub used pt_invD(2,3) [OF inv] in blast)+
  show "pt_step root s s'"
    unfolding pt_step_def
  proof (intro conjI allI impI ballI)
    show "s' = s\<lparr>bitmap := bitmap s', pmem := pmem s'\<rparr>" by (simp add: s'_def)
    show "frame_used s' b" if "frame_used s b" for b using that used by simp
    show "g \<in> pt_tables s root \<or> \<not> frame_used s g" if "g \<in> pt_tables s' root" for g
      using that sub by (auto simp: pt_tables_def)
    fix g and x :: u64 assume g: "frame_used s g" "g \<notin> pt_tables s root" "x < 0x1000"
    have "t \<in> pt_tables s root" using p unfolding pt_tables_def by force
    then have "g \<noteq> t" using g(2) by auto
    with g show "pmem s' (g + x) = pmem s (g + x)"
      using t p(4) by (simp add: s'_def set_pte_byte frame_used_def)
  qed
  have "tbl (pmem s') root p = tbl (pmem s) root p" by (rule tbl' [OF p(2,3)]) auto
  then show t': "tbl (pmem s') root p = Some t" using p(1) by simp
  then have w: "soft_walk (pmem s') root (p @ i # r) = soft_walk (pmem s') t (i # r)" for r by (simp add: walk_append)
  show "soft_walk (pmem s') root (p @ i # r) = (if v AND PTE_PRESENT = 0 then None else Some (v, length r))"
    if "length (p @ i # r) = 4" for r
  proof -
    have "v AND PTE_PRESENT = 0 \<or> v AND PTE_PAGE_SIZE \<noteq> 0 \<or> r = []"
      using leaf that by (auto simp: child_def split: if_splits)
    then show ?thesis unfolding w by (auto simp: tv Let_def)
  qed
  show "soft_walk (pmem s') root is = soft_walk (pmem s) root is"
    if "idx_ok is" "length is = 4" "take (Suc (length p)) is \<noteq> p @ [i]" for "is"
    by (rule walk_cong) (use apart [OF _ that(1) _ _ that(3)] that(2) in auto)
qed

lemma small_entry:
  assumes "tbl m root p = Some t" "\<And>e l. soft_walk m root (p @ i # r) = Some (e, l) \<Longrightarrow> l < length r"
  shows "pte m t i AND PTE_PRESENT = 0 \<or> pte m t i AND PTE_PAGE_SIZE = 0"
  using walk_SomeI [OF assms(1) refl, of i r] assms(2) [of "pte m t i" "length r"] by blast

lemma same_walks_trans: "same_walks root s t \<Longrightarrow> same_walks root t u \<Longrightarrow> same_walks root s u"
  by (simp add: same_walks_def)

lemma same_walks_vmm: "same_walks root s s' \<Longrightarrow> vmm_soft s' root v = vmm_soft s root v"
  by (simp add: same_walks_def vmm_soft_def)

text \<open>The first two levels, common to both page sizes.\<close>

lemma vmm_two_levels:
  assumes inv: "pt_inv s root" and left: "frames_left s (Suc (Suc n))"
    and small: "\<And>e l. vmm_soft s root v = Some (e, l) \<Longrightarrow> l < 2"
  defines "a \<equiv> vmm_index 39 v" and "b \<equiv> vmm_index 30 v"
  shows "\<exists>s1 s2 pdpt pd. vmm_step root a flags s = Some s1 \<and> vmm_next root a s1 = pdpt \<and>
    vmm_step pdpt b flags s1 = Some s2 \<and> vmm_next pdpt b s2 = pd \<and> tbl (pmem s2) root [a, b] = Some pd \<and>
    pt_inv s2 root \<and> frames_left s2 n \<and> pt_step root s s2 \<and> same_walks root s s2"
proof -
  have i: "a < 512" "b < 512" by (simp_all add: a_def b_def vmm_index_less)
  have path: "vmm_path v = [] @ a # [b, vmm_index 21 v, vmm_index 12 v]"
    "vmm_path v = [a] @ b # [vmm_index 21 v, vmm_index 12 v]" by (simp_all add: vmm_path_def a_def b_def)
  have sm: "pte (pmem s) root a AND PTE_PRESENT = 0 \<or> pte (pmem s) root a AND PTE_PAGE_SIZE = 0"
    using small unfolding vmm_soft_def path(1) by (intro small_entry [where p = "[]"]) force+
  obtain s1 f where s1: "vmm_step root a flags s = Some s1" "vmm_next root a s1 = f" "tbl (pmem s1) root [a] = Some f"
    "pt_inv s1 root" "frames_left s1 (Suc n)" "pt_step root s s1" "same_walks root s s1"
    using vmm_step_ok [OF inv _ _ _ i(1) sm left, of "[]" flags] by auto
  have sm1: "pte (pmem s1) f b AND PTE_PRESENT = 0 \<or> pte (pmem s1) f b AND PTE_PAGE_SIZE = 0"
    using small [folded same_walks_vmm [OF s1(7)]] unfolding vmm_soft_def path(2)
    by (intro small_entry [OF s1(3)]) force+
  obtain s2 g where s2: "vmm_step f b flags s1 = Some s2" "vmm_next f b s2 = g" "tbl (pmem s2) root [a, b] = Some g"
    "pt_inv s2 root" "frames_left s2 n" "pt_step root s1 s2" "same_walks root s1 s2"
    using vmm_step_ok [OF s1(4,3) _ _ i(2) sm1 s1(5), of flags] i(1) by auto
  from s1 s2 pt_step_trans [OF s1(6) s2(6)] same_walks_trans [OF s1(7) s2(7)] show ?thesis by blast
qed

lemma invalidate_fields [simp]:
  "pmem (invalidate v s) = pmem s" "pt_inv (invalidate v s) root = pt_inv s root"
  "vmm_soft (invalidate v s) root w = vmm_soft s root w" "vmm_walk (invalidate v s) root w = vmm_walk s root w"
  "frame_used (invalidate v s) b = frame_used (s :: 'a pmm_scheme) b"
proof -
  show p: "pmem (invalidate v s) = pmem s" by (simp add: invalidate_def)
  show f: "frame_used (invalidate v s) b = frame_used s b" for b by (simp add: invalidate_def frame_used_def)
  have "total_pages (invalidate v s) = total_pages s" by (simp add: invalidate_def)
  then show "pt_inv (invalidate v s) root = pt_inv s root" unfolding pt_inv_def p f by simp
  show "vmm_soft (invalidate v s) root w = vmm_soft s root w" "vmm_walk (invalidate v s) root w = vmm_walk s root w"
    by (simp_all add: vmm_soft_def vmm_walk_def p)
qed

lemma present_or: "(x OR (1 OR y)) AND 1 \<noteq> (0 :: u64)"
  by (simp add: pte_bits bit_or_iff)

lemma soft_map_4k:
  assumes inv: "pt_inv s root" and left: "frames_left s (Suc (Suc (Suc n)))"
    and small: "\<And>e l. vmm_soft s root v = Some (e, l) \<Longrightarrow> l = 0"
  shows "\<exists>s'. vmm_map_page root paddr v PAGE_SIZE_4KB flags s = Some (invalidate v s') \<and> pt_inv s' root \<and> pt_step root s s' \<and>
    frames_left s' n \<and> vmm_soft s' root v = Some (paddr OR (PTE_PRESENT OR flags), 0) \<and>
    (\<forall>w. vmm_path w \<noteq> vmm_path v \<longrightarrow> vmm_soft s' root w = vmm_soft s root w)"
proof -
  define a b c d where abcd: "a = vmm_index 39 v" "b = vmm_index 30 v" "c = vmm_index 21 v" "d = vmm_index 12 v"
  have path: "vmm_path v = [a, b] @ c # [d]" "vmm_path v = [a, b, c] @ d # []" by (simp_all add: vmm_path_def abcd)
  have i: "a < 512" "b < 512" "c < 512" "d < 512" by (simp_all add: abcd vmm_index_less)
  obtain s1 s2 pdpt pd where s2: "vmm_step root a flags s = Some s1" "vmm_next root a s1 = pdpt"
    "vmm_step pdpt b flags s1 = Some s2" "vmm_next pdpt b s2 = pd" "tbl (pmem s2) root [a, b] = Some pd"
    "pt_inv s2 root" "frames_left s2 (Suc n)" "pt_step root s s2" "same_walks root s s2"
    using vmm_two_levels [OF inv left, of v flags, folded abcd] small by force
  have sm: "pte (pmem s2) pd c AND PTE_PRESENT = 0 \<or> pte (pmem s2) pd c AND PTE_PAGE_SIZE = 0"
    using small [folded same_walks_vmm [OF s2(9)]] unfolding vmm_soft_def path(1)
    by (intro small_entry [OF s2(5)]) force+
  obtain s3 pt where s3: "vmm_step pd c flags s2 = Some s3" "vmm_next pd c s3 = pt" "tbl (pmem s3) root [a, b, c] = Some pt"
    "pt_inv s3 root" "frames_left s3 n" "pt_step root s2 s3" "same_walks root s2 s3"
    using vmm_step_ok [OF s2(6,5) _ _ i(3) sm s2(7), of flags] i by auto
  let ?v = "paddr OR (PTE_PRESENT OR flags)" and ?s = "s3\<lparr>pmem := set_pte (pmem s3) pt d (paddr OR (PTE_PRESENT OR flags))\<rparr>"
  have q: "idx_ok [a, b, c]" "length [a, b, c] \<le> 3" "length [a, b, c] = 3 \<or> child ?v = None" using i by simp_all
  have ne: "[a, b, c] = [] \<longrightarrow> ?v AND PTE_PRESENT = 0" by simp
  note leaf = set_leaf [OF s3(4,3) q(1,2) i(4) q(3) ne]
  have "vmm_map_page root paddr v PAGE_SIZE_4KB flags s = Some (invalidate v ?s)"
    using s2 s3 by (simp add: vmm_map_page_def Let_def flip: abcd)
  moreover have "vmm_soft ?s root v = Some (?v, 0)"
    using leaf(4) [of "[]"] present_or [of paddr flags] unfolding vmm_soft_def path(2) by simp
  moreover have "vmm_soft ?s root w = vmm_soft s root w" if "vmm_path w \<noteq> vmm_path v" for w
  proof -
    have "take (Suc (length [a, b, c])) (vmm_path w) \<noteq> [a, b, c] @ [d]"
      using that path(2) by (simp add: vmm_path_def)
    then have "vmm_soft ?s root w = vmm_soft s3 root w" unfolding vmm_soft_def by (intro leaf(5)) simp_all
    then show ?thesis using same_walks_vmm [OF same_walks_trans [OF s2(9) s3(7)]] by simp
  qed
  moreover have "frames_left ?s n" using s3(5) by (simp add: frames_left_def pmm_ok_def free_frames_def)
  ultimately show ?thesis
    using leaf(1) pt_step_trans [OF pt_step_trans [OF s2(8) s3(6)] leaf(2)] by blast
qed

text \<open>The entry of a 2 MiB page, once the path to its table is there.\<close>

lemma huge_leaf:
  fixes paddr flags :: u64
  assumes inv: "pt_inv s2 root" and p: "tbl (pmem s2) root [vmm_index 39 v, vmm_index 30 v] = Some pd"
    and st: "pt_step root s s2" and same: "same_walks root s s2"
  defines "e \<equiv> paddr OR (PTE_PRESENT OR PTE_PAGE_SIZE OR flags)"
  defines "s' \<equiv> s2\<lparr>pmem := set_pte (pmem s2) pd (vmm_index 21 v) e\<rparr>"
  shows "pt_inv s' root" "pt_step root s s'" "tbl (pmem s') root [vmm_index 39 v, vmm_index 30 v] = Some pd"
    "vmm_soft s' root w = (if take 3 (vmm_path w) = take 3 (vmm_path v) then Some (e, 1) else vmm_soft s root w)"
proof -
  let ?p = "[vmm_index 39 v, vmm_index 30 v]"
  have "bit e 7" "bit e 0" by (simp_all add: e_def bit_or_iff bit_numeral_rec)
  then have v: "child e = None" "e AND 1 \<noteq> 0" by (simp_all add: child_def pte_bits)
  have q: "idx_ok ?p" "length ?p \<le> 3" "length ?p = 3 \<or> child e = None" "?p = [] \<longrightarrow> e AND PTE_PRESENT = 0"
    using v by (simp_all add: vmm_index_less)
  note leaf = set_leaf [OF inv p q(1,2) vmm_index_less [of 21 v] q(3,4), folded s'_def]
  show "pt_inv s' root" "pt_step root s s'" "tbl (pmem s') root ?p = Some pd"
    using leaf(1,6) pt_step_trans [OF st leaf(2)] by blast+
  show "vmm_soft s' root w = (if take 3 (vmm_path w) = take 3 (vmm_path v) then Some (e, 1) else vmm_soft s root w)"
  proof (cases "take 3 (vmm_path w) = take 3 (vmm_path v)")
    case True
    then have "vmm_path w = ?p @ vmm_index 21 v # [vmm_index 12 w]" by (simp add: vmm_path_def)
    then show ?thesis using leaf(4) [of "[vmm_index 12 w]"] v(2) True unfolding vmm_soft_def by simp
  next
    case False
    then have "take (Suc (length ?p)) (vmm_path w) \<noteq> ?p @ [vmm_index 21 v]" by (simp add: vmm_path_def)
    then have "vmm_soft s' root w = vmm_soft s2 root w" unfolding vmm_soft_def by (intro leaf(5)) simp_all
    with False show ?thesis using same_walks_vmm [OF same] by simp
  qed
qed

lemma soft_map_2m:
  assumes inv: "pt_inv s root" and left: "frames_left s (Suc (Suc n))"
    and small: "\<And>e l. vmm_soft s root v = Some (e, l) \<Longrightarrow> l < 2"
  shows "\<exists>s'. vmm_map_page root paddr v PAGE_SIZE_2MB flags s = Some (invalidate v s') \<and> pt_inv s' root \<and> pt_step root s s' \<and>
    frames_left s' n \<and>
    (\<forall>w. vmm_soft s' root w = (if take 3 (vmm_path w) = take 3 (vmm_path v)
       then Some (paddr OR (PTE_PRESENT OR PTE_PAGE_SIZE OR flags), 1) else vmm_soft s root w))"
proof -
  obtain s1 s2 pdpt pd where s2: "vmm_step root (vmm_index 39 v) flags s = Some s1" "vmm_next root (vmm_index 39 v) s1 = pdpt"
    "vmm_step pdpt (vmm_index 30 v) flags s1 = Some s2" "vmm_next pdpt (vmm_index 30 v) s2 = pd"
    "tbl (pmem s2) root [vmm_index 39 v, vmm_index 30 v] = Some pd"
    "pt_inv s2 root" "frames_left s2 n" "pt_step root s s2" "same_walks root s s2"
    using vmm_two_levels [OF inv left, of v flags] small by force
  let ?s = "s2\<lparr>pmem := set_pte (pmem s2) pd (vmm_index 21 v) (paddr OR (PTE_PRESENT OR PTE_PAGE_SIZE OR flags))\<rparr>"
  have "vmm_map_page root paddr v PAGE_SIZE_2MB flags s = Some (invalidate v ?s)"
    using s2 by (simp add: vmm_map_page_def Let_def)
  moreover have "frames_left ?s n" using s2(7) by (simp add: frames_left_def pmm_ok_def free_frames_def)
  ultimately show ?thesis using huge_leaf [OF s2(6,5,8,9), where paddr = paddr and flags = flags] by blast
qed

section \<open>Finding and clearing an entry\<close>

lemma soft_get_entry_cases:
  "case vmm_get_entry root v s of
     None \<Rightarrow> vmm_soft s root v = None
   | Some (entry, level) \<Rightarrow> \<exists>p i r t. vmm_path v = p @ i # r \<and> tbl (pmem s) root p = Some t \<and> entry = t + 8 * i \<and>
       level = (if r = [] then 0 else max 2 (length r)) \<and>
       vmm_soft s root v = (if pte (pmem s) t i AND PTE_PRESENT = 0 then None else Some (pte (pmem s) t i, length r)) \<and>
       (r \<noteq> [] \<longrightarrow> pte (pmem s) t i AND PTE_PRESENT \<noteq> 0)"
proof -
  define a b c d where abcd: "a = vmm_index 39 v" "b = vmm_index 30 v" "c = vmm_index 21 v" "d = vmm_index 12 v"
  have path: "vmm_path v = [a, b, c, d]" by (simp add: vmm_path_def abcd)
  define e1 where "e1 = pte (pmem s) root a"
  define e2 where "e2 = pte (pmem s) (e1 AND PAGE_MASK_4KB) b"
  define e3 where "e3 = pte (pmem s) (e2 AND PAGE_MASK_4KB) c"
  note w = vmm_soft_def [of s root v, unfolded path soft_walk.simps Let_def, folded e1_def, folded e2_def, folded e3_def]
  note g = vmm_get_entry_def [of root v s, unfolded Let_def, folded abcd, folded e1_def, folded e2_def, folded e3_def]
  let ?ok = "\<lambda>p i r t. vmm_path v = p @ i # r \<and> tbl (pmem s) root p = Some t"
  have t1: "e1 AND 1 \<noteq> 0 \<Longrightarrow> e1 AND 0x80 = 0 \<Longrightarrow> tbl (pmem s) root [a] = Some (e1 AND PAGE_MASK_4KB)"
    by (simp add: child_def flip: e1_def)
  have t2: "tbl (pmem s) root [a] = Some (e1 AND PAGE_MASK_4KB) \<Longrightarrow> e2 AND 1 \<noteq> 0 \<Longrightarrow> e2 AND 0x80 = 0 \<Longrightarrow>
      tbl (pmem s) root [a, b] = Some (e2 AND PAGE_MASK_4KB)"
    by (simp only: tbl_snoc [of _ _ "[a]" b, unfolded append.simps] option.case child_def e2_def [symmetric] simp_thms if_False)
  have t3: "tbl (pmem s) root [a, b] = Some (e2 AND PAGE_MASK_4KB) \<Longrightarrow> e3 AND 1 \<noteq> 0 \<Longrightarrow> e3 AND 0x80 = 0 \<Longrightarrow>
      tbl (pmem s) root [a, b, c] = Some (e3 AND PAGE_MASK_4KB)"
    by (simp only: tbl_snoc [of _ _ "[a, b]" c, unfolded append.simps] option.case child_def e3_def [symmetric] simp_thms if_False)
  have fin: ?thesis
    if "vmm_get_entry root v s = Some (t + 8 * i, if r = [] then 0 else max 2 (length r))"
      "vmm_soft s root v = (if e AND 1 = 0 then None else Some (e, length r))" "e = pte (pmem s) t i"
      "r \<noteq> [] \<longrightarrow> e AND 1 \<noteq> 0" "?ok p i r t" for p i r t e
    using that by auto
  show ?thesis
  proof (cases "e1 AND 1 = 0")
    case True
    then show ?thesis by (simp add: g w)
  next
    case e1: False
    show ?thesis
    proof (cases "e1 AND 0x80 = 0")
      case False
      show ?thesis
        by (rule fin [of root a "[b, c, d]" e1 "[]"]) (use e1 False in \<open>simp_all add: g w path e1_def\<close>)
    next
      case True
      note t1 = t1 [OF e1 True]
      show ?thesis
      proof (cases "e2 AND 1 = 0")
        case e2: True
        then show ?thesis using e1 True by (simp add: g w)
      next
        case e2: False
        show ?thesis
        proof (cases "e2 AND 0x80 = 0")
          case False
          have w2: "vmm_soft s root v = Some (e2, 2)"
            unfolding w using e1 e2 True False by (simp del: One_nat_def)
          have g2: "vmm_get_entry root v s = Some ((e1 AND PAGE_MASK_4KB) + 8 * b, 2)"
            unfolding g using e1 e2 True False by simp
          show ?thesis
            by (rule fin [OF _ _ e2_def, of "[c, d]" "[a]"]) (use e2 t1 in \<open>simp_all add: g2 w2 path\<close>)
        next
          case e2': True
          note t2 = t2 [OF t1 e2 e2']
          show ?thesis
          proof (cases "e3 AND 1 = 0")
            case e3: True
            then show ?thesis using e1 True e2 e2' by (simp add: g w)
          next
            case e3: False
            show ?thesis
            proof (cases "e3 AND 0x80 = 0")
              case False
              have w2: "vmm_soft s root v = Some (e3, 1)"
                unfolding w using e1 True e2 e2' e3 False by simp
              have g2: "vmm_get_entry root v s = Some ((e2 AND PAGE_MASK_4KB) + 8 * c, 2)"
                unfolding g using e1 True e2 e2' e3 False by simp
              show ?thesis
                by (rule fin [OF _ _ e3_def, of "[d]" "[a, b]"]) (use e3 t2 in \<open>simp_all add: g2 w2 path\<close>)
            next
              case e3': True
              note t3 = t3 [OF t2 e3 e3']
              let ?e = "pte (pmem s) (e3 AND PAGE_MASK_4KB) d"
              have w2: "vmm_soft s root v = (if ?e AND 1 = 0 then None else Some (?e, 0))"
                unfolding w using e1 True e2 e2' e3 e3' by simp
              have g2: "vmm_get_entry root v s = Some ((e3 AND PAGE_MASK_4KB) + 8 * d, 0)"
                unfolding g using e1 True e2 e2' e3 e3' by simp
              show ?thesis
                by (rule fin [OF _ _ refl, of _ _ "[]" "[a, b, c]"]) (use t3 in \<open>simp_all add: g2 w2 path\<close>)
            qed
          qed
        qed
      qed
    qed
  qed
qed

lemma page_or_less: "x < 0x1000 \<Longrightarrow> y < 0x1000 \<Longrightarrow> x OR y < (0x1000 :: u64)"
proof -
  assume "x < 0x1000" "y < 0x1000"
  then have "(x OR y) AND mask 12 = x OR y"
    by (intro bit_word_eqI) (auto simp: bit_simps dest: lt_page_bit [of x] lt_page_bit [of y] leI)
  moreover have "(mask 12 :: u64) = 0xFFF" by (simp add: mask_eq_exp_minus_1)
  ultimately have "x OR y \<le> 0xFFF" by (metis word_and_le1)
  then show ?thesis by (simp add: word_le_nat_alt word_less_nat_alt)
qed

lemma page_entry_bound:
  assumes "vmm_get_entry root v s = Some (entry, level)" "pt_inv s root"
  shows "\<exists>p i r t. vmm_path v = p @ i # r \<and> tbl (pmem s) root p = Some t \<and> entry = t + 8 * i \<and>
    idx_ok p \<and> length p \<le> 3 \<and> i < 512 \<and>
    vmm_soft s root v = (if ld64 (pmem s) entry AND PTE_PRESENT = 0 then None else Some (ld64 (pmem s) entry, length r))"
proof -
  from soft_get_entry_cases [of s root v] assms(1) obtain p i r t where
    p: "vmm_path v = p @ i # r" "tbl (pmem s) root p = Some t" "entry = t + 8 * i"
    "vmm_soft s root v = (if pte (pmem s) t i AND PTE_PRESENT = 0 then None else Some (pte (pmem s) t i, length r))"
    by auto
  moreover have "length (p @ i # r) = 4" "idx_ok (p @ i # r)" using vmm_path_ok [of v] by (simp_all only: p(1))
  ultimately show ?thesis by (intro exI [of _ p] exI [of _ i] exI [of _ r] exI [of _ t]) (simp add: pte_def)
qed

lemma soft_unmap_ok:
  assumes inv: "pt_inv s root" and e: "vmm_get_entry root v s = Some (entry, level)"
  shows "\<exists>s' n. vmm_unmap_page root v s = (ld64 (pmem s) entry AND PAGE_MASK_4KB, invalidate v s') \<and>
    pt_inv s' root \<and> pt_step root s s' \<and> bitmap s' = bitmap s \<and> vmm_soft s' root v = None \<and>
    (\<forall>e l. vmm_soft s root v = Some (e, l) \<longrightarrow> l = 3 - n) \<and> n \<le> 3 \<and>
    (\<forall>w. vmm_soft s' root w = (if take (Suc n) (vmm_path w) = take (Suc n) (vmm_path v) then None else vmm_soft s root w))"
proof -
  obtain p i r t where p: "vmm_path v = p @ i # r" "tbl (pmem s) root p = Some t" "entry = t + 8 * i"
    "idx_ok p" "length p \<le> 3" "i < 512"
    "vmm_soft s root v = (if ld64 (pmem s) entry AND PTE_PRESENT = 0 then None else Some (ld64 (pmem s) entry, length r))"
    using page_entry_bound [OF e inv] by blast
  let ?s = "s\<lparr>pmem := set_pte (pmem s) t i 0\<rparr>"
  have len: "length (p @ i # r) = 4" using vmm_path_ok(2) [of v] by (simp only: p(1))
  have q: "length p = 3 \<or> child 0 = None" by (simp add: child_def)
  have z: "p = [] \<longrightarrow> (0 :: u64) AND PTE_PRESENT = 0" by simp
  note leaf = set_leaf [OF inv p(2,4,5,6) q z]
  have tk: "take (Suc (length p)) (vmm_path v) = p @ [i]" using p(1) by simp
  have w: "vmm_soft ?s root w = (if take (Suc (length p)) (vmm_path w) = take (Suc (length p)) (vmm_path v) then None else vmm_soft s root w)" for w
  proof (cases "take (Suc (length p)) (vmm_path w) = p @ [i]")
    case True
    then obtain r' where r': "vmm_path w = p @ i # r'" by (metis append_take_drop_id append_Cons append_assoc append_Nil)
    have "length (p @ i # r') = 4" using vmm_path_ok(2) [of w] by (simp only: r')
    from leaf(4) [OF this] True show ?thesis by (simp add: vmm_soft_def r' p(1))
  next
    case False
    then show ?thesis unfolding tk vmm_soft_def using leaf(5) [of "vmm_path w"] by simp
  qed
  have "vmm_unmap_page root v s = (ld64 (pmem s) entry AND PAGE_MASK_4KB, invalidate v ?s)"
    using e by (simp add: vmm_unmap_page_def Let_def set_pte_def p(3))
  moreover have "vmm_soft ?s root v = None" using w [of v] by simp
  moreover have "\<forall>e l. vmm_soft s root v = Some (e, l) \<longrightarrow> l = 3 - length p" using p(7) len by auto
  moreover have "bitmap ?s = bitmap s" by simp
  ultimately show ?thesis using leaf(1,2) w p(5) by (intro exI [of _ ?s] exI [of _ "length p"]) blast
qed

text \<open>The same facts for the walk of the processor.\<close>

lemma vmm_unmap_ok:
  assumes inv: "pt_inv s root" and e: "vmm_get_entry root v s = Some (entry, level)"
  shows "\<exists>s' n. vmm_unmap_page root v s = (ld64 (pmem s) entry AND PAGE_MASK_4KB, invalidate v s') \<and>
    pt_inv s' root \<and> pt_step root s s' \<and> bitmap s' = bitmap s \<and> vmm_walk s' root v = None \<and>
    (\<forall>e l. vmm_walk s root v = Some (e, l) \<longrightarrow> l = 3 - n) \<and> n \<le> 3 \<and>
    (\<forall>w. vmm_walk s' root w = (if take (Suc n) (vmm_path w) = take (Suc n) (vmm_path v) then None else vmm_walk s root w))"
proof -
  obtain s' n where s': "vmm_unmap_page root v s = (ld64 (pmem s) entry AND PAGE_MASK_4KB, invalidate v s')"
    "pt_inv s' root" "pt_step root s s'" "bitmap s' = bitmap s" "vmm_soft s' root v = None"
    "\<forall>e l. vmm_soft s root v = Some (e, l) \<longrightarrow> l = 3 - n" "n \<le> 3"
    "\<forall>w. vmm_soft s' root w = (if take (Suc n) (vmm_path w) = take (Suc n) (vmm_path v) then None else vmm_soft s root w)"
    using soft_unmap_ok [OF inv e] by blast
  from this [folded vmm_walk_soft [OF inv] vmm_walk_soft [OF s'(2)]] show ?thesis by blast
qed

lemma vmm_map_4k:
  assumes inv: "pt_inv s root" and left: "frames_left s (Suc (Suc (Suc n)))"
    and small: "\<And>e l. vmm_walk s root v = Some (e, l) \<Longrightarrow> l = 0"
  shows "\<exists>s'. vmm_map_page root paddr v PAGE_SIZE_4KB flags s = Some (invalidate v s') \<and> pt_inv s' root \<and> pt_step root s s' \<and>
    frames_left s' n \<and> vmm_walk s' root v = Some (paddr OR (PTE_PRESENT OR flags), 0) \<and>
    (\<forall>w. vmm_path w \<noteq> vmm_path v \<longrightarrow> vmm_walk s' root w = vmm_walk s root w)"
  using soft_map_4k [OF inv left, of v paddr flags] small vmm_walk_soft [OF inv] by (metis vmm_walk_soft)

lemma vmm_map_2m:
  assumes inv: "pt_inv s root" and left: "frames_left s (Suc (Suc n))"
    and small: "\<And>e l. vmm_walk s root v = Some (e, l) \<Longrightarrow> l < 2"
  shows "\<exists>s'. vmm_map_page root paddr v PAGE_SIZE_2MB flags s = Some (invalidate v s') \<and> pt_inv s' root \<and> pt_step root s s' \<and>
    frames_left s' n \<and>
    (\<forall>w. vmm_walk s' root w = (if take 3 (vmm_path w) = take 3 (vmm_path v)
       then Some (paddr OR (PTE_PRESENT OR PTE_PAGE_SIZE OR flags), 1) else vmm_walk s root w))"
proof -
  have sm: "vmm_soft s root v = Some (e, l) \<Longrightarrow> l < 2" for e l using small vmm_walk_soft [OF inv] by simp
  obtain s' where s': "vmm_map_page root paddr v PAGE_SIZE_2MB flags s = Some (invalidate v s')" "pt_inv s' root"
    "pt_step root s s'" "frames_left s' n" "\<forall>w. vmm_soft s' root w = (if take 3 (vmm_path w) = take 3 (vmm_path v)
       then Some (paddr OR (PTE_PRESENT OR PTE_PAGE_SIZE OR flags), 1) else vmm_soft s root w)"
    using soft_map_2m [OF inv left, of v paddr flags] sm by blast
  from this [folded vmm_walk_soft [OF inv] vmm_walk_soft [OF s'(2)]] show ?thesis by blast
qed

lemma vmm_get_entry_cases:
  assumes "pt_inv s root"
  shows "case vmm_get_entry root v s of
     None \<Rightarrow> vmm_walk s root v = None
   | Some (entry, level) \<Rightarrow> \<exists>p i r t. vmm_path v = p @ i # r \<and> tbl (pmem s) root p = Some t \<and> entry = t + 8 * i \<and>
       level = (if r = [] then 0 else max 2 (length r)) \<and>
       vmm_walk s root v = (if pte (pmem s) t i AND PTE_PRESENT = 0 then None else Some (pte (pmem s) t i, length r)) \<and>
       (r \<noteq> [] \<longrightarrow> pte (pmem s) t i AND PTE_PRESENT \<noteq> 0)"
  using soft_get_entry_cases [of s root v] by (simp only: vmm_walk_soft [OF assms])

section \<open>The direct map\<close>

lemma vmm_index_bits: "vmm_index k v = vmm_index k w \<longleftrightarrow> (\<forall>n < 9. bit v (k + n) = bit w (k + n))"
proof -
  have m: "vmm_index k v = take_bit 9 (drop_bit k v)" for v
    by (simp add: vmm_index_def take_bit_eq_mask mask_eq_exp_minus_1)
  have "take_bit 9 (drop_bit k v) = take_bit 9 (drop_bit k w) \<longleftrightarrow> (\<forall>n < 9. bit v (k + n) = bit w (k + n))"
  proof
    assume eq: "take_bit 9 (drop_bit k v) = take_bit 9 (drop_bit k w)"
    show "\<forall>n < 9. bit v (k + n) = bit w (k + n)"
    proof (intro allI impI)
      fix n :: nat assume "n < 9"
      then show "bit v (k + n) = bit w (k + n)"
        using arg_cong [OF eq, of "\<lambda>x. bit x n"] by (simp add: bit_simps)
    qed
  qed (auto intro!: bit_word_eqI simp: bit_simps)
  then show ?thesis by (simp only: m)
qed

lemma same_2m: "take 3 (vmm_path v) = take 3 (vmm_path w) \<longleftrightarrow> (\<forall>n. 21 \<le> n \<and> n < 48 \<longrightarrow> bit v n = bit w n)"
proof
  assume "take 3 (vmm_path v) = take 3 (vmm_path w)"
  then have i: "vmm_index 39 v = vmm_index 39 w" "vmm_index 30 v = vmm_index 30 w" "vmm_index 21 v = vmm_index 21 w"
    by (simp_all add: vmm_path_def)
  show "\<forall>n. 21 \<le> n \<and> n < 48 \<longrightarrow> bit v n = bit w n"
  proof (intro allI impI)
    fix n :: nat assume "21 \<le> n \<and> n < 48"
    then consider "n = 39 + (n - 39)" "n - 39 < 9" | "n = 30 + (n - 30)" "n - 30 < 9" | "n = 21 + (n - 21)" "n - 21 < 9"
      by linarith
    then show "bit v n = bit w n" using i unfolding vmm_index_bits by cases metis+
  qed
next
  assume "\<forall>n. 21 \<le> n \<and> n < 48 \<longrightarrow> bit v n = bit w n"
  then show "take 3 (vmm_path v) = take 3 (vmm_path w)" by (simp add: vmm_path_def vmm_index_bits)
qed

text \<open>The address \<^verbatim>\<open>DIRECT_OFFSET + q\<close> for \<^verbatim>\<open>q\<close> below \<^verbatim>\<open>2 ^ 47\<close>.\<close>

lemma direct_or:
  assumes "q < 0x800000000000"
  shows "q + DIRECT_OFFSET = DIRECT_OFFSET OR q" "n < 47 \<Longrightarrow> bit (q + DIRECT_OFFSET) n = bit q n" "bit (q + DIRECT_OFFSET) 47"
proof -
  have q: "\<not> bit q n" if "47 \<le> n" for n
  proof -
    have "q AND mask 47 = q" using assms by (intro less_mask_eq) simp
    then have "bit q n = bit (q AND mask 47) n" by simp
    then show ?thesis using that by (simp add: bit_simps)
  qed
  have D: "bit DIRECT_OFFSET n \<longleftrightarrow> 47 \<le> n \<and> n < 64" for n
  proof -
    have "DIRECT_OFFSET = push_bit 47 (mask 17)" by (simp add: push_bit_eq_mult mask_eq_exp_minus_1)
    then show ?thesis by (simp only: bit_push_bit_iff bit_mask_iff len_of_numeral_defs) auto
  qed
  have "DIRECT_OFFSET AND q = 0" by (intro bit_word_eqI) (use q D in \<open>auto simp: bit_and_iff\<close>)
  then show eq: "q + DIRECT_OFFSET = DIRECT_OFFSET OR q" using word_plus_and_or [of DIRECT_OFFSET q] by (simp add: add.commute)
  show "n < 47 \<Longrightarrow> bit (q + DIRECT_OFFSET) n = bit q n" "bit (q + DIRECT_OFFSET) 47"
    unfolding eq bit_or_iff D by simp_all
qed

lemma direct_same:
  assumes "p < 0x800000000000" "q < 0x800000000000"
  shows "take 3 (vmm_path (p + DIRECT_OFFSET)) = take 3 (vmm_path (q + DIRECT_OFFSET)) \<longleftrightarrow> drop_bit 21 p = drop_bit 21 q"
proof -
  have hi: "\<not> bit x n" if "47 \<le> n" "x < 0x800000000000" for n and x :: u64
  proof -
    have "x AND mask 47 = x" using that(2) by (intro less_mask_eq) simp
    then have "bit x n = bit (x AND mask 47) n" by simp
    then show ?thesis using that(1) by (simp add: bit_simps)
  qed
  have "(\<forall>n. 21 \<le> n \<and> n < 48 \<longrightarrow> bit (p + DIRECT_OFFSET) n = bit (q + DIRECT_OFFSET) n) \<longleftrightarrow>
      (\<forall>n. bit p (21 + n) = bit q (21 + n))"
  proof (rule iffI; intro allI impI)
    fix n :: nat assume a: "\<forall>n. 21 \<le> n \<and> n < 48 \<longrightarrow> bit (p + DIRECT_OFFSET) n = bit (q + DIRECT_OFFSET) n"
    show "bit p (21 + n) = bit q (21 + n)"
    proof (cases "21 + n < 47")
      case True
      then show ?thesis using a [rule_format, of "21 + n"] direct_or(2) [OF assms(1) True] direct_or(2) [OF assms(2) True] by simp
    next
      case False
      then show ?thesis using hi [OF _ assms(1), of "21 + n"] hi [OF _ assms(2), of "21 + n"] by simp
    qed
  next
    fix n :: nat assume a: "\<forall>n. bit p (21 + n) = bit q (21 + n)" and n: "21 \<le> n \<and> n < 48"
    show "bit (p + DIRECT_OFFSET) n = bit (q + DIRECT_OFFSET) n"
    proof (cases "n < 47")
      case True
      have "bit p n = bit q n" using a [rule_format, of "n - 21"] n by simp
      then show ?thesis using direct_or(2) [OF assms(1) True] direct_or(2) [OF assms(2) True] by simp
    next
      case False
      then have "n = 47" using n by simp
      then show ?thesis using direct_or(3) [OF assms(1)] direct_or(3) [OF assms(2)] by simp
    qed
  qed
  also have "\<dots> \<longleftrightarrow> (\<forall>n < 64. bit p (21 + n) = bit q (21 + n))"
  proof -
    have "bit p (21 + n) = bit q (21 + n)" if "\<not> n < 64" for n using that by simp
    then show ?thesis by blast
  qed
  also have "\<dots> \<longleftrightarrow> drop_bit 21 p = drop_bit 21 q" by (simp add: bit_eq_iff bit_drop_bit_eq)
  finally show ?thesis unfolding same_2m .
qed

text \<open>
  Frames left inside the boot window: the allocator takes the lowest free frame, so as long as there is
  one, the new table is inside, too.
\<close>

definition low_frames :: "'a pmm_scheme \<Rightarrow> nat \<Rightarrow> bool" where
  "low_frames s n \<longleftrightarrow> pmm_ok s \<and> 0 \<notin> free_frames s \<and> n \<le> card {k \<in> free_frames s. k < BOOT_WINDOW div PAGE_SIZE_4KB}"

lemma low_frames_left: "low_frames s n \<Longrightarrow> frames_left s n"
proof -
  assume l: "low_frames s n"
  have "card {k \<in> free_frames s. k < BOOT_WINDOW div PAGE_SIZE_4KB} \<le> card (free_frames s)" by (rule card_mono) auto
  with l show ?thesis by (simp add: low_frames_def frames_left_def)
qed

lemma low_frames_cong:
  "pmm_lock s' = pmm_lock s \<Longrightarrow> total_pages s' = total_pages s \<Longrightarrow> bitmap s' = bitmap s \<Longrightarrow> low_frames s' n = low_frames s n"
  by (simp add: low_frames_def pmm_ok_def free_frames_def)

lemma low_alloc:
  assumes "low_frames s (Suc n)"
  shows "\<exists>f bm. pmm_alloc_page s = Some (f, s\<lparr>bitmap := bm\<rparr>) \<and> f \<noteq> 0 \<and> page_aligned f \<and> \<not> frame_used s f \<and> in_window f \<and>
    low_frames (s\<lparr>bitmap := bm\<rparr>) n \<and> (\<forall>b. frame_used (s\<lparr>bitmap := bm\<rparr>) b \<longleftrightarrow> b = f \<or> frame_used s b)"
proof -
  let ?low = "\<lambda>F. {k \<in> F. k < BOOT_WINDOW div PAGE_SIZE_4KB}"
  have ok: "pmm_ok s" and nz: "0 \<notin> free_frames s" and card: "Suc n \<le> card (?low (free_frames s))"
    using assms by (simp_all add: low_frames_def)
  have ne: "?low (free_frames s) \<noteq> {}" using card by (metis card.empty not_less_eq_eq zero_le)
  then have "free_frames s \<noteq> {}" by blast
  then obtain k where k: "lowest_free s = Some k" using lowest_free_None [of s] by fastforce
  note kf = lowest_free_Some [OF k]
  obtain j where j: "j \<in> ?low (free_frames s)" using ne by blast
  have "k \<le> j" using kf(3) [of j] j by (force simp: free_frames_def)
  moreover have "j < 0x8000" using j by simp
  ultimately have kl: "k < 0x8000" by (rule le_less_trans)
  then have kn: "unat k < 0x8000" by (simp add: word_less_nat_alt)
  have w: "in_window (k * PAGE_SIZE_4KB)" using kn by (simp add: in_window_def word_le_nat_alt unat_word_ariths)
  obtain f bm where f: "pmm_alloc_page s = Some (f, s\<lparr>bitmap := bm\<rparr>)" "f \<noteq> 0" "page_aligned f" "\<not> frame_used s f"
    "\<forall>b. frame_used (s\<lparr>bitmap := bm\<rparr>) b \<longleftrightarrow> b = f \<or> frame_used s b"
    using pmm_alloc_left [OF low_frames_left [OF assms]] by blast
  have "f = k * PAGE_SIZE_4KB \<and> bm = BITMAP_SET (bitmap s) k"
  proof -
    have "Some (f, s\<lparr>bitmap := bm\<rparr>) = Some (k * PAGE_SIZE_4KB, s\<lparr>bitmap := BITMAP_SET (bitmap s) k\<rparr>)"
      unfolding f(1) [symmetric] using ok k by (simp add: pmm_ok_def pmm_alloc_page_eq)
    then have eq: "f = k * PAGE_SIZE_4KB" "s\<lparr>bitmap := bm\<rparr> = s\<lparr>bitmap := BITMAP_SET (bitmap s) k\<rparr>"
      unfolding option.inject prod.inject by blast+
    have "bm = BITMAP_SET (bitmap s) k" using arg_cong [OF eq(2), of bitmap] by simp
    with eq(1) show ?thesis by blast
  qed
  moreover have "free_frames (s\<lparr>bitmap := BITMAP_SET (bitmap s) k\<rparr>) = free_frames s - {k}" by (auto simp: free_frames_def)
  moreover have "?low (free_frames s - {k}) = ?low (free_frames s) - {k}" by blast
  moreover have "k \<in> ?low (free_frames s)" using kf kl by (simp add: free_frames_def)
  ultimately have "low_frames (s\<lparr>bitmap := bm\<rparr>) n" using card nz ok by (simp add: low_frames_def pmm_ok_def)
  with f w \<open>f = _ \<and> _\<close> show ?thesis by (intro exI [of _ f] exI [of _ bm]) simp
qed

text \<open>
  What the loop keeps: every table is inside the window. For a step that takes frames of the window only
  this follows from what is known of it already.
\<close>

definition tables_low :: "'a pmm_scheme \<Rightarrow> u64 \<Rightarrow> bool" where
  "tables_low s root \<longleftrightarrow> (\<forall>g \<in> pt_tables s root. in_window g)"

definition takes_low :: "'a pmm_scheme \<Rightarrow> 'a pmm_scheme \<Rightarrow> bool" where
  "takes_low s s' \<longleftrightarrow> (\<forall>b. frame_used s' b \<longrightarrow> frame_used s b \<or> in_window b)"

lemma tables_low_step:
  "tables_low s root \<Longrightarrow> pt_step root s s' \<Longrightarrow> takes_low s s' \<Longrightarrow> pt_inv s' root \<Longrightarrow> tables_low s' root"
  using pt_tables_used [of s' root] unfolding tables_low_def pt_step_def takes_low_def by blast

lemma low_frames_le: "low_frames s n \<Longrightarrow> m \<le> n \<Longrightarrow> low_frames s m"
  by (simp add: low_frames_def)

lemma boot_step_ok:
  assumes inv: "pt_inv s root" and low: "tables_low s root"
    and p: "tbl (pmem s) root p = Some t" "idx_ok p" "length p \<le> 2" "i < 512"
    and small: "pte (pmem s) t i AND PTE_PRESENT = 0 \<or> pte (pmem s) t i AND PTE_PAGE_SIZE = 0"
    and left: "low_frames s ((if tbl (pmem s) root (p @ [i]) = None then 1 else 0) + n)"
  shows "\<exists>s'. boot_step t i s = Some s' \<and> tbl (pmem s') root (p @ [i]) = Some (vmm_next t i s') \<and> pt_inv s' root \<and>
    pt_step root s s' \<and> same_walks root s s' \<and> takes_low s s' \<and> tables_low s' root \<and> low_frames s' n \<and>
    (tbl (pmem s) root (p @ [i]) \<noteq> None \<longrightarrow> s' = s)"
proof -
  have "t \<in> pt_tables s root" using p unfolding pt_tables_def by force
  then have t: "in_window t" using low by (simp add: tables_low_def)
  show ?thesis
  proof (cases "pte (pmem s) t i AND PTE_PRESENT = 0")
    case True
    then have none: "tbl (pmem s) root (p @ [i]) = None" using p(1) by (simp add: tbl_snoc child_def)
    then have l1: "low_frames s (Suc n)" using left by simp
    obtain s' where s': "vmm_step t i 0 s = Some s'" "tbl (pmem s') root (p @ [i]) = Some (vmm_next t i s')"
      "pt_inv s' root" "pt_step root s s'" "same_walks root s s'"
      using vmm_step_ok [OF inv p small low_frames_left [OF l1], of 0] by blast
    obtain f bm where f: "pmm_alloc_page s = Some (f, s\<lparr>bitmap := bm\<rparr>)" "in_window f" "low_frames (s\<lparr>bitmap := bm\<rparr>) n"
      "\<forall>b. frame_used (s\<lparr>bitmap := bm\<rparr>) b \<longleftrightarrow> b = f \<or> frame_used s b"
      using low_alloc [OF l1] by blast
    let ?s = "s\<lparr>bitmap := bm, pmem := set_pte (memset (pmem s) f 0 PAGE_SIZE_4KB) t i (f OR 3)\<rparr>"
    have e: "boot_step t i s = Some ?s" "s' = ?s"
      using True t f(1,2) s'(1) by (simp_all add: boot_step_def vmm_step_def)
    have "low_frames ?s n" using f(3) by (simp add: low_frames_def pmm_ok_def free_frames_def)
    moreover have tk: "takes_low s ?s" using f(2,4) by (auto simp: takes_low_def frame_used_def)
    ultimately show ?thesis
      using s' e none tables_low_step [OF low s'(4) _ s'(3)] by auto
  next
    case False
    then have "boot_step t i s = Some s" using t by (simp add: boot_step_def)
    moreover have "tbl (pmem s) root (p @ [i]) = Some (vmm_next t i s)"
      using False small p(1) by (simp add: tbl_snoc child_def vmm_next_def)
    moreover from this have "low_frames s n" using left by simp
    ultimately show ?thesis using inv low by (auto simp: takes_low_def same_walks_def)
  qed
qed

text \<open>One turn of the loop: both levels and the entry of the page.\<close>

lemma boot_turn:
  assumes inv: "pt_inv s root" and low: "tables_low s root" and lt: "paddr < maxAddr"
    and small: "\<And>e l. vmm_soft s root (paddr + DIRECT_OFFSET) = Some (e, l) \<Longrightarrow> l < 2"
  defines "v \<equiv> paddr + DIRECT_OFFSET"
  defines "a \<equiv> vmm_index 39 v" and "b \<equiv> vmm_index 30 v"
  assumes left: "low_frames s ((if tbl (pmem s) root [a] = None then 1 else 0) + ((if tbl (pmem s) root [a, b] = None then 1 else 0) + n))"
  shows "\<exists>s'. vmm_direct_loop root paddr maxAddr s = vmm_direct_loop root (paddr + PAGE_SIZE_2MB) maxAddr s' \<and>
    pt_inv s' root \<and> pt_step root s s' \<and> tables_low s' root \<and> low_frames s' n \<and> tbl (pmem s') root [a, b] \<noteq> None \<and>
    (\<forall>w. vmm_soft s' root w = (if take 3 (vmm_path w) = take 3 (vmm_path v) then Some (paddr OR 0x83, 1) else vmm_soft s root w))"
proof -
  have i: "a < 512" "b < 512" by (simp_all add: a_def b_def vmm_index_less)
  have path: "vmm_path v = [] @ a # [b, vmm_index 21 v, vmm_index 12 v]"
    "vmm_path v = [a] @ b # [vmm_index 21 v, vmm_index 12 v]" by (simp_all add: vmm_path_def a_def b_def)
  have sm: "pte (pmem s) root a AND PTE_PRESENT = 0 \<or> pte (pmem s) root a AND PTE_PAGE_SIZE = 0"
    using small [folded v_def] unfolding vmm_soft_def path(1) by (intro small_entry [where p = "[]"]) force+
  obtain s1 where s1: "boot_step root a s = Some s1" "tbl (pmem s1) root [a] = Some (vmm_next root a s1)" "pt_inv s1 root"
    "pt_step root s s1" "same_walks root s s1" "takes_low s s1" "tables_low s1 root"
    "low_frames s1 ((if tbl (pmem s) root [a, b] = None then 1 else 0) + n)" "tbl (pmem s) root [a] \<noteq> None \<longrightarrow> s1 = s"
    using boot_step_ok [OF inv low, of "[]" root a] i sm left by auto
  let ?pdpt = "vmm_next root a s1"
  have "(if tbl (pmem s1) root ([a] @ [b]) = None then 1 else 0) + n \<le> (if tbl (pmem s) root [a, b] = None then 1 else 0) + n"
  proof (cases "tbl (pmem s) root [a] = None")
    case True
    then have "tbl (pmem s) root [a, b] = None" by (simp split: option.splits)
    then show ?thesis by simp
  next
    case False
    then show ?thesis using s1(9) by simp
  qed
  note left1 = low_frames_le [OF s1(8) this]
  have sm1: "pte (pmem s1) ?pdpt b AND PTE_PRESENT = 0 \<or> pte (pmem s1) ?pdpt b AND PTE_PAGE_SIZE = 0"
    using small [folded v_def same_walks_vmm [OF s1(5)]] unfolding vmm_soft_def path(2)
    by (intro small_entry [OF s1(2)]) force+
  obtain s2 where s2: "boot_step ?pdpt b s1 = Some s2" "tbl (pmem s2) root ([a] @ [b]) = Some (vmm_next ?pdpt b s2)" "pt_inv s2 root"
    "pt_step root s1 s2" "same_walks root s1 s2" "takes_low s1 s2" "tables_low s2 root" "low_frames s2 n"
    using boot_step_ok [OF s1(3,7,2) _ _ i(2) sm1 left1] i(1) by auto
  let ?pd = "vmm_next ?pdpt b s2"
  have t2: "tbl (pmem s2) root [a, b] = Some ?pd" using s2(2) by simp
  then have "?pd \<in> pt_tables s2 root" using i unfolding pt_tables_def by (intro CollectI exI [of _ "[a, b]"]) simp
  then have pd: "in_window ?pd" using s2(7) by (simp add: tables_low_def)
  let ?s = "s2\<lparr>pmem := set_pte (pmem s2) ?pd (vmm_index 21 v) (paddr OR 0x83)\<rparr>"
  have e: "paddr OR (PTE_PRESENT OR PTE_PAGE_SIZE OR 2) = paddr OR 0x83" by simp
  note huge = huge_leaf [OF s2(3) t2 [unfolded a_def b_def] pt_step_trans [OF s1(4) s2(4)] same_walks_trans [OF s1(5) s2(5)],
      where paddr = paddr and flags = 2, unfolded e, folded a_def b_def]
  have "vmm_direct_loop root paddr maxAddr s = vmm_direct_loop root (paddr + PAGE_SIZE_2MB) maxAddr ?s"
    using s1(1) s2(1) pd lt by (subst vmm_direct_loop.simps) (simp add: Let_def flip: v_def a_def b_def)
  moreover have "low_frames ?s n" using s2(8) by (simp add: low_frames_def pmm_ok_def free_frames_def)
  moreover have "takes_low s ?s" using s1(6) s2(6) unfolding takes_low_def by (simp add: frame_used_def) blast
  ultimately show ?thesis using huge tables_low_step [OF low huge(2) _ huge(1)] by blast
qed

text \<open>
  The loop from \<^verbatim>\<open>2 MiB * k\<close> on: the pages \<^verbatim>\<open>k\<close> to \<^verbatim>\<open>K - 1\<close> of 2 MiB become mapped one to one. A table is taken
  when \<^verbatim>\<open>k\<close> comes to a new GiB and another when it comes to a new 512 GiB: the first \<^verbatim>\<open>k\<close> pages have \<^verbatim>\<open>map_tables k\<close>.
\<close>

abbreviation page2m :: "nat \<Rightarrow> u64" where "page2m k \<equiv> of_nat k * PAGE_SIZE_2MB"

lemma page2m_less: "k < 2 ^ 26 \<Longrightarrow> unat (page2m k) = k * 0x200000 \<and> page2m k < 0x800000000000"
  by (simp add: word_less_nat_alt unat_word_ariths unat_of_nat)

lemma page2m_drop: "k < 2 ^ 26 \<Longrightarrow> drop_bit 21 (page2m k) = of_nat k"
proof -
  assume k: "k < 2 ^ 26"
  have "unat (drop_bit 21 (page2m k)) = k"
    using page2m_less [OF k] by (simp add: drop_bit_eq_div unat_div)
  then show ?thesis using k by (simp add: word_unat_eq_iff unat_of_nat)
qed

definition directly :: "nat \<Rightarrow> nat \<Rightarrow> u64 \<Rightarrow> nat \<Rightarrow> bool" where
  "directly k K w j \<longleftrightarrow> k \<le> j \<and> j < K \<and> take 3 (vmm_path w) = take 3 (vmm_path (page2m j + DIRECT_OFFSET))"

lemma directly_inj:
  assumes "directly k K w j" "directly k' K' w j'" "K \<le> 2 ^ 26" "K' \<le> 2 ^ 26"
  shows "j = j'"
proof -
  have j: "j < 2 ^ 26" "j' < 2 ^ 26" using assms by (auto simp: directly_def)
  have "take 3 (vmm_path (page2m j + DIRECT_OFFSET)) = take 3 (vmm_path (page2m j' + DIRECT_OFFSET))"
    using assms(1,2) by (simp add: directly_def)
  then have "(of_nat j :: u64) = of_nat j'"
    using direct_same [OF conjunct2 [OF page2m_less [OF j(1)]] conjunct2 [OF page2m_less [OF j(2)]]]
    by (simp only: page2m_drop [OF j(1)] page2m_drop [OF j(2)])
  then have "unat (of_nat j :: u64) = unat (of_nat j' :: u64)" by simp
  then show "j = j'" using j by (simp add: unat_of_nat)
qed

lemma page2m_Suc: "page2m k + PAGE_SIZE_2MB = page2m (Suc k)"
  by (simp add: algebra_simps)

definition map_tables :: "nat \<Rightarrow> nat" where
  "map_tables k = (k + 511) div 512 + (k + 262143) div 262144"

lemma map_tables_Suc: "map_tables (Suc k) = map_tables k + ((if 512 dvd k then 1 else 0) + (if 262144 dvd k then 1 else 0))"
proof -
  have "(Suc k + (n - 1)) div n = (k + (n - 1)) div n + (if n dvd k then 1 else 0)" if n: "0 < n" for n :: nat
  proof -
    have "Suc k + (n - 1) = Suc (k + (n - 1))" by simp
    moreover have "n dvd Suc (k + (n - 1)) \<longleftrightarrow> n dvd k" using n dvd_add_right_iff [of n n k] by (simp add: add.commute)
    ultimately show ?thesis by (auto simp: div_Suc dvd_eq_mod_eq_0)
  qed
  from this [of 512] this [of 262144] show ?thesis by (simp add: map_tables_def)
qed

lemma map_tables_mono: "k \<le> K \<Longrightarrow> map_tables k \<le> map_tables K"
  unfolding map_tables_def by (intro add_mono div_le_mono) simp_all

text \<open>Pages of the same GiB have the same path, pages of the same 512 GiB the same first index.\<close>

lemma direct_index:
  assumes "k < 2 ^ 26" "k' < 2 ^ 26"
  shows "k div 262144 = k' div 262144 \<Longrightarrow> vmm_index 39 (page2m k + DIRECT_OFFSET) = vmm_index 39 (page2m k' + DIRECT_OFFSET)"
    "k div 512 = k' div 512 \<Longrightarrow> vmm_index 30 (page2m k + DIRECT_OFFSET) = vmm_index 30 (page2m k' + DIRECT_OFFSET)"
proof -
  have bits: "bit (page2m k + DIRECT_OFFSET) m = bit (page2m k' + DIRECT_OFFSET) m"
    if "k div 2 ^ n = k' div 2 ^ n" "21 + n \<le> m" "m < 48" for n m
  proof (cases "m < 47")
    case True
    have "drop_bit (21 + n) (page2m j) = of_nat (j div 2 ^ n)" if "j < 2 ^ 26" for j
    proof -
      have "drop_bit (21 + n) (page2m j) = drop_bit n (drop_bit 21 (page2m j))" by (simp add: add.commute)
      also have "\<dots> = drop_bit n (of_nat j)" by (simp only: page2m_drop [OF that])
      also have "\<dots> = of_nat (j div 2 ^ n)" using that
        by (simp add: word_unat_eq_iff unsigned_drop_bit_eq unat_of_nat div_le_dividend [THEN le_less_trans]) (simp add: drop_bit_eq_div take_bit_nat_eq_self)
      finally show ?thesis .
    qed
    then have "drop_bit (21 + n) (page2m k) = drop_bit (21 + n) (page2m k')" using assms that(1) by simp
    from arg_cong [OF this, of "\<lambda>x. bit x (m - (21 + n))"] have "bit (page2m k) m = bit (page2m k') m"
      using that(2) by (simp add: bit_drop_bit_eq)
    then show ?thesis using direct_or(2) [OF conjunct2 [OF page2m_less [OF assms(1)]] True]
        direct_or(2) [OF conjunct2 [OF page2m_less [OF assms(2)]] True] by simp
  next
    case False
    then have "m = 47" using that(3) by simp
    then show ?thesis using direct_or(3) [OF conjunct2 [OF page2m_less [OF assms(1)]]]
        direct_or(3) [OF conjunct2 [OF page2m_less [OF assms(2)]]] by simp
  qed
  show "k div 262144 = k' div 262144 \<Longrightarrow> vmm_index 39 (page2m k + DIRECT_OFFSET) = vmm_index 39 (page2m k' + DIRECT_OFFSET)"
    unfolding vmm_index_bits using bits [of 18] by simp
  show "k div 512 = k' div 512 \<Longrightarrow> vmm_index 30 (page2m k + DIRECT_OFFSET) = vmm_index 30 (page2m k' + DIRECT_OFFSET)"
    unfolding vmm_index_bits using bits [of 9] by simp
qed

text \<open>The tables for the page \<^verbatim>\<open>k\<close> that the pages before it have got.\<close>

definition path_here :: "'a pmm_scheme \<Rightarrow> u64 \<Rightarrow> nat \<Rightarrow> bool" where
  "path_here s root k \<longleftrightarrow>
     (\<not> 262144 dvd k \<longrightarrow> tbl (pmem s) root [vmm_index 39 (page2m k + DIRECT_OFFSET)] \<noteq> None) \<and>
     (\<not> 512 dvd k \<longrightarrow> tbl (pmem s) root [vmm_index 39 (page2m k + DIRECT_OFFSET), vmm_index 30 (page2m k + DIRECT_OFFSET)] \<noteq> None)"

lemma path_here_Suc:
  assumes "Suc k < 2 ^ 26" "tbl (pmem s) root [vmm_index 39 (page2m k + DIRECT_OFFSET), vmm_index 30 (page2m k + DIRECT_OFFSET)] \<noteq> None"
  shows "path_here s root (Suc k)"
proof -
  have k: "k < 2 ^ 26" using assms(1) by simp
  have one: "tbl (pmem s) root [vmm_index 39 (page2m k + DIRECT_OFFSET)] \<noteq> None" using assms(2) by (auto split: option.splits)
  have d: "Suc k div n = k div n" if "\<not> n dvd Suc k" for n using that by (simp add: div_Suc dvd_eq_mod_eq_0)
  have "512 dvd Suc k" if "262144 dvd Suc k" using that by (rule dvd_trans [rotated]) simp
  then show ?thesis
    using one assms(2) direct_index [OF assms(1) k] d [of 262144] d [of 512] unfolding path_here_def by metis
qed

lemma vmm_direct_loop_ok:
  assumes "K \<le> 2 ^ 26" "\<forall>j \<le> K. page2m j < maxAddr \<longleftrightarrow> j < K"
  shows "k \<le> K \<Longrightarrow> pt_inv s root \<Longrightarrow> low_frames s (map_tables K - map_tables k) \<Longrightarrow> tables_low s root \<Longrightarrow>
    (k < K \<longrightarrow> path_here s root k) \<Longrightarrow>
    \<forall>j e l. k \<le> j \<longrightarrow> j < K \<longrightarrow> vmm_soft s root (page2m j + DIRECT_OFFSET) = Some (e, l) \<longrightarrow> l < 2 \<Longrightarrow>
    \<exists>s'. vmm_direct_loop root (page2m k) maxAddr s = Some s' \<and> pt_inv s' root \<and> pt_step root s s' \<and>
      (\<forall>j w. directly k K w j \<longrightarrow> vmm_soft s' root w = Some (page2m j OR 0x83, 1)) \<and>
      (\<forall>w. (\<forall>j. \<not> directly k K w j) \<longrightarrow> vmm_soft s' root w = vmm_soft s root w)"
proof (induction "K - k" arbitrary: k s)
  case 0
  then have k: "k = K" by simp
  then have "\<not> page2m k < maxAddr" using assms(2) by simp
  then have "vmm_direct_loop root (page2m k) maxAddr s = Some s" by (subst vmm_direct_loop.simps) (simp only: if_False)
  with "0.prems"(2) show ?case by (auto simp: directly_def k)
next
  case (Suc d)
  have k: "k < K" and d: "d = K - Suc k" using Suc.hyps(2) by simp_all
  let ?v = "page2m k + DIRECT_OFFSET" and ?e = "page2m k OR 0x83"
  let ?a = "vmm_index 39 ?v" and ?b = "vmm_index 30 ?v"
  have k26: "k < 2 ^ 26" using k assms(1) by simp
  have "(if tbl (pmem s) root [?a] = None then 1 else 0) + ((if tbl (pmem s) root [?a, ?b] = None then 1 else 0) +
      (map_tables K - map_tables (Suc k))) \<le> map_tables K - map_tables k"
    using Suc.prems(5) [rule_format, OF k] map_tables_Suc [of k] map_tables_mono [of "Suc k" K] k unfolding path_here_def
    by (auto simp: Suc_le_eq simp del: tbl.simps)
  note left = low_frames_le [OF Suc.prems(3) this]
  have sm: "vmm_soft s root ?v = Some (e, l) \<Longrightarrow> l < 2" for e l using Suc.prems(6) k by blast
  have lt: "page2m k < maxAddr" using assms(2) k by simp
  obtain s1 where s1: "vmm_direct_loop root (page2m k) maxAddr s = vmm_direct_loop root (page2m (Suc k)) maxAddr s1"
    "pt_inv s1 root" "pt_step root s s1" "low_frames s1 (map_tables K - map_tables (Suc k))"
    "\<And>w. vmm_soft s1 root w = (if take 3 (vmm_path w) = take 3 (vmm_path ?v) then Some (?e, 1) else vmm_soft s root w)"
    "tables_low s1 root" "tbl (pmem s1) root [?a, ?b] \<noteq> None"
    using boot_turn [OF Suc.prems(2,4) lt _ left] sm unfolding page2m_Suc by blast
  have here1: "Suc k < K \<longrightarrow> path_here s1 root (Suc k)" using path_here_Suc [OF _ s1(7)] assms(1) by simp
  have sm1: "\<forall>j e l. Suc k \<le> j \<longrightarrow> j < K \<longrightarrow> vmm_soft s1 root (page2m j + DIRECT_OFFSET) = Some (e, l) \<longrightarrow> l < 2"
  proof (intro allI impI)
    fix j e l assume j: "Suc k \<le> j" "j < K" "vmm_soft s1 root (page2m j + DIRECT_OFFSET) = Some (e, l)"
    have "k \<le> j" using j(1) by simp
    with Suc.prems(6) j(2) have "vmm_soft s root (page2m j + DIRECT_OFFSET) = Some (e, l) \<Longrightarrow> l < 2" by blast
    with j(3) show "l < 2" unfolding s1(5) by (simp split: if_splits)
  qed
  obtain s' where s': "vmm_direct_loop root (page2m (Suc k)) maxAddr s1 = Some s'" "pt_inv s' root" "pt_step root s1 s'"
    "\<forall>j w. directly (Suc k) K w j \<longrightarrow> vmm_soft s' root w = Some (page2m j OR 0x83, 1)"
    "\<forall>w. (\<forall>j. \<not> directly (Suc k) K w j) \<longrightarrow> vmm_soft s' root w = vmm_soft s1 root w"
    using Suc.hyps(1) [OF d _ s1(2,4,6) here1 sm1] k by (auto simp: Suc_le_eq)
  have here: "take 3 (vmm_path w) = take 3 (vmm_path ?v) \<longleftrightarrow> directly k K w k" for w using k by (simp add: directly_def)
  have later: "directly k K w j \<longleftrightarrow> (j = k \<and> directly k K w k) \<or> directly (Suc k) K w j" for w j
    using k by (auto simp: directly_def Suc_le_eq)
  have A: "vmm_soft s' root w = Some (page2m j OR 0x83, 1)" if a: "directly k K w j" for j w
  proof (cases "directly (Suc k) K w j")
    case True
    then show ?thesis using s'(4) by blast
  next
    case False
    then have "j = k" "directly k K w k" using a later by blast+
    moreover have "\<not> directly (Suc k) K w j'" for j'
      using directly_inj [OF \<open>directly k K w k\<close> _ assms(1) assms(1), of "Suc k" j'] by (auto simp: directly_def)
    ultimately show ?thesis using s'(5) s1(5) here by simp
  qed
  have B: "vmm_soft s' root w = vmm_soft s root w" if "\<forall>j. \<not> directly k K w j" for w
  proof -
    have "\<not> directly (Suc k) K w j" "\<not> directly k K w k" for j using that later by blast+
    with s'(5) s1(5) here show ?thesis by simp
  qed
  show ?case
    using s1(1) s'(1,2) pt_step_trans [OF s1(3) s'(3)] A B by (intro exI [of _ s']) simp
qed

text \<open>The new top table: empty but for the entry of the kernel, shared with the old address space.\<close>

lemma new_root:
  assumes inv: "pt_inv s old" and f: "page_aligned f" "f \<noteq> 0" "\<not> frame_used s f"
  defines "m \<equiv> memset (pmem s) f 0 PAGE_SIZE_4KB"
  defines "m2 \<equiv> set_pte m f 511 (pte m old 511)"
  shows "\<And>p. idx_ok p \<Longrightarrow> length p \<le> 3 \<Longrightarrow>
      tbl m2 f p = (if p = [] then Some f else if hd p = 511 then tbl (pmem s) old p else None)"
    "\<And>i r. idx_ok (i # r) \<Longrightarrow> length r = 3 \<Longrightarrow> soft_walk m2 f (i # r) = (if i = 511 then soft_walk (pmem s) old (i # r) else None)"
    "\<And>j. j < 512 \<Longrightarrow> pte m2 f j = (if j = 511 then pte (pmem s) old j else 0)"
proof -
  let ?e = "pte (pmem s) old 511"
  have old: "page_aligned old" "old \<noteq> f" using pt_invD(1) [OF inv] pt_invD(3) [OF inv, of "[]" old] f(3) by auto
  have get: "pte m2 g j = (if g = f then if j = 511 then ?e else 0 else pte (pmem s) g j)"
    if "page_aligned g" "j < 512" for g j
  proof -
    have "(511 :: u64) < 512" by simp
    note st = pte_set_pte [OF f(1) that(1) this that(2)] and old511 = pte_memset [OF f(1) old(1) this]
    show ?thesis
      unfolding m2_def m_def st old511 pte_memset [OF f(1) that] using old(2) by simp
  qed
  have sub: "pte m2 h j = pte (pmem s) h j"
    if "child ?e = Some g" "tbl (pmem s) g q = Some h" "idx_ok q" "length q \<le> 2" "j < 512" for g q h j
  proof -
    have "tbl (pmem s) old (511 # q) = Some h" using that(1,2) by simp
    then have "frame_used s h \<and> page_aligned h" using pt_invD(3) [OF inv, of "511 # q" h] that(3,4) by simp
    then show ?thesis using get [of h j] that(5) f(3) by auto
  qed
  show e: "pte m2 f j = (if j = 511 then pte (pmem s) old j else 0)" if "j < 512" for j using get [OF f(1) that] by simp
  show "tbl m2 f p = (if p = [] then Some f else if hd p = 511 then tbl (pmem s) old p else None)"
    if p: "idx_ok p" "length p \<le> 3" for p
  proof (cases p)
    case (Cons i r)
    then have i: "i < 512" "idx_ok r" "length r \<le> 2" using p by simp_all
    have "tbl m2 g r = tbl (pmem s) g r" if g: "child ?e = Some g" for g
    proof (rule tbl_cong [OF child_aligned [OF g] i(2)])
      show "pte m2 h j = pte (pmem s) h j" if "r = q @ j # r'" "tbl (pmem s) g q = Some h" for q j r' h
        using sub [OF g that(2)] that(1) i(2,3) by simp
    qed
    then show ?thesis using e [OF i(1)] by (simp add: Cons child_def split: option.split)
  qed simp
  show "soft_walk m2 f (i # r) = (if i = 511 then soft_walk (pmem s) old (i # r) else None)"
    if p: "idx_ok (i # r)" "length r = 3" for i r
  proof -
    have "soft_walk m2 g r = soft_walk (pmem s) g r" if g: "child ?e = Some g" for g
    proof (rule walk_cong)
      show "pte m2 h j = pte (pmem s) h j" if "r = q @ j # r'" "tbl (pmem s) g q = Some h" for q j r' h
        using sub [OF g that(2)] that(1) p by simp
    qed
    then show ?thesis using e [of i] p by (auto simp: Let_def child_def)
  qed
qed

lemma vmm_init_direct_ok:
  assumes inv: "pt_inv s (cpu_cr3 s)" and K: "K \<le> 255 * 2 ^ 18" "\<forall>j \<le> K. page2m j < maxAddr \<longleftrightarrow> j < K"
    and left: "low_frames s (Suc (map_tables K))" and low: "tables_low s (cpu_cr3 s)"
  shows "\<exists>s'. vmm_init_direct_mapping maxAddr s = Some s' \<and> pt_inv s' (cpu_cr3 s') \<and> cpu_cr3 s' \<noteq> cpu_cr3 s \<and>
    (\<forall>j w. directly 0 K w j \<longrightarrow> vmm_soft s' (cpu_cr3 s') w = Some (page2m j OR 0x83, 1)) \<and>
    (\<forall>w. vmm_index 39 w = 511 \<longrightarrow> vmm_soft s' (cpu_cr3 s') w = vmm_soft s (cpu_cr3 s) w)"
proof -
  let ?old = "cpu_cr3 s"
  obtain f bm where f: "pmm_alloc_page s = Some (f, s\<lparr>bitmap := bm\<rparr>)" "f \<noteq> 0" "page_aligned f" "\<not> frame_used s f"
    "low_frames (s\<lparr>bitmap := bm\<rparr>) (map_tables K)" "\<And>b. frame_used (s\<lparr>bitmap := bm\<rparr>) b \<longleftrightarrow> b = f \<or> frame_used s b"
    "in_window f"
    using low_alloc [OF left] by blast
  define m where "m = memset (pmem s) f 0 PAGE_SIZE_4KB"
  define m2 where "m2 = set_pte m f 511 (pte m ?old 511)"
  define s2 where "s2 = s\<lparr>bitmap := bm, pmem := m2\<rparr>"
  note root = new_root [OF inv f(3,2,4), folded m_def, folded m2_def]
  have pm: "pmem s2 = m2" by (simp add: s2_def)
  have used: "frame_used s2 b \<longleftrightarrow> b = f \<or> frame_used s b" for b
    using f(6) [of b] by (simp add: frame_used_def s2_def)
  have new: "g \<noteq> f \<and> hd p = 511 \<and> tbl (pmem s) ?old p = Some g" if "idx_ok p" "length p \<le> 3" "tbl m2 f p = Some g" "p \<noteq> []" for p g
    using root(1) [OF that(1,2)] that(3,4) pt_invD(3) [OF inv that(1,2)] f(4) by (auto split: if_splits)
  have nil: "tbl m2 f [] = Some f" by simp
  have inv2: "pt_inv s2 f"
    unfolding pt_inv_def pm
  proof (intro conjI allI impI f(3))
    show "total_pages s2 \<le> 0x10000000000" using pt_invD(4) [OF inv] by (simp add: s2_def)
  next
    fix j :: u64 assume j: "j < 512" "pte m2 f j AND PTE_PRESENT \<noteq> 0"
    then show "pte m2 f j AND PTE_PAGE_SIZE = 0" using root(3) [OF j(1)] pt_invD(5) [OF inv j(1)] by (auto split: if_splits)
  next
    fix p q g
    assume a: "idx_ok p" "idx_ok q" "length p \<le> 3" "length q \<le> 3" "tbl m2 f p = Some g" "tbl m2 f q = Some g"
    show "p = q"
    proof (cases "p = [] \<or> q = []")
      case True
      then show ?thesis using new [OF a(1,3,5)] new [OF a(2,4,6)] a(5,6) by (cases "p = []"; cases "q = []") auto
    next
      case False
      then show ?thesis using pt_invD(2) [OF inv a(1-4)] new [OF a(1,3,5)] new [OF a(2,4,6)] by blast
    qed
  next
    fix p g
    assume a: "idx_ok p" "length p \<le> 3" "tbl m2 f p = Some g"
    then show "g \<noteq> 0" "frame_used s2 g"
      using new [OF a] pt_invD(3) [OF inv a(1,2)] f(2) used by (cases "p = []"; auto)+
  qed
  have left2: "low_frames s2 (map_tables K - map_tables 0)"
    using f(5) by (simp add: s2_def low_frames_def pmm_ok_def free_frames_def map_tables_def)
  have here0: "0 < K \<longrightarrow> path_here s2 f 0" by (simp add: path_here_def)
  have low2: "tables_low s2 f"
    unfolding tables_low_def
  proof
    fix g assume "g \<in> pt_tables s2 f"
    then obtain p where p: "idx_ok p" "length p \<le> 3" "tbl m2 f p = Some g" by (auto simp: pt_tables_def pm)
    show "in_window g"
    proof (cases "p = []")
      case True
      then show ?thesis using p f(7) by simp
    next
      case False
      then have "g \<in> pt_tables s ?old" using new [OF p] p unfolding pt_tables_def by blast
      then show ?thesis using low by (simp add: tables_low_def)
    qed
  qed
  have "?old \<in> pt_tables s ?old" unfolding pt_tables_def by (intro CollectI exI [of _ "[]"]) simp
  then have old: "in_window ?old" using low by (simp add: tables_low_def)
  have walk2: "vmm_soft s2 f w = (if vmm_index 39 w = 511 then vmm_soft s ?old w else None)" for w
    using root(2) [of "vmm_index 39 w" "tl (vmm_path w)"] vmm_index_less
    by (simp add: vmm_soft_def vmm_path_def pm)
  have K26: "K \<le> 2 ^ 26" using K(1) by simp
  have idx: "vmm_index 39 (page2m j + DIRECT_OFFSET) \<noteq> 511" if "j < K" for j
  proof
    assume a: "vmm_index 39 (page2m j + DIRECT_OFFSET) = 511"
    have "vmm_index 39 (- 1) = 511" by (simp add: vmm_index_def mask_eq_exp_minus_1)
    with a have "vmm_index 39 (page2m j + DIRECT_OFFSET) = vmm_index 39 (- 1)" by simp
    then have b: "bit (page2m j + DIRECT_OFFSET) (39 + n)" if "n < 9" for n
      using that unfolding vmm_index_bits by simp
    have j: "j < 2 ^ 26" using that K26 by simp
    have "bit (page2m j) (39 + n)" if "n < 8" for n
      using b [of n] direct_or(2) [OF conjunct2 [OF page2m_less [OF j]], of "39 + n"] that by simp
    then have "drop_bit 39 (page2m j) AND mask 8 = mask 8"
      by (intro bit_word_eqI) (auto simp: bit_simps)
    then have "mask 8 \<le> drop_bit 39 (page2m j)" by (metis word_and_le2)
    then have "255 \<le> unat (drop_bit 39 (page2m j))" by (simp add: word_le_nat_alt mask_eq_exp_minus_1)
    also have "unat (drop_bit 39 (page2m j)) = j * 0x200000 div 2 ^ 39"
      using page2m_less [OF j] by (simp add: drop_bit_eq_div unat_div)
    finally show False using that K(1) by simp
  qed
  have small: "\<forall>j e l. 0 \<le> j \<longrightarrow> j < K \<longrightarrow> vmm_soft s2 f (page2m j + DIRECT_OFFSET) = Some (e, l) \<longrightarrow> l < 2"
    using idx by (simp add: walk2)
  obtain s' where s': "vmm_direct_loop f (page2m 0) maxAddr s2 = Some s'" "pt_inv s' f" "pt_step f s2 s'"
    "\<forall>j w. directly 0 K w j \<longrightarrow> vmm_soft s' f w = Some (page2m j OR 0x83, 1)"
    "\<forall>w. (\<forall>j. \<not> directly 0 K w j) \<longrightarrow> vmm_soft s' f w = vmm_soft s2 f w"
    using vmm_direct_loop_ok [OF K26 K(2) _ inv2 left2 low2 here0 small] by auto
  have "vmm_init_direct_mapping maxAddr s = Some (write_cr3 f s')"
    using f(1,7) old s'(1) by (simp add: vmm_init_direct_mapping_def read_cr3_def s2_def m2_def m_def)
  moreover have "f \<noteq> ?old" using pt_invD(3) [OF inv, of "[]"] f(4) by auto
  moreover have "vmm_soft s' f w = vmm_soft s ?old w" if "vmm_index 39 w = 511" for w
  proof -
    have "\<not> directly 0 K w j" for j
    proof
      assume "directly 0 K w j"
      then have "j < K" "vmm_index 39 w = vmm_index 39 (page2m j + DIRECT_OFFSET)"
        by (simp_all add: directly_def vmm_path_def)
      with idx that show False by simp
    qed
    then show ?thesis using s'(5) walk2 that by simp
  qed
  moreover have "pt_inv (write_cr3 f s') f" "vmm_soft (write_cr3 f s') f w = vmm_soft s' f w" for w
    using s'(2) by (simp_all add: write_cr3_def pt_inv_def frame_used_def vmm_soft_def)
  ultimately show ?thesis using s'(4) by (intro exI [of _ "write_cr3 f s'"]) (simp add: write_cr3_def)
qed

text \<open>When the lowest free frame is outside the window, the new top table cannot be written.\<close>

lemma vmm_init_direct_mapping_faults:
  "pmm_alloc_page s = Some (f, s1) \<Longrightarrow> \<not> in_window f \<Longrightarrow> vmm_init_direct_mapping maxAddr s = None"
  by (simp add: vmm_init_direct_mapping_def)

section \<open>Properties\<close>

text \<open>A machine with an empty address space at frame 3 and the frames 4 to 15 free.\<close>

definition vmm_example :: pmm where
  "vmm_example = pmm_example\<lparr>bitmap := (\<lambda>i. if i = 0 then 0x0F else 0)\<rparr>"

lemma vmm_example_pt: "pt_inv vmm_example 0x3000"
proof -
  have "load_bytes n (\<lambda>_. 0) a = 0" for n a by (induction n arbitrary: a) simp_all
  then have "pte (pmem vmm_example) t i = 0" for t i
    by (simp add: vmm_example_def pmm_example_def pte_def ld64_def)
  then have "tbl (pmem vmm_example) 0x3000 p = (if p = [] then Some 0x3000 else None)" for p
    by (cases p) (simp_all add: child_def)
  moreover have "frame_used vmm_example 0x3000" "page_aligned 0x3000"
    by (simp_all add: frame_used_def page_aligned_def vmm_example_def pmm_example_def BITMAP_TEST_def)
  moreover have "total_pages vmm_example \<le> 0x10000000000" by (simp add: vmm_example_def pmm_example_def)
  ultimately show ?thesis
    using \<open>\<And>t i. pte (pmem vmm_example) t i = 0\<close> by (auto simp: pt_inv_def split: if_splits)
qed

lemma vmm_example_left: "frames_left vmm_example 3"
proof -
  have "{4, 5, 6} \<subseteq> free_frames vmm_example"
    by (auto simp: free_frames_def vmm_example_def pmm_example_def BITMAP_TEST_def)
  then have "card {4 :: u64, 5, 6} \<le> card (free_frames vmm_example)" by (rule card_mono [rotated]) simp
  moreover have "0 \<notin> free_frames vmm_example"
    by (simp add: free_frames_def vmm_example_def pmm_example_def BITMAP_TEST_def)
  moreover have "pmm_ok vmm_example" by (simp add: pmm_ok_def vmm_example_def pmm_example_def)
  ultimately show ?thesis by (simp add: frames_left_def)
qed

lemma vmm_example_walk: "vmm_walk vmm_example 0x3000 v = None"
proof -
  have "load_bytes n (\<lambda>_. 0) a = 0" for n a by (induction n arbitrary: a) simp_all
  then have "pte (pmem vmm_example) t i = 0" for t i
    by (simp add: vmm_example_def pmm_example_def pte_def ld64_def)
  then show ?thesis by (simp add: vmm_walk_def vmm_path_def)
qed

text \<open>
  The page tables as \<^verbatim>\<open>boot.s\<close> leaves them, in the frames 1 to 3: the window of the kernel, 64 pages of 2 MiB
  at \<^verbatim>\<open>KERNEL_OFFSET\<close>, and nothing else.
\<close>

fun boot_pd :: "nat \<Rightarrow> mem \<Rightarrow> mem" where
  "boot_pd 0 m = m"
| "boot_pd (Suc n) m = set_pte (boot_pd n m) 0x2000 (of_nat n) (page2m n OR 0x83)"

definition boot_tables :: mem where
  "boot_tables = boot_pd 64 (set_pte (set_pte (\<lambda>_. 0) 0x3000 511 0x1003) 0x1000 510 0x2003)"

definition boot_example :: pmm where
  "boot_example = vmm_example\<lparr>pmem := boot_tables, cpu_cr3 := 0x3000\<rparr>"

lemma boot_pd_pte:
  assumes "page_aligned g" "j < 512"
  shows "n \<le> 64 \<Longrightarrow> pte (boot_pd n m) g j = (if g = 0x2000 \<and> j < of_nat n then j * PAGE_SIZE_2MB OR 0x83 else pte m g j)"
proof (induction n)
  case (Suc n)
  have al: "page_aligned 0x2000" by (simp add: page_aligned_def)
  have un: "unat (of_nat n :: u64) = n" "unat (of_nat (Suc n) :: u64) = Suc n"
    using Suc.prems by (simp_all add: unat_of_nat del: of_nat_Suc)
  have n: "(of_nat n :: u64) < 512" using Suc.prems un by (simp add: word_less_nat_alt)
  have "j < of_nat (Suc n) \<longleftrightarrow> j < of_nat n \<or> j = of_nat n"
    unfolding word_less_nat_alt word_unat_eq_iff un by (simp only: less_Suc_eq)
  then show ?case
    using Suc pte_set_pte [OF al assms(1) n assms(2), of "boot_pd n m"] by auto
qed simp

lemma boot_pte:
  assumes "page_aligned g" "j < 512"
  shows "pte boot_tables g j = (if g = 0x2000 \<and> j < 64 then j * PAGE_SIZE_2MB OR 0x83
    else if g = 0x1000 \<and> j = 510 then 0x2003 else if g = 0x3000 \<and> j = 511 then 0x1003 else 0)"
proof -
  have "load_bytes n (\<lambda>_. 0) a = 0" for n a by (induction n arbitrary: a) simp_all
  then have z: "pte (\<lambda>_. 0) t i = 0" for t i by (simp add: pte_def ld64_def)
  have al: "page_aligned 0x3000" "page_aligned 0x1000" by (simp_all add: page_aligned_def)
  have st: "pte (set_pte m 0x3000 511 v) g j = (if g = 0x3000 \<and> j = 511 then v else pte m g j)"
    "pte (set_pte m 0x1000 510 v) g j = (if g = 0x1000 \<and> j = 510 then v else pte m g j)" for m v
    using pte_set_pte [OF al(1) assms(1) _ assms(2), of 511] pte_set_pte [OF al(2) assms(1) _ assms(2), of 510] by simp_all
  have pd: "pte (boot_pd 64 m) g j = (if g = 0x2000 \<and> j < 64 then j * PAGE_SIZE_2MB OR 0x83 else pte m g j)" for m
    using boot_pd_pte [OF assms, of 64 m] by simp
  show ?thesis unfolding boot_tables_def pd st z ..
qed

lemma boot_big: "child (j * PAGE_SIZE_2MB OR 0x83) = None"
proof -
  have "bit (j * PAGE_SIZE_2MB OR 0x83) 7" by (simp add: bit_or_iff bit_numeral_rec)
  then show ?thesis by (simp add: child_def pte_bits)
qed

lemma boot_tbl:
  assumes "idx_ok p"
  shows "tbl boot_tables 0x3000 p = (if p = [] then Some 0x3000 else if p = [511] then Some 0x1000
    else if p = [511, 510] then Some 0x2000 else None)"
proof -
  have al: "page_aligned 0x3000" "page_aligned 0x2000" "page_aligned 0x1000" by (simp_all add: page_aligned_def)
  note e = boot_pte [OF al(1)] boot_pte [OF al(2)] boot_pte [OF al(3)]
  have c: "child 0x1003 = Some 0x1000" "child 0x2003 = Some 0x2000" "child 0 = None" by (simp_all add: child_def)
  have two: "tbl boot_tables 0x2000 (k # r) = None" if "k < 512" for k r using that by (simp add: e c boot_big)
  have one: "tbl boot_tables 0x1000 (j # r) = (if j = 510 then tbl boot_tables 0x2000 r else None)" if "j < 512" for j r
    using that by (simp add: e c)
  have top: "tbl boot_tables 0x3000 (i # r) = (if i = 511 then tbl boot_tables 0x1000 r else None)" if "i < 512" for i r
    using that by (simp add: e c)
  show ?thesis
  proof (cases p)
    case (Cons i q)
    note p = Cons
    show ?thesis
    proof (cases q)
      case (Cons j r)
      then show ?thesis using assms p top one two by (cases r) (simp_all del: tbl.simps(2))
    qed (use assms p top in \<open>simp del: tbl.simps(2)\<close>)
  qed simp
qed

lemma boot_example_pt: "pt_inv boot_example 0x3000"
proof -
  have m: "pmem boot_example = boot_tables" by (simp add: boot_example_def)
  have al: "page_aligned 0x3000" "page_aligned 0x2000" "page_aligned 0x1000" by (simp_all add: page_aligned_def)
  have u: "frame_used boot_example 0x3000" "frame_used boot_example 0x2000" "frame_used boot_example 0x1000"
    by (simp_all add: al frame_used_def boot_example_def vmm_example_def pmm_example_def BITMAP_TEST_def)
  show ?thesis
    unfolding pt_inv_def m
  proof (intro conjI allI impI al(1))
    show "total_pages boot_example \<le> 0x10000000000" by (simp add: boot_example_def vmm_example_def pmm_example_def)
    show "pte boot_tables 0x3000 i AND PTE_PAGE_SIZE = 0" if "i < 512" for i using boot_pte [OF al(1) that] by simp
    show "p = q" if "idx_ok p" "idx_ok q" "tbl boot_tables 0x3000 p = Some g" "tbl boot_tables 0x3000 q = Some g" for p q g
      using that boot_tbl [OF that(1)] boot_tbl [OF that(2)] by (auto split: if_splits)
    show "g \<noteq> 0" "frame_used boot_example g" if "idx_ok p" "tbl boot_tables 0x3000 p = Some g" for p g
      using that boot_tbl [OF that(1)] u by (auto split: if_splits)
  qed
qed

lemma boot_example_walk:
  "vmm_walk boot_example 0x3000 v = (if vmm_index 39 v = 511 \<and> vmm_index 30 v = 510 \<and> vmm_index 21 v < 64
     then Some (vmm_index 21 v * PAGE_SIZE_2MB OR 0x83, 1) else None)"
proof -
  have al: "page_aligned 0x3000" "page_aligned 0x2000" "page_aligned 0x1000" by (simp_all add: page_aligned_def)
  note e = boot_pte [OF al(1)] boot_pte [OF al(2)] boot_pte [OF al(3)]
  have "bit (j * PAGE_SIZE_2MB OR 0x83) 7" "bit (j * PAGE_SIZE_2MB OR 0x83) 0" for j
    by (simp_all add: bit_or_iff bit_numeral_rec)
  then have f: "(j * PAGE_SIZE_2MB OR 0x83) AND 1 \<noteq> 0" "(j * PAGE_SIZE_2MB OR 0x83) AND 0x80 \<noteq> 0" for j
    by (simp_all add: pte_bits)
  show ?thesis
    using f [of "vmm_index 21 v"]
    by (simp add: vmm_walk_def boot_example_def vmm_path_def Let_def e vmm_index_less)
qed

lemma boot_example_low: "low_frames boot_example 3"
proof -
  have "{4, 5, 6} \<subseteq> {k \<in> free_frames boot_example. k < 0x8000}"
    by (auto simp: free_frames_def boot_example_def vmm_example_def pmm_example_def BITMAP_TEST_def)
  then have "card {4 :: u64, 5, 6} \<le> card {k \<in> free_frames boot_example. k < 0x8000}" by (rule card_mono [rotated]) simp
  moreover have "0 \<notin> free_frames boot_example"
    by (simp add: free_frames_def boot_example_def vmm_example_def pmm_example_def BITMAP_TEST_def)
  ultimately show ?thesis by (simp add: low_frames_def pmm_ok_def boot_example_def vmm_example_def pmm_example_def)
qed

text \<open>
  C5: mapping a 4 KiB page succeeds when three frames are free and no huge page covers the address:
  afterwards the processor's walk of the address ends in the entry for the frame with the given
  flags, the walk of every address in another page gives what it gave before, the tables still
  form a tree of frames in use, memory outside this address space's tables and the frames that
  were free is untouched, and the TLB entry of the address is invalidated.
\<close>

theorem vmm_map_page_correct:
  assumes "pt_inv s root" "frames_left s 3" "\<forall>e l. vmm_walk s root v = Some (e, l) \<longrightarrow> l = 0"
  shows "\<exists>s'. vmm_map_page root paddr v PAGE_SIZE_4KB flags s = Some (invalidate v s') \<and>
    vmm_walk s' root v = Some (paddr OR (PTE_PRESENT OR flags), 0) \<and>
    (\<forall>w. vmm_walk s' root w = (if vmm_path w = vmm_path v then vmm_walk s' root v else vmm_walk s root w)) \<and>
    pt_inv s' root \<and> pt_step root s s'"
proof -
  have left: "frames_left s (Suc (Suc (Suc 0)))" using assms(2) by (simp add: numeral_3_eq_3)
  have small: "vmm_walk s root v = Some (e, l) \<Longrightarrow> l = 0" for e l using assms(3) by blast
  obtain s' where s': "vmm_map_page root paddr v PAGE_SIZE_4KB flags s = Some (invalidate v s')"
    "pt_inv s' root" "pt_step root s s'" "vmm_walk s' root v = Some (paddr OR (PTE_PRESENT OR flags), 0)"
    "\<forall>w. vmm_path w \<noteq> vmm_path v \<longrightarrow> vmm_walk s' root w = vmm_walk s root w"
    using vmm_map_4k [OF assms(1) left, of v paddr flags] small by blast
  have "vmm_walk s' root w = (if vmm_path w = vmm_path v then vmm_walk s' root v else vmm_walk s root w)" for w
    using s'(5) by (cases "vmm_path w = vmm_path v") (auto simp: vmm_walk_def)
  with s' show ?thesis by blast
qed

theorem vmm_map_page_correct_witness:
  "\<exists>s'. vmm_map_page 0x3000 0xABC000 0xFFFFC00000001000 PAGE_SIZE_4KB 2 vmm_example =
      Some (invalidate 0xFFFFC00000001000 s') \<and>
    vmm_walk s' 0x3000 0xFFFFC00000001000 = Some (0xABC003, 0) \<and> vmm_walk s' 0x3000 0xFFFFC00000000000 = None"
proof -
  let ?v = "0xFFFFC00000001000 :: u64" and ?w = "0xFFFFC00000000000 :: u64"
  have ne: "vmm_path ?w \<noteq> vmm_path ?v" by (simp add: vmm_path_def vmm_index_def)
  have "\<forall>e l. vmm_walk vmm_example 0x3000 ?v = Some (e, l) \<longrightarrow> l = 0"
    unfolding vmm_example_walk by simp
  note th = vmm_map_page_correct [OF vmm_example_pt vmm_example_left this, where paddr = "0xABC000" and flags = 2]
  have e: "(0xABC000 OR (PTE_PRESENT OR 2) :: u64) = 0xABC003" by simp
  show ?thesis
    using th unfolding e
  proof (elim exE conjE, goal_cases)
    case (1 s')
    have "vmm_walk s' 0x3000 ?w = None" using 1(3) [rule_format, of ?w] ne by (simp only: vmm_example_walk if_False)
    with 1(1,2) show ?case by blast
  qed
qed

text \<open>
  C30: mapping a 2 MiB page, which needs two frames at most, gives every address of the 2 MiB range
  one huge entry, whatever 4 KiB pages were mapped there, and leaves the others as they were.
\<close>

theorem vmm_map_huge_correct:
  assumes "pt_inv s root" "frames_left s 2" "\<forall>e l. vmm_walk s root v = Some (e, l) \<longrightarrow> l < 2"
  shows "\<exists>s'. vmm_map_page root paddr v PAGE_SIZE_2MB flags s = Some (invalidate v s') \<and>
    (\<forall>w. vmm_walk s' root w = (if take 3 (vmm_path w) = take 3 (vmm_path v)
       then Some (paddr OR (PTE_PRESENT OR PTE_PAGE_SIZE OR flags), 1) else vmm_walk s root w)) \<and>
    pt_inv s' root \<and> pt_step root s s'"
proof -
  have left: "frames_left s (Suc (Suc 0))" using assms(2) by (simp add: numeral_2_eq_2)
  show ?thesis using vmm_map_2m [OF assms(1) left, of v paddr flags] assms(3) by blast
qed

theorem vmm_map_huge_correct_witness:
  "\<exists>s'. vmm_map_page 0x3000 0x40000000 0xFFFFFFFFC0000000 PAGE_SIZE_2MB 2 vmm_example = Some s' \<and>
    vmm_walk s' 0x3000 0xFFFFFFFFC0123456 = Some (0x40000083, 1)"
proof -
  have "take 3 (vmm_path 0xFFFFFFFFC0123456) = take 3 (vmm_path 0xFFFFFFFFC0000000)"
    by (simp add: vmm_path_def vmm_index_def)
  moreover have "frames_left vmm_example 2" using vmm_example_left by (simp add: frames_left_def)
  moreover have "\<forall>e l. vmm_walk vmm_example 0x3000 0xFFFFFFFFC0000000 = Some (e, l) \<longrightarrow> l < 2"
    by (simp add: vmm_example_walk)
  ultimately show ?thesis
    using vmm_map_huge_correct [OF vmm_example_pt, where v = "0xFFFFFFFFC0000000" and paddr = "0x40000000" and flags = 2] by fastforce
qed

text \<open>
  C15: unmapping undoes mapping: \<^verbatim>\<open>vmm_unmap_page\<close> of the page just mapped returns the frame it was
  mapped to, so that it can be freed, and the address space translates every address as before,
  the page itself not at all.
\<close>

theorem vmm_map_unmap:
  assumes "pt_inv s root" "frames_left s 3" "vmm_walk s root v = None" "page_aligned paddr" "flags < 0x1000"
  shows "\<exists>s1 s2. vmm_map_page root paddr v PAGE_SIZE_4KB flags s = Some s1 \<and>
    vmm_unmap_page root v s1 = (paddr, s2) \<and> pt_inv s2 root \<and> (\<forall>w. vmm_walk s2 root w = vmm_walk s root w)"
proof -
  have left: "frames_left s (Suc (Suc (Suc 0)))" using assms(2) by (simp add: numeral_3_eq_3)
  obtain s1 where s1: "vmm_map_page root paddr v PAGE_SIZE_4KB flags s = Some (invalidate v s1)" "pt_inv s1 root"
    "vmm_walk s1 root v = Some (paddr OR (PTE_PRESENT OR flags), 0)"
    "\<forall>w. vmm_path w \<noteq> vmm_path v \<longrightarrow> vmm_walk s1 root w = vmm_walk s root w"
    using vmm_map_4k [OF assms(1) left, of v paddr flags] assms(3) by auto
  let ?s1 = "invalidate v s1"
  have inv1: "pt_inv ?s1 root" using s1(2) by simp
  have "vmm_get_entry root v ?s1 \<noteq> None"
  proof
    assume "vmm_get_entry root v ?s1 = None"
    then have "vmm_walk ?s1 root v = None" using vmm_get_entry_cases [OF inv1, of v] by simp
    with s1(3) show False by simp
  qed
  then obtain entry level where e: "vmm_get_entry root v ?s1 = Some (entry, level)" by auto
  have "vmm_walk ?s1 root v = Some (paddr OR (PTE_PRESENT OR flags), 0)" using s1(3) by simp
  with page_entry_bound [OF e inv1, folded vmm_walk_soft [OF inv1]] have ev: "ld64 (pmem ?s1) entry = paddr OR (PTE_PRESENT OR flags)"
    by (auto split: if_splits)
  have "(1 OR flags) < 0x1000" using assms(5) by (intro page_or_less) simp_all
  from mask_or [OF assms(4) this] ev have pa: "ld64 (pmem ?s1) entry AND PAGE_MASK_4KB = paddr" by simp
  obtain s2 n where s2: "vmm_unmap_page root v ?s1 = (paddr, invalidate v s2)" "pt_inv s2 root"
    "\<forall>e l. vmm_walk ?s1 root v = Some (e, l) \<longrightarrow> l = 3 - n" "n \<le> 3"
    "\<forall>w. vmm_walk s2 root w = (if take (Suc n) (vmm_path w) = take (Suc n) (vmm_path v) then None else vmm_walk ?s1 root w)"
    using vmm_unmap_ok [OF inv1 e] unfolding pa by blast
  have "n = 3" using s2(3,4) s1(3) by simp
  have "vmm_walk (invalidate v s2) root w = vmm_walk s root w" for w
  proof (cases "vmm_path w = vmm_path v")
    case True
    then have "vmm_walk s root w = None" using assms(3) by (simp add: vmm_walk_def)
    with True show ?thesis using s2(5) by simp
  next
    case False
    then show ?thesis using s2(5) s1(4) \<open>n = 3\<close> by simp
  qed
  with s1(1) s2(1,2) show ?thesis by fastforce
qed

theorem vmm_map_unmap_witness:
  "\<exists>s1 s2. vmm_map_page 0x3000 0xABC000 0xFFFFC00000000000 PAGE_SIZE_4KB 6 vmm_example = Some s1 \<and>
    vmm_unmap_page 0x3000 0xFFFFC00000000000 s1 = (0xABC000, s2)"
proof -
  have "page_aligned 0xABC000" "(6 :: u64) < 0x1000" by (simp_all add: page_aligned_def)
  from vmm_map_unmap [OF vmm_example_pt vmm_example_left vmm_example_walk this] show ?thesis by blast
qed

lemma walk_level: "vmm_walk s root v = Some (e, l) \<Longrightarrow> l \<le> 2"
  by (auto simp: vmm_walk_def vmm_path_def Let_def split: if_splits)

text \<open>
  C31: on well-formed tables \<^verbatim>\<open>vmm_get_entry\<close> finds the entry at which the processor's walk of the address
  ends; it gives NULL only where there is no translation. The level it reports is 0 for a 4 KiB page, but 2
  for both huge page sizes; its level 3, an entry of the top level with the page-size bit, does not occur.
\<close>

theorem vmm_get_entry_is_walk:
  assumes "pt_inv s root"
  shows "case vmm_get_entry root v s of
     None \<Rightarrow> vmm_walk s root v = None
   | Some (entry, level) \<Rightarrow> \<exists>l \<le> 2. level = (if l = 0 then 0 else 2) \<and>
       vmm_walk s root v =
         (if ld64 (pmem s) entry AND PTE_PRESENT = 0 then None else Some (ld64 (pmem s) entry, l))"
proof (cases "vmm_get_entry root v s")
  case None
  then show ?thesis using vmm_get_entry_cases [OF assms, of v] by simp
next
  case (Some q)
  then obtain entry level where e: "vmm_get_entry root v s = Some (entry, level)" by (cases q) simp
  then obtain i t and r :: "u64 list" where p: "entry = t + 8 * i" "level = (if r = [] then 0 else max 2 (length r))"
    "vmm_walk s root v = (if pte (pmem s) t i AND PTE_PRESENT = 0 then None else Some (pte (pmem s) t i, length r))"
    "r \<noteq> [] \<longrightarrow> pte (pmem s) t i AND PTE_PRESENT \<noteq> 0"
    using vmm_get_entry_cases [OF assms, of v] unfolding e option.case prod.case by blast
  have "length r \<le> 2" using p(3,4) walk_level [of s root v] by (cases "r = []") auto
  then show ?thesis using e p by (auto simp: pte_def intro!: exI [of _ "length r"])
qed

theorem vmm_get_entry_is_walk_witness:
  "vmm_get_entry 0x3000 0xFFFFFFFF80200000 boot_example = Some (0x2008, 2) \<and>
    (\<exists>l. l \<noteq> 0 \<and> vmm_walk boot_example 0x3000 0xFFFFFFFF80200000 = Some (0x200083, l))"
proof -
  let ?v = "0xFFFFFFFF80200000 :: u64"
  have al: "page_aligned 0x3000" "page_aligned 0x2000" "page_aligned 0x1000" by (simp_all add: page_aligned_def)
  note e = boot_pte [OF al(1)] boot_pte [OF al(2)] boot_pte [OF al(3)]
  have i: "vmm_index 39 ?v = 511" "vmm_index 30 ?v = 510" "vmm_index 21 ?v = 1" by (simp_all add: vmm_index_def)
  have g: "vmm_get_entry 0x3000 ?v boot_example = Some (0x2008, 2)"
    by (simp add: vmm_get_entry_def Let_def i e boot_example_def)
  have "ld64 (pmem boot_example) 0x2008 = pte boot_tables 0x2000 1" by (simp add: pte_def boot_example_def)
  then have l: "ld64 (pmem boot_example) 0x2008 = 0x200083" by (simp add: e)
  from vmm_get_entry_is_walk [OF boot_example_pt, of ?v] show ?thesis unfolding g by (auto simp: l split: if_splits)
qed

text \<open>
  C16: the direct map: building it ends, and in the new address space, which is made current, every
  physical address below \<^verbatim>\<open>maxAddr\<close> is at \<^verbatim>\<open>DIRECT_OFFSET\<close> plus itself, in writable huge pages, while the
  kernel's own half of the last top-level entry translates as before. It needs one frame, one for each
  GiB and one for each 512 GiB begun, all of them inside the 128 MiB of the boot window, as the tables of
  \<^verbatim>\<open>boot.s\<close> are; \<^verbatim>\<open>maxAddr\<close> must stay below the kernel's entry, 255 * 512 GiB.
\<close>

theorem vmm_init_direct_mapping_correct:
  assumes "pt_inv s (cpu_cr3 s)" "maxAddr \<le> 0x7F8000000000" "\<forall>g \<in> pt_tables s (cpu_cr3 s). in_window g"
    "low_frames s (1 + (unat maxAddr + 0x3FFFFFFF) div 0x40000000 + (unat maxAddr + 0x7FFFFFFFFF) div 0x8000000000)"
  shows "\<exists>s'. vmm_init_direct_mapping maxAddr s = Some s' \<and> pt_inv s' (cpu_cr3 s') \<and>
    (\<forall>q < maxAddr. vmm_walk s' (cpu_cr3 s') (q + DIRECT_OFFSET) = Some ((q AND NOT 0x1FFFFF) OR 0x83, 1)) \<and>
    (\<forall>w. vmm_index 39 w = 511 \<longrightarrow> vmm_walk s' (cpu_cr3 s') w = vmm_walk s (cpu_cr3 s) w)"
proof -
  define K where "K = (unat maxAddr + 0x1FFFFF) div 0x200000"
  have ceil: "(K + (n - 1)) div n = (unat maxAddr + (n * 0x200000 - 1)) div (n * 0x200000)" if "0 < n" for n
  proof -
    have "K + (n - 1) = (unat maxAddr + 0x1FFFFF + (n - 1) * 0x200000) div 0x200000" by (simp add: K_def)
    also have "unat maxAddr + 0x1FFFFF + (n - 1) * 0x200000 = unat maxAddr + (n * 0x200000 - 1)"
      using that by (cases n) simp_all
    finally show ?thesis by (simp add: div_mult2_eq [of _ "0x200000" n, unfolded mult.commute [of _ n]])
  qed
  have "map_tables K = (unat maxAddr + 0x3FFFFFFF) div 0x40000000 + (unat maxAddr + 0x7FFFFFFFFF) div 0x8000000000"
    using ceil [of 512] ceil [of 262144] by (simp add: map_tables_def)
  then have left: "low_frames s (Suc (map_tables K))" using assms(4) by simp
  have um: "unat maxAddr \<le> 255 * 2 ^ 39" using assms(2) by (simp add: word_le_nat_alt)
  have K: "K \<le> 255 * 2 ^ 18" using um by (simp add: K_def)
  have pages: "\<forall>j \<le> K. page2m j < maxAddr \<longleftrightarrow> j < K"
  proof (intro allI impI)
    fix j assume "j \<le> K"
    then have j: "j < 2 ^ 26" using K by simp
    then have "page2m j < maxAddr \<longleftrightarrow> j * 0x200000 < unat maxAddr"
      using page2m_less [OF j] by (simp add: word_less_nat_alt)
    also have "\<dots> \<longleftrightarrow> j < K" unfolding K_def by linarith
    finally show "page2m j < maxAddr \<longleftrightarrow> j < K" .
  qed
  obtain s' where s': "vmm_init_direct_mapping maxAddr s = Some s'" "pt_inv s' (cpu_cr3 s')"
    "\<forall>j w. directly 0 K w j \<longrightarrow> vmm_soft s' (cpu_cr3 s') w = Some (page2m j OR 0x83, 1)"
    "\<forall>w. vmm_index 39 w = 511 \<longrightarrow> vmm_soft s' (cpu_cr3 s') w = vmm_soft s (cpu_cr3 s) w"
    using vmm_init_direct_ok [OF assms(1) K pages left] assms(3) unfolding tables_low_def by blast
  note s' = s' [folded vmm_walk_soft [OF assms(1)] vmm_walk_soft [OF s'(2)]]
  have "vmm_walk s' (cpu_cr3 s') (q + DIRECT_OFFSET) = Some ((q AND NOT 0x1FFFFF) OR 0x83, 1)" if q: "q < maxAddr" for q
  proof -
    let ?j = "unat q div 0x200000"
    have "unat q < unat maxAddr" using q by (simp add: word_less_nat_alt)
    then have jK: "?j < K" unfolding K_def by (simp add: less_eq_div_iff_mult_less_eq flip: Suc_le_eq)
    then have j: "?j < 2 ^ 26" using K by simp
    have ql: "q < 0x800000000000" using q assms(2) by (simp add: word_less_nat_alt word_le_nat_alt)
    have dr: "drop_bit 21 q = of_nat ?j"
      using j by (simp add: word_unat_eq_iff unat_of_nat drop_bit_eq_div unat_div)
    have "page2m ?j = push_bit 21 (drop_bit 21 q)" by (simp add: dr push_bit_eq_mult)
    moreover have "push_bit 21 (drop_bit 21 q) = q AND NOT (mask 21)"
      by (intro bit_word_eqI) (auto simp: bit_simps)
    ultimately have base: "page2m ?j = q AND NOT 0x1FFFFF" by (simp add: mask_eq_exp_minus_1)
    have "directly 0 K (q + DIRECT_OFFSET) ?j"
      using direct_same [OF ql conjunct2 [OF page2m_less [OF j]]] page2m_drop [OF j] dr jK by (simp add: directly_def)
    with s'(3) have "vmm_walk s' (cpu_cr3 s') (q + DIRECT_OFFSET) = Some (page2m ?j OR 0x83, 1)" by blast
    then show ?thesis unfolding base .
  qed
  with s' show ?thesis by blast
qed

theorem vmm_init_direct_mapping_correct_witness:
  "\<exists>s'. vmm_init_direct_mapping 0x40000000 boot_example = Some s' \<and>
    vmm_walk s' (cpu_cr3 s') 0xFFFF800012345678 = Some (0x12200083, 1) \<and>
    vmm_walk s' (cpu_cr3 s') 0xFFFFFFFF80200000 = Some (0x200083, 1)"
proof -
  have cr: "cpu_cr3 boot_example = 0x3000" by (simp add: boot_example_def)
  have "in_window g" if "g \<in> pt_tables boot_example 0x3000" for g
    using that boot_tbl by (auto simp: pt_tables_def boot_example_def in_window_def split: if_splits)
  then have tables: "\<forall>g \<in> pt_tables boot_example (cpu_cr3 boot_example). in_window g" unfolding cr by blast
  have "1 + (unat (0x40000000 :: u64) + 0x3FFFFFFF) div 0x40000000 + (unat (0x40000000 :: u64) + 0x7FFFFFFFFF) div 0x8000000000 = 3"
    by simp
  from boot_example_low [folded this] have low: "low_frames boot_example (1 + (unat (0x40000000 :: u64) + 0x3FFFFFFF) div 0x40000000 +
      (unat (0x40000000 :: u64) + 0x7FFFFFFFFF) div 0x8000000000)" .
  have top: "(0x40000000 :: u64) \<le> 0x7F8000000000" by simp
  obtain s' where s': "vmm_init_direct_mapping 0x40000000 boot_example = Some s'"
    "\<forall>q < 0x40000000. vmm_walk s' (cpu_cr3 s') (q + DIRECT_OFFSET) = Some ((q AND NOT 0x1FFFFF) OR 0x83, 1)"
    "\<forall>w. vmm_index 39 w = 511 \<longrightarrow> vmm_walk s' (cpu_cr3 s') w = vmm_walk boot_example 0x3000 w"
    using vmm_init_direct_mapping_correct [OF boot_example_pt [folded cr] top tables low] unfolding cr by blast
  from s'(2) have "vmm_walk s' (cpu_cr3 s') (0x12345678 + DIRECT_OFFSET) = Some ((0x12345678 AND NOT 0x1FFFFF) OR 0x83, 1)"
    by (rule allE [of _ "0x12345678"]) simp
  moreover have "vmm_walk s' (cpu_cr3 s') 0xFFFFFFFF80200000 = Some (0x200083, 1)"
    using s'(3) by (simp add: boot_example_walk vmm_index_def)
  ultimately show ?thesis using s'(1) by auto
qed

text \<open>
  \<^verbatim>\<open>init_pat\<close>, which is to provide the write-combining type that \<^verbatim>\<open>PTE_WC_HUGE\<close> selects, writes
  the type 6, write-back, into entry 4 of the page attribute table and leaves the other entries:
  on the table as the processor has it after reset it changes nothing, and the type 1,
  write-combining, is nowhere in it.
\<close>

theorem init_pat_no_write_combining:
  "read_msr MSR_IA32_PAT (init_pat s) =
      (fst (read_msr MSR_IA32_PAT s), (snd (read_msr MSR_IA32_PAT s) AND NOT 0xFF) OR 0x06) \<and>
    init_pat (s\<lparr>cpu_msr := (cpu_msr s)(MSR_IA32_PAT := 0x0007040600070406)\<rparr>) =
      s\<lparr>cpu_msr := (cpu_msr s)(MSR_IA32_PAT := 0x0007040600070406)\<rparr>"
  by (simp add: init_pat_def read_write_msr split: prod.split) (simp add: read_msr_def write_msr_def)

end
