(* ===== verification/Kmalloc.thy ===== *)
theory Kmalloc
  imports Slab Vmm
begin

text \<open>
  The kernel heap as its clients see it, \<^verbatim>\<open>mm/kmalloc.c\<close>: small requests go to the slab caches, large
  ones to the buddy allocator, under one lock once the scheduler runs. The lemmas speak of the
  objects that clients hold, as addresses and sizes in bytes.
\<close>

section \<open>State and operations\<close>

record kmstate = slabs +
  kmalloc_lock :: spinlock
  scheduler :: bool

text \<open>
  The lock is taken and released only while \<^verbatim>\<open>scheduler\<close> is set; otherwise \<^verbatim>\<open>rflags\<close> is not
  initialised and not used.
\<close>

definition kmalloc_enter :: "'a kmstate_scheme \<Rightarrow> (u64 \<times> 'a kmstate_scheme) option" where
  "kmalloc_enter s =
     (if scheduler s then do {
        (rflags, l, s1) \<leftarrow> spin_lock_irqsave (kmalloc_lock s) s;
        Some (rflags, s1\<lparr>kmalloc_lock := l\<rparr>)
      }
      else Some (0, s))"

definition kmalloc_leave :: "u64 \<Rightarrow> 'a kmstate_scheme \<Rightarrow> 'a kmstate_scheme" where
  "kmalloc_leave rflags s =
     (if scheduler s
      then let (l, s1) = spin_lock_irqrestore (kmalloc_lock s) rflags s in s1\<lparr>kmalloc_lock := l\<rparr>
      else s)"

text \<open>
  The loop that rounds up to a power of two. Above \<^verbatim>\<open>2 ^ 63\<close> the shifted size becomes 0 and the loop
  does not end: None.
\<close>

partial_function (option) kmalloc_order :: "u64 \<Rightarrow> u64 \<Rightarrow> nat \<Rightarrow> nat option" where
  "kmalloc_order sz s ord = (if s < sz then kmalloc_order sz (push_bit 1 s) (Suc ord) else Some ord)"

function kmalloc_class :: "u64 \<Rightarrow> 'a kmstate_scheme \<Rightarrow> nat \<Rightarrow> nat option" where
  "kmalloc_class sz s i =
     (if i < NUM_CACHES then
        if sz \<le> ucast (obj_size (kernel_caches s (cache_at s i))) then Some i else kmalloc_class sz s (Suc i)
      else None)"
  by pat_completeness auto
termination by (relation "measure (\<lambda>(sz, s, i). NUM_CACHES - i)") auto

declare kmalloc_class.simps [simp del]

definition kmalloc :: "u64 \<Rightarrow> 'a kmstate_scheme \<Rightarrow> (u64 \<times> 'a kmstate_scheme) option" where
  "kmalloc sz s =
     (if sz = 0 then Some (0, s)
      else do {
        (rflags, s1) \<leftarrow> kmalloc_enter s;
        if sz > 2048 then do {
          ord \<leftarrow> kmalloc_order sz PAGE_SIZE_4KB 0;
          let (mem, s2) = buddy_alloc ord s1;
          Some (mem, kmalloc_leave rflags s2)
        }
        else case kmalloc_class sz s1 0 of
          Some i \<Rightarrow> do {
            (mem, s2) \<leftarrow> slab_alloc (cache_at s1 i) s1;
            Some (mem, kmalloc_leave rflags s2)
          }
        | None \<Rightarrow> Some (0, kmalloc_leave rflags s1)
      })"

definition kfree :: "u64 \<Rightarrow> 'a kmstate_scheme \<Rightarrow> 'a kmstate_scheme option" where
  "kfree ptr s =
     (if ptr = 0 then Some s
      else do {
        (rflags, s1) \<leftarrow> kmalloc_enter s;
        let s2 = (if is_slab (metadata s1 (page_index ptr)) then slab_free ptr s1 else buddy_free ptr s1);
        Some (kmalloc_leave rflags s2)
      })"

text \<open>
  \<^verbatim>\<open>init_kheap\<close>: the heap's pages are mapped one by one onto a run of frames, then the two allocators
  are set up.
\<close>

abbreviation HEAP_SIZE :: u64 where "HEAP_SIZE \<equiv> 0x1000000"

function init_kheap_map :: "u64 \<Rightarrow> u64 \<Rightarrow> 'a kmstate_scheme \<Rightarrow> 'a kmstate_scheme option" where
  "init_kheap_map paddr i s =
     (if i < HEAP_SIZE div PAGE_SIZE_4KB then do {
        s1 \<leftarrow> vmm_map_page (read_cr3 s) (paddr + i * PAGE_SIZE_4KB) (HEAP_START + i * PAGE_SIZE_4KB)
                PAGE_SIZE_4KB (PTE_PRESENT OR PTE_WRITABLE) s;
        init_kheap_map paddr (i + 1) s1
      }
      else Some s)"
  by pat_completeness auto
termination
proof (relation "measure (\<lambda>(paddr, i, s). unat (HEAP_SIZE div PAGE_SIZE_4KB - i))")
  fix paddr i :: u64 and s s1 :: "'a kmstate_scheme"
  assume "i < HEAP_SIZE div PAGE_SIZE_4KB"
  then show "((paddr, i + 1, s1), paddr, i, s) \<in> measure (\<lambda>(paddr, i, s). unat (HEAP_SIZE div PAGE_SIZE_4KB - i))"
    by (simp only: in_measure prod.case unat_diff_Suc_less)
qed simp

declare init_kheap_map.simps [simp del]

definition init_kheap :: "'a kmstate_scheme \<Rightarrow> 'a kmstate_scheme option" where
  "init_kheap s = do {
     (paddr, s1) \<leftarrow> pmm_alloc_pages (ucast (HEAP_SIZE div PAGE_SIZE_4KB)) s;
     s2 \<leftarrow> init_kheap_map paddr 0 s1;
     Some (init_slab (init_buddy s2))
   }"

section \<open>What the heap operations leave alone\<close>

definition heap_only :: "'a slabs_scheme \<Rightarrow> 'a slabs_scheme \<Rightarrow> bool" where
  "heap_only s s' \<longleftrightarrow> s' = s\<lparr>kmem := kmem s', free_areas := free_areas s', metadata := metadata s',
     kernel_caches := kernel_caches s'\<rparr>"

lemma heap_only_refl [simp]: "heap_only s s"
  by (simp add: heap_only_def)

lemma heap_only_trans: "heap_only s t \<Longrightarrow> heap_only t u \<Longrightarrow> heap_only s u"
  by (cases s; cases t; cases u) (simp add: heap_only_def)

lemma heap_onlyI [simp]:
  "heap_only s (t\<lparr>kmem := m\<rparr>) = heap_only s t" "heap_only s (t\<lparr>free_areas := a\<rparr>) = heap_only s t"
  "heap_only s (t\<lparr>metadata := d\<rparr>) = heap_only s t" "heap_only s (t\<lparr>kernel_caches := c\<rparr>) = heap_only s t"
  by (cases s; cases t; simp add: heap_only_def)+

lemma heap_only_buddy_list:
  "heap_only s (buddy_list_add a i t) = heap_only s t" "heap_only s (buddy_list_remove a i t) = heap_only s t"
  by (simp_all add: buddy_list_add_def buddy_list_remove_def Let_def split: prod.split)

lemma heap_only_split: "heap_only s (buddy_split a i ord t) = heap_only s t"
  by (induction a i ord t rule: buddy_split.induct) (simp_all add: heap_only_buddy_list)

lemma heap_only_merge: "buddy_merge a i t = (b, k, u) \<Longrightarrow> heap_only s u = heap_only s t"
proof (induction a i t rule: buddy_merge.induct)
  case (1 a i t)
  then show ?case by (subst (asm) (2) buddy_merge.simps) (auto simp: Let_def heap_only_buddy_list split: if_splits)
qed

lemma heap_only_buddy_alloc: "buddy_alloc ord t = (p, u) \<Longrightarrow> heap_only s u = heap_only s t"
  by (auto simp: buddy_alloc_def Let_def heap_only_split heap_only_buddy_list split: option.splits)

lemma heap_only_buddy_free: "heap_only s (buddy_free p t) = heap_only s t"
  by (auto simp: buddy_free_def heap_only_buddy_list split: prod.splits dest: heap_only_merge)

lemma heap_only_on_list: "heap_only s (on_partial f c a t) = heap_only s t" "heap_only s (on_full f c a t) = heap_only s t"
  by (simp_all add: on_partial_def on_full_def split: prod.split)

lemma heap_only_slab_create: "slab_create c t = Some (p, u) \<Longrightarrow> heap_only s u = heap_only s t"
proof -
  obtain page s1 where al: "buddy_alloc 0 t = (page, s1)" by fastforce
  assume "slab_create c t = Some (p, u)"
  then have "heap_only s u = heap_only s s1"
    unfolding slab_create_def al Let_def prod.case by (auto simp: bind_eq_Some_conv split: if_splits)
  then show ?thesis using heap_only_buddy_alloc [OF al, of s] by simp
qed

lemma heap_only_slab_take: "slab_take c t = (p, u) \<Longrightarrow> heap_only s u = heap_only s t"
proof -
  have "heap_only s (snd (slab_take c t)) = heap_only s t"
    unfolding slab_take_def Let_def snd_conv by (simp only: heap_onlyI heap_only_on_list if_cancel split: if_split) simp
  then show "slab_take c t = (p, u) \<Longrightarrow> ?thesis" by simp
qed

lemma heap_only_slab_alloc: "slab_alloc c t = Some (p, u) \<Longrightarrow> heap_only s u = heap_only s t"
proof -
  assume al: "slab_alloc c t = Some (p, u)"
  consider "u = t" | "slab_take c t = (p, u)"
    | v w where "slab_create c t = Some (v, w)" "u = w \<or> slab_take c (on_partial slab_list_add c v w) = (p, u)"
  proof (cases "c = 0 \<or> slabs_partial (kernel_caches t c) \<noteq> 0")
    case True
    then show thesis using al that(1,2) by (auto simp: slab_alloc_def split: if_splits)
  next
    case False
    then obtain v w where "slab_create c t = Some (v, w)"
      "(if v = 0 then Some (0, w) else Some (slab_take c (on_partial slab_list_add c v w))) = Some (p, u)"
      using al by (auto simp: slab_alloc_def bind_eq_Some_conv)
    then show thesis using that(3) [of v w] by (simp split: if_splits)
  qed
  then show ?thesis
  proof cases
    case 2
    then show ?thesis by (rule heap_only_slab_take)
  next
    case (3 v w)
    from 3(2) heap_only_slab_create [OF 3(1), of s] show ?thesis
      using heap_only_slab_take [of c "on_partial slab_list_add c v w" p u s] by (auto simp: heap_only_on_list)
  qed simp
qed

lemma heap_only_slab_free: "heap_only s (slab_free p t) = heap_only s t"
  by (simp add: slab_free_def Let_def heap_only_on_list heap_only_buddy_free)

lemma heap_onlyD:
  assumes "heap_only s (s' :: 'a kmstate_scheme)"
  shows "kmalloc_lock s' = kmalloc_lock s" "scheduler s' = scheduler s" "kmstate.more s' = kmstate.more s"
    "kernel_caches_addr s' = kernel_caches_addr s" "pmem s' = pmem s" "bitmap s' = bitmap s" "cpu_rflags s' = cpu_rflags s"
    "cpu_cr3 s' = cpu_cr3 s" "total_pages s' = total_pages s" "pmm_lock s' = pmm_lock s"
  using assms by (cases s; cases s'; simp add: heap_only_def)+

section \<open>Size classes\<close>

lemma kmalloc_order_steps:
  assumes "k \<le> 51" "unat sz \<le> 2 ^ 63"
  shows "\<exists>i. k \<le> i \<and> i \<le> 51 \<and> kmalloc_order sz (push_bit (12 + k) 1) k = Some i \<and> unat sz \<le> 2 ^ (12 + i) \<and>
    (\<forall>j. k \<le> j \<longrightarrow> j < i \<longrightarrow> 2 ^ (12 + j) < unat sz)"
  using assms(1)
proof (induction "51 - k" arbitrary: k)
  case 0
  then have k: "k = 51" by simp
  have "push_bit 63 1 = (2 ^ 63 :: u64)" by (simp add: push_bit_eq_mult)
  then have "\<not> push_bit (12 + k) 1 < sz" using assms(2) k by (simp add: word_less_nat_alt)
  then show ?case using k assms(2) by (subst kmalloc_order.simps) auto
next
  case (Suc d)
  have u: "unat (push_bit (12 + k) 1 :: u64) = 2 ^ (12 + k)"
  proof -
    have "(2 :: nat) ^ (12 + k) < 2 ^ 64" using Suc by (intro power_strict_increasing) auto
    moreover have "(push_bit (12 + k) 1 :: u64) = of_nat (2 ^ (12 + k))" by (simp add: push_bit_eq_mult)
    ultimately show ?thesis by (simp only: unat_of_nat) (simp add: take_bit_nat_eq_self)
  qed
  show ?case
  proof (cases "2 ^ (12 + k) < unat sz")
    case True
    have "kmalloc_order sz (push_bit (12 + k) 1) k = kmalloc_order sz (push_bit (12 + Suc k) 1) (Suc k)"
      by (subst kmalloc_order.simps) (simp only: word_less_nat_alt u True if_True push_bit_push_bit, simp)
    moreover have d: "d = 51 - Suc k" "Suc k \<le> 51" using Suc.hyps(2) by simp_all
    from Suc.hyps(1) [OF d] obtain i where i: "Suc k \<le> i" "i \<le> 51" "kmalloc_order sz (push_bit (12 + Suc k) 1) (Suc k) = Some i"
      "unat sz \<le> 2 ^ (12 + i)" "\<forall>j. Suc k \<le> j \<longrightarrow> j < i \<longrightarrow> 2 ^ (12 + j) < unat sz"
      by blast
    ultimately have r: "kmalloc_order sz (push_bit (12 + k) 1) k = Some i" by (simp only:)
    have all: "\<forall>j. k \<le> j \<longrightarrow> j < i \<longrightarrow> 2 ^ (12 + j) < unat sz"
    proof (intro allI impI)
      fix j assume "k \<le> j" "j < i"
      then show "2 ^ (12 + j) < unat sz" using i(5) True by (cases "j = k") simp_all
    qed
    have "k \<le> i" using i(1) by simp
    then show ?thesis using r i(2,4) all by (intro exI [of _ i] conjI)
  next
    case False
    then have "kmalloc_order sz (push_bit (12 + k) 1) k = Some k"
      using u by (subst kmalloc_order.simps) (simp add: word_less_nat_alt)
    with False Suc show ?thesis by (intro exI [of _ k]) auto
  qed
qed

lemma kmalloc_order_ok:
  assumes "unat sz \<le> 2 ^ 63"
  shows "\<exists>i. kmalloc_order sz PAGE_SIZE_4KB 0 = Some i \<and> unat sz \<le> 2 ^ (12 + i) \<and> (\<forall>j < i. 2 ^ (12 + j) < unat sz)"
  using kmalloc_order_steps [of 0 sz] assms by (auto simp: push_bit_eq_mult)

lemma kmalloc_class_from:
  assumes co: "caches_ok s" and sz: "unat sz \<le> 2048"
  shows "i \<le> 7 \<Longrightarrow> \<exists>c < NUM_CACHES. kmalloc_class sz s i = Some c \<and> unat sz \<le> slot_size c"
proof (induction "7 - i" arbitrary: i)
  case 0
  then have i: "i = 7" by simp
  have "sz \<le> ucast (obj_size (kernel_caches s (cache_at s i)))"
    using co sz i by (simp add: caches_ok_def slot_size_def word_le_nat_alt)
  then show ?case using i sz by (intro exI [of _ 7]) (simp add: kmalloc_class.simps slot_size_def)
next
  case (Suc d)
  have "obj_size (kernel_caches s (cache_at s i)) = of_nat (slot_size i)" using co Suc by (simp add: caches_ok_def)
  moreover have "unat (ucast (of_nat (slot_size i) :: u32) :: u64) = slot_size i"
    using slot_size_range [of i] Suc by (simp add: unat_of_nat unsigned_ucast_eq take_bit_nat_eq_self)
  ultimately have le: "sz \<le> ucast (obj_size (kernel_caches s (cache_at s i))) \<longleftrightarrow> unat sz \<le> slot_size i"
    by (simp add: word_le_nat_alt)
  show ?case
  proof (cases "unat sz \<le> slot_size i")
    case True
    with le Suc show ?thesis by (intro exI [of _ i]) (simp add: kmalloc_class.simps [of _ _ i])
  next
    case False
    with le Suc Suc.hyps(1) [of "Suc i"] show ?thesis by (simp add: kmalloc_class.simps [of _ _ i])
  qed
qed

section \<open>Objects\<close>

text \<open>
  An object is its address and the number of bytes behind it: a slot of a slab that is not on the
  slab's free list, or a block of pages that is not a slab.
\<close>

definition bytes :: "u64 \<Rightarrow> nat \<Rightarrow> u64 set" where
  "bytes a k = {a + of_nat x | x. x < k}"

definition slot_objs :: "slab_lists \<Rightarrow> (nat \<Rightarrow> nat list) \<Rightarrow> (u64 \<times> nat) set" where
  "slot_objs X fl = {(slot_addr n c j, slot_size c) | n c j. c < NUM_CACHES \<and> n \<in> cpages X c \<and> j < nslots c \<and> j \<notin> set (fl n)}"

definition block_objs :: "slab_lists \<Rightarrow> block set \<Rightarrow> (u64 \<times> nat) set" where
  "block_objs X A = {(page_addr n, 4096 * 2 ^ i) | n i. (n, i) \<in> A \<and> n \<notin> slab_pages X}"

lemma bytes_mono: "z \<le> k \<Longrightarrow> bytes a z \<subseteq> bytes a k"
  by (force simp: bytes_def)

lemma slot_bytes:
  assumes "c < NUM_CACHES" "j < nslots c" "b \<in> bytes (slot_addr n c j) (slot_size c)"
  shows "\<exists>y. b = page_addr n + y \<and> y < 0x1000 \<and> slot_off c j \<le> unat y \<and> unat y < slot_off c j + slot_size c"
proof -
  obtain x where x: "x < slot_size c" "b = slot_addr n c j + of_nat x" using assms(3) by (auto simp: bytes_def)
  have "slot_off c j + slot_size c \<le> 4096" using slot_off_bound assms(1,2) by blast
  then have u: "unat (of_nat (slot_off c j + x) :: u64) = slot_off c j + x" using x(1) by (simp add: unat_of_nat del: of_nat_add)
  have "b = page_addr n + of_nat (slot_off c j + x)" by (simp add: x(2) slot_addr_def add.assoc)
  moreover have "(of_nat (slot_off c j + x) :: u64) < 0x1000"
    using \<open>slot_off c j + slot_size c \<le> 4096\<close> x(1) by (simp only: word_less_nat_alt u) simp
  ultimately show ?thesis using u x(1) by (intro exI [of _ "of_nat (slot_off c j + x)"]) simp
qed

lemma block_bytes:
  assumes "block_ok (n, i)" "b \<in> bytes (page_addr n) (4096 * 2 ^ i)"
  shows "\<exists>k y. k \<in> pages (n, i) \<and> k < TOTAL_PAGES \<and> b = page_addr k + y \<and> y < 0x1000"
proof -
  obtain x where x: "x < 4096 * 2 ^ i" "b = page_addr n + of_nat x" using assms(2) by (auto simp: bytes_def)
  have div: "x div 4096 < 2 ^ i" using x(1) by (simp add: less_mult_imp_div_less mult.commute)
  have "(of_nat x :: u64) = of_nat (x div 4096 * 4096 + x mod 4096)" by simp
  also have "\<dots> = of_nat (x div 4096) * PAGE_SIZE_4KB + of_nat (x mod 4096)" by (simp only: of_nat_add of_nat_mult) simp
  finally have "b = page_addr (n + x div 4096) + of_nat (x mod 4096)"
    by (simp add: x(2) page_addr_def algebra_simps)
  moreover have "(of_nat (x mod 4096) :: u64) < 0x1000" by (simp add: word_less_nat_alt unat_of_nat)
  moreover have "n + x div 4096 \<in> pages (n, i)" "n + x div 4096 < TOTAL_PAGES"
    using div assms(1) by (auto simp: pages_def block_ok_def)
  ultimately show ?thesis by blast
qed

lemma page_byte_eq:
  "n < TOTAL_PAGES \<Longrightarrow> k < TOTAL_PAGES \<Longrightarrow> x < 0x1000 \<Longrightarrow> y < 0x1000 \<Longrightarrow> page_addr n + x = page_addr k + y \<Longrightarrow> n = k \<and> x = y"
  using page_offset_eq [of "page_addr n" "page_addr k" x y] page_addr_inj [of n k] by auto

text \<open>Where the bytes of an object are, in pages.\<close>

definition obj_at :: "slab_lists \<Rightarrow> (nat \<Rightarrow> nat list) \<Rightarrow> block set \<Rightarrow> u64 \<times> nat \<Rightarrow> nat \<Rightarrow> u64 \<Rightarrow> bool" where
  "obj_at X fl A e k y \<longleftrightarrow> k < TOTAL_PAGES \<and> y < 0x1000 \<and>
     ((\<exists>c j. c < NUM_CACHES \<and> k \<in> cpages X c \<and> j < nslots c \<and> j \<notin> set (fl k) \<and> e = (slot_addr k c j, slot_size c) \<and>
        slot_off c j \<le> unat y \<and> unat y < slot_off c j + slot_size c) \<or>
      (\<exists>n i. (n, i) \<in> A \<and> n \<notin> slab_pages X \<and> k \<in> pages (n, i) \<and> e = (page_addr n, 4096 * 2 ^ i)))"

lemma obj_bytes_at:
  assumes inv: "slab_inv s L A X fl" and e: "e \<in> slot_objs X fl \<union> block_objs X A" and b: "b \<in> bytes (fst e) (snd e)"
  shows "\<exists>k y. b = page_addr k + y \<and> obj_at X fl A e k y"
proof -
  have l: "links_rel s X" and hr: "heap_rel s L A" using inv by (simp_all add: slab_inv_def slab_rel_def)
  from e consider (slot) n c j where "c < NUM_CACHES" "n \<in> cpages X c" "j < nslots c" "j \<notin> set (fl n)" "e = (slot_addr n c j, slot_size c)"
    | (block) n i where "(n, i) \<in> A" "n \<notin> slab_pages X" "e = (page_addr n, 4096 * 2 ^ i)"
    by (auto simp: slot_objs_def block_objs_def)
  then show ?thesis
  proof cases
    case slot
    then obtain y where "b = page_addr n + y" "y < 0x1000" "slot_off c j \<le> unat y" "unat y < slot_off c j + slot_size c"
      using slot_bytes [OF slot(1,3)] b by auto
    with slot cpages_less [OF l slot(1,2)] show ?thesis
      unfolding obj_at_def by blast
  next
    case block
    then obtain k y where "k \<in> pages (n, i)" "k < TOTAL_PAGES" "b = page_addr k + y" "y < 0x1000"
      using block_bytes [OF heap_rel_blocks(1) [OF hr block(1)], of b] b by force
    with block show ?thesis unfolding obj_at_def by blast
  qed
qed

lemma obj_at_unique:
  assumes inv: "slab_inv s L A X fl" and a: "obj_at X fl A e k y" and b: "obj_at X fl A e' k y"
  shows "e = e'"
proof -
  have l: "links_rel s X" and hr: "heap_rel s L A" and pA: "\<And>n. n \<in> slab_pages X \<Longrightarrow> (n, 0) \<in> A"
    using inv by (auto simp: slab_inv_def slab_rel_def)
  have mix: False if "c < NUM_CACHES" "k \<in> cpages X c" "(n, i) \<in> A" "n \<notin> slab_pages X" "k \<in> pages (n, i)" for c n i
  proof -
    have "k \<in> slab_pages X" using that(1,2) by (auto simp: slab_pages_cpages)
    then have "(k, 0) \<in> A" "k \<noteq> n" using pA that(4) by auto
    then show False using heap_rel_blocks(2) [OF hr \<open>(k, 0) \<in> A\<close> that(3)] that(5) start_in_pages [of k 0] by blast
  qed
  have slots: "e = e'" if "c < NUM_CACHES" "k \<in> cpages X c" "j < nslots c" "e = (slot_addr k c j, slot_size c)"
    "slot_off c j \<le> unat y" "unat y < slot_off c j + slot_size c"
    "c' < NUM_CACHES" "k \<in> cpages X c'" "j' < nslots c'" "e' = (slot_addr k c' j', slot_size c')"
    "slot_off c' j' \<le> unat y" "unat y < slot_off c' j' + slot_size c'" for c j c' j'
  proof -
    have "c = c'" using cpages_disjoint [OF l that(1,7)] that(2,8) by auto
    moreover from this have "j = j'" using slot_off_apart [of j j' c] that by force
    ultimately show ?thesis using that by simp
  qed
  have blocks: "e = e'" if "(n, i) \<in> A" "k \<in> pages (n, i)" "e = (page_addr n, 4096 * 2 ^ i)"
    "(n', i') \<in> A" "k \<in> pages (n', i')" "e' = (page_addr n', 4096 * 2 ^ i')" for n i n' i'
    using heap_rel_blocks(2) [OF hr that(1,4)] that by blast
  show ?thesis using a b unfolding obj_at_def using mix slots blocks by blast
qed

text \<open>Distinct objects do not overlap, and no object meets what the allocators use themselves.\<close>

lemma objs_disjoint:
  assumes inv: "slab_inv s L A X fl" and e: "e \<in> slot_objs X fl \<union> block_objs X A" "e' \<in> slot_objs X fl \<union> block_objs X A"
    and ne: "e \<noteq> e'"
  shows "bytes (fst e) (snd e) \<inter> bytes (fst e') (snd e') = {}"
proof -
  have False if b: "b \<in> bytes (fst e) (snd e)" "b \<in> bytes (fst e') (snd e')" for b
  proof -
    obtain k y where k: "b = page_addr k + y" "obj_at X fl A e k y" using obj_bytes_at [OF inv e(1) b(1)] by blast
    obtain k' y' where k': "b = page_addr k' + y'" "obj_at X fl A e' k' y'" using obj_bytes_at [OF inv e(2) b(2)] by blast
    have "k = k' \<and> y = y'"
      using page_byte_eq [of k k' y y'] k k' by (simp add: obj_at_def)
    then show False using obj_at_unique [OF inv k(2)] k'(2) ne by simp
  qed
  then show ?thesis by blast
qed

lemma objs_quiet:
  assumes inv: "slab_inv s L A X fl" and e: "e \<in> slot_objs X fl \<union> block_objs X A" and b: "b \<in> bytes (fst e) (snd e)"
    and q: "quiet X A W m m'" "b \<notin> W"
  shows "m' b = m b"
proof -
  have l: "links_rel s X" and hr: "heap_rel s L A" and pA: "\<forall>n \<in> slab_pages X. (n, 0) \<in> A"
    using inv by (auto simp: slab_inv_def slab_rel_def)
  obtain k y where k: "b = page_addr k + y" "obj_at X fl A e k y" using obj_bytes_at [OF inv e b] by blast
  then have k4: "k < TOTAL_PAGES" "y < 0x1000" by (simp_all add: obj_at_def)
  have "b \<noteq> page_addr n + x" if n: "n \<in> slab_pages X" "x < 40" for n x
  proof
    assume "b = page_addr n + x"
    moreover have "n < TOTAL_PAGES" using slab_pages_less [OF links_fam [OF l] n(1)] .
    ultimately have "k = n \<and> y = x" using page_byte_eq [of k n y x] k4 k(1) header_lt [OF n(2)] by simp
    then have ky: "k = n" "y = x" by simp_all
    from k(2) consider (slot) c j where "c < NUM_CACHES" "j < nslots c" "slot_off c j \<le> unat y"
      | (block) n' i where "(n', i) \<in> A" "n' \<notin> slab_pages X" "k \<in> pages (n', i)"
      unfolding obj_at_def by blast
    then show False
    proof cases
      case slot
      then have "40 \<le> unat y" using slot_off_less(2) [of c j] by simp
      moreover have "unat y < 40" using n(2) ky(2) by (simp add: word_less_nat_alt)
      ultimately show False by simp
    next
      case block
      have "(k, 0) \<in> A" "k \<noteq> n'" using pA n(1) ky(1) block(2) by auto
      then show False using heap_rel_blocks(2) [OF hr \<open>(k, 0) \<in> A\<close> block(1)] block(3) start_in_pages [of k 0] by blast
    qed
  qed
  moreover have "b \<noteq> page_addr n + x" if n: "n \<in> free_pages A" "x < 0x1000" for n x
  proof
    assume "b = page_addr n + x"
    moreover have "n < TOTAL_PAGES" using n(1) by (simp add: free_pages_def)
    ultimately have ky: "k = n" using page_byte_eq [of k n y x] k4 k(1) n(2) by simp
    from k(2) consider (slot) c where "c < NUM_CACHES" "k \<in> cpages X c"
      | (block) n' i where "(n', i) \<in> A" "k \<in> pages (n', i)"
      unfolding obj_at_def by blast
    then show False
    proof cases
      case slot
      then have "k \<in> slab_pages X" by (auto simp: slab_pages_cpages)
      then show False using slab_inv_disjoint [OF pA] n(1) ky by blast
    next
      case block
      then show False using n(1) ky unfolding free_pages_def by blast
    qed
  qed
  ultimately show ?thesis using q unfolding quiet_def by blast
qed

lemma and_7: "(x :: u64) AND 7 = 0 \<longleftrightarrow> 8 dvd unat x"
proof -
  have "x AND 7 = x mod 8" using take_bit_eq_mask [of 3 x] by (simp add: take_bit_eq_mod mask_eq_exp_minus_1)
  then have "x AND 7 = 0 \<longleftrightarrow> unat (x mod 8) = 0" by (simp add: unat_eq_0)
  then show ?thesis by (simp add: unat_mod dvd_eq_mod_eq_0)
qed

lemma unat_page_off:
  assumes "n < TOTAL_PAGES" "unat y < 4096"
  shows "unat (page_addr n + y) = unat HEAP_START + n * 4096 + unat y"
  using assms page_addr_props(3) [OF assms(1)] by (simp add: unat_word_ariths)

lemma obj_address:
  assumes inv: "slab_inv s L A X fl" and e: "e \<in> slot_objs X fl \<union> block_objs X A"
  shows "0 < snd e \<and> fst e \<noteq> 0 \<and> fst e AND 7 = 0"
proof -
  have l: "links_rel s X" and hr: "heap_rel s L A" using inv by (simp_all add: slab_inv_def slab_rel_def)
  from e consider (slot) n c j where "c < NUM_CACHES" "n \<in> cpages X c" "j < nslots c" "e = (slot_addr n c j, slot_size c)"
    | (block) n i where "(n, i) \<in> A" "e = (page_addr n, 4096 * 2 ^ i)"
    by (auto simp: slot_objs_def block_objs_def)
  then show ?thesis
  proof cases
    case slot
    have n: "n < TOTAL_PAGES" using cpages_less [OF l slot(1,2)] .
    have "(8 :: nat) dvd 2 ^ (c + 4)" by (simp add: power_add)
    then have "8 dvd slot_off c j" unfolding slot_off_def slot_size_def by (intro dvd_add dvd_mult) simp_all
    moreover have "unat (slot_addr n c j) = unat HEAP_START + n * 4096 + slot_off c j"
      using unat_page_off [OF n, of "of_nat (slot_off c j)"] slot_off_less(1) [OF slot(1,3)] unat_slot_off [OF slot(1,3)]
      by (simp add: slot_addr_def)
    moreover have "8 dvd unat HEAP_START" "8 dvd n * 4096" by simp_all
    ultimately have "8 dvd unat (slot_addr n c j)" by (simp only: dvd_add)
    with slot slot_size_range [OF slot(1)] slot_addr_nonnull [OF slot(1,3) n] show ?thesis by (simp add: and_7)
  next
    case block
    have "block_ok (n, i)" using heap_rel_blocks(1) [OF hr block(1)] .
    moreover have "(0 :: nat) < 2 ^ i" by simp
    ultimately have n: "n < TOTAL_PAGES" unfolding block_ok_def by (simp only: fst_conv snd_conv) linarith
    have "8 dvd unat HEAP_START" "8 dvd n * 4096" by simp_all
    then have "8 dvd unat (page_addr n)" unfolding page_addr_props(3) [OF n] by (simp only: dvd_add)
    with block n show ?thesis by (simp add: and_7)
  qed
qed

lemma obj_in_heap:
  assumes inv: "slab_inv s L A X fl" and e: "e \<in> slot_objs X fl \<union> block_objs X A" and b: "b \<in> bytes (fst e) (snd e)"
  shows "HEAP_START \<le> b \<and> unat b < unat HEAP_START + 0x1000000"
proof -
  obtain k y where k: "b = page_addr k + y" "obj_at X fl A e k y" using obj_bytes_at [OF inv e b] by blast
  then have k4: "k < TOTAL_PAGES" "unat y < 4096" by (simp_all add: obj_at_def word_less_nat_alt)
  show ?thesis using unat_page_off [OF k4] k(1) k4 by (simp add: word_le_nat_alt)
qed

section \<open>Objects granted and released\<close>

definition objs :: "slab_lists \<Rightarrow> (nat \<Rightarrow> nat list) \<Rightarrow> block set \<Rightarrow> (u64 \<times> nat) set" where
  "objs X fl A = slot_objs X fl \<union> block_objs X A"

lemma slab_invD:
  assumes "slab_inv s L A X fl"
  shows "links_rel s X" "heap_rel s L A" "slab_rel s X fl" "pages_fam slab_ids X"
    "\<And>n. n \<in> slab_pages X \<Longrightarrow> (n, 0) \<in> A" "slab_pages X \<inter> free_pages A = {}"
    "\<And>n i. (n, i) \<in> A \<Longrightarrow> is_slab (metadata s (int n)) \<longleftrightarrow> n \<in> slab_pages X"
proof -
  show "links_rel s X" "heap_rel s L A" "slab_rel s X fl" "\<And>n. n \<in> slab_pages X \<Longrightarrow> (n, 0) \<in> A"
    "\<And>n i. (n, i) \<in> A \<Longrightarrow> is_slab (metadata s (int n)) \<longleftrightarrow> n \<in> slab_pages X"
    using assms by (force simp: slab_inv_def slab_rel_def)+
  then show "pages_fam slab_ids X" "slab_pages X \<inter> free_pages A = {}"
    using links_fam slab_inv_disjoint by blast+
qed

lemma slab_inv_page:
  assumes "slab_inv s L A X fl" "c < NUM_CACHES" "n \<in> cpages X c"
  shows "distinct (fl n)" "set (fl n) \<subseteq> {..<nslots c}" "n < TOTAL_PAGES" "(n, 0) \<in> A" "n \<in> slab_pages X"
proof -
  show "n \<in> slab_pages X" using assms(2,3) by (auto simp: slab_pages_cpages)
  then show "(n, 0) \<in> A" using slab_invD(5) [OF assms(1)] by blast
  show "n < TOTAL_PAGES" using cpages_less [OF slab_invD(1) [OF assms(1)] assms(2,3)] .
  show "distinct (fl n)" "set (fl n) \<subseteq> {..<nslots c}"
    using slab_invD(3) [OF assms(1)] assms(2,3) by (auto simp: slab_rel_def pages_rel_def page_rel_def)
qed

lemma free_pages_start: "n \<in> free_pages A \<Longrightarrow> (k, i) \<in> A \<Longrightarrow> n \<noteq> k"
  using start_in_pages [of n i] unfolding free_pages_def by blast

lemma slot_size_inj: "slot_size c = slot_size d \<longleftrightarrow> c = d"
  by (simp add: slot_size_def)

lemma slot_not_block: "c < NUM_CACHES \<Longrightarrow> (a, slot_size c) \<notin> block_objs X A"
proof -
  have "slot_size c < 4096 * 2 ^ i" if "slot_size c \<le> 2048" for i :: nat
    using that one_le_power [of "2 :: nat" i] by linarith
  then show "c < NUM_CACHES \<Longrightarrow> ?thesis" using slot_size_range [of c] unfolding block_objs_def by force
qed

text \<open>The object that a slab allocation takes was nobody's and is the only change.\<close>

lemma objs_grant:
  assumes inv: "slab_inv s L A X fl" and c: "c < NUM_CACHES" and g: "slab_grant c n j A X fl A' X' fl'"
  shows "objs X' fl' A' = insert (slot_addr n c j, slot_size c) (objs X fl A)"
    "(slot_addr n c j, slot_size c) \<notin> objs X fl A"
proof -
  note cd = cpages_disjoint [OF slab_invD(1) [OF inv]]
  have un: "d = c" if "n \<in> cpages X c" "n \<in> cpages X d" "d < NUM_CACHES" for d using cd [OF c that(3)] that by blast
  have np: "0 < nslots c" using nslots_pos [OF c] by simp
  consider (old) "A' = A" "n \<in> cpages X c" "fl n = j # fl' n" "fl' = fl(n := fl' n)" "\<forall>d < NUM_CACHES. cpages X' d = cpages X d"
    | (new) "A' = insert (n, 0) A" "n \<in> free_pages A" "j = 0" "fl' = fl(n := [1..<nslots c])"
      "\<forall>d < NUM_CACHES. cpages X' d = (if d = c then insert n (cpages X d) else cpages X d)"
    using g unfolding slab_grant_def by blast
  then have "objs X' fl' A' = insert (slot_addr n c j, slot_size c) (objs X fl A) \<and> (slot_addr n c j, slot_size c) \<notin> objs X fl A"
  proof cases
    case old
    note pg = slab_inv_page [OF inv c old(2)]
    have j: "j < nslots c" "j \<notin> set (fl' n)" "set (fl n) = insert j (set (fl' n))" using pg old(3) by auto
    have sp: "slab_pages X' = slab_pages X" using old(5) by (auto simp: slab_pages_cpages)
    have fl': "fl' k = fl k" if "k \<noteq> n" for k using that by (subst old(4)) simp
    have "slot_objs X' fl' = insert (slot_addr n c j, slot_size c) (slot_objs X fl)"
    proof (intro set_eqI iffI)
      fix e assume "e \<in> slot_objs X' fl'"
      then obtain k d i where e: "e = (slot_addr k d i, slot_size d)" "d < NUM_CACHES" "k \<in> cpages X d" "i < nslots d" "i \<notin> set (fl' k)"
        using old(5) unfolding slot_objs_def by blast
      show "e \<in> insert (slot_addr n c j, slot_size c) (slot_objs X fl)"
      proof (cases "k = n")
        case True
        then have "d = c" using un old(2) e by blast
        have "i = j \<or> i \<notin> set (fl n)" using e(5) j(3) True by auto
        with True e(1,3,4) c \<open>d = c\<close> show ?thesis unfolding slot_objs_def by blast
      next
        case False
        then show ?thesis using fl' [OF False] e unfolding slot_objs_def by auto
      qed
    next
      fix e assume "e \<in> insert (slot_addr n c j, slot_size c) (slot_objs X fl)"
      then consider "e = (slot_addr n c j, slot_size c)"
        | k d i where "e = (slot_addr k d i, slot_size d)" "d < NUM_CACHES" "k \<in> cpages X d" "i < nslots d" "i \<notin> set (fl k)"
        unfolding slot_objs_def by blast
      then show "e \<in> slot_objs X' fl'"
      proof cases
        case 1
        with j c old(2,5) show ?thesis unfolding slot_objs_def by blast
      next
        case 2
        have "i \<notin> set (fl' k)" using 2(5) j(3) fl' [of k] by (cases "k = n") auto
        with 2 old(5) show ?thesis unfolding slot_objs_def by blast
      qed
    qed
    moreover have "block_objs X' A' = block_objs X A" using old(1) sp by (simp add: block_objs_def)
    moreover have "(slot_addr n c j, slot_size c) \<notin> slot_objs X fl"
    proof
      assume "(slot_addr n c j, slot_size c) \<in> slot_objs X fl"
      then obtain k i where "slot_addr n c j = slot_addr k c i" "k \<in> cpages X c" "i < nslots c" "i \<notin> set (fl k)"
        unfolding slot_objs_def by (auto simp: slot_size_inj)
      with slot_addr_inj [OF c j(1) this(3) pg(3)] slab_inv_page(3) [OF inv c this(2)] j(3) show False by auto
    qed
    moreover have "(slot_addr n c j, slot_size c) \<notin> block_objs X A"
      by (rule slot_not_block [OF c])
    ultimately show ?thesis by (simp add: objs_def)
  next
    case new
    have nk: "n \<notin> slab_pages X" using new(2) slab_invD(6) [OF inv] by blast
    then have nX: "n \<notin> cpages X d" if "d < NUM_CACHES" for d using that by (auto simp: slab_pages_cpages)
    have sp: "slab_pages X' = insert n (slab_pages X)" using new(5) c by (auto simp: slab_pages_cpages split: if_splits)
    have "slot_objs X' fl' = insert (slot_addr n c j, slot_size c) (slot_objs X fl)"
    proof (intro set_eqI iffI)
      fix e assume "e \<in> slot_objs X' fl'"
      then obtain k d i where e: "e = (slot_addr k d i, slot_size d)" "d < NUM_CACHES" "k \<in> cpages X' d" "i < nslots d" "i \<notin> set (fl' k)"
        unfolding slot_objs_def by blast
      show "e \<in> insert (slot_addr n c j, slot_size c) (slot_objs X fl)"
      proof (cases "k = n")
        case True
        then have d: "d = c" using nX e(2,3) new(5) by (auto split: if_splits)
        then have "i = 0" using True e(4,5) new(4) by auto
        with True d e new(3) show ?thesis by simp
      next
        case False
        then have "k \<in> cpages X d" "i \<notin> set (fl k)" using e new(4,5) by (auto split: if_splits)
        then show ?thesis using e unfolding slot_objs_def by blast
      qed
    next
      fix e assume "e \<in> insert (slot_addr n c j, slot_size c) (slot_objs X fl)"
      then consider "e = (slot_addr n c 0, slot_size c)"
        | k d i where "e = (slot_addr k d i, slot_size d)" "d < NUM_CACHES" "k \<in> cpages X d" "i < nslots d" "i \<notin> set (fl k)"
        unfolding slot_objs_def new(3) by blast
      then show "e \<in> slot_objs X' fl'"
      proof cases
        case 1
        have "n \<in> cpages X' c" "0 \<notin> set (fl' n)" using new(4,5) c by auto
        with 1 c np show ?thesis unfolding slot_objs_def by blast
      next
        case 2
        then have "k \<noteq> n" using nX by blast
        then have "k \<in> cpages X' d" "i \<notin> set (fl' k)" using 2 new(4,5) by auto
        with 2 show ?thesis unfolding slot_objs_def by blast
      qed
    qed
    moreover have "block_objs X' A' = block_objs X A"
      unfolding block_objs_def sp new(1) using free_pages_start [OF new(2)] by blast
    moreover have "(slot_addr n c j, slot_size c) \<notin> slot_objs X fl"
    proof
      assume "(slot_addr n c j, slot_size c) \<in> slot_objs X fl"
      then obtain k i where k: "slot_addr n c 0 = slot_addr k c i" "k \<in> cpages X c" "i < nslots c"
        unfolding slot_objs_def new(3) by (auto simp: slot_size_inj)
      have "n < TOTAL_PAGES" using new(2) by (simp add: free_pages_def)
      with slot_addr_inj [OF c np k(3)] k slab_inv_page(3) [OF inv c k(2)] nX [OF c] show False by auto
    qed
    moreover have "(slot_addr n c j, slot_size c) \<notin> block_objs X A"
      by (rule slot_not_block [OF c])
    ultimately show ?thesis by (simp add: objs_def)
  qed
  then show "objs X' fl' A' = insert (slot_addr n c j, slot_size c) (objs X fl A)"
    "(slot_addr n c j, slot_size c) \<notin> objs X fl A" by blast+
qed


lemma objs_block:
  assumes inv: "slab_inv s L A X fl" and n: "n \<in> free_pages A"
  shows "objs X fl (insert (n, i) A) = insert (page_addr n, 4096 * 2 ^ i) (objs X fl A)"
    "(page_addr n, 4096 * 2 ^ i) \<notin> objs X fl A"
proof -
  have "n \<notin> slab_pages X" using n slab_invD(6) [OF inv] by blast
  then show "objs X fl (insert (n, i) A) = insert (page_addr n, 4096 * 2 ^ i) (objs X fl A)"
    by (auto simp: objs_def block_objs_def)
  have nT: "n < TOTAL_PAGES" using n by (simp add: free_pages_def)
  show "(page_addr n, 4096 * 2 ^ i) \<notin> objs X fl A"
  proof
    assume "(page_addr n, 4096 * 2 ^ i) \<in> objs X fl A"
    then consider c where "c < NUM_CACHES" "4096 * 2 ^ i = slot_size c" | k j where "(k, j) \<in> A" "page_addr n = page_addr k"
      unfolding objs_def slot_objs_def block_objs_def by auto
    then show False
    proof cases
      case 1
      then show False using slot_size_range [OF 1(1)] one_le_power [of "2 :: nat" i] by linarith
    next
      case 2
      have "block_ok (k, j)" using heap_rel_blocks(1) [OF slab_invD(2) [OF inv] 2(1)] .
      moreover have "(0 :: nat) < 2 ^ j" by simp
      ultimately have "k < TOTAL_PAGES" unfolding block_ok_def by (simp only: fst_conv snd_conv) linarith
      then show False using 2(2) page_addr_inj [OF nT] free_pages_start [OF n 2(1)] by blast
    qed
  qed
qed

lemma objs_free_block:
  assumes inv: "slab_inv s L A X fl" and m: "(n, i) \<in> A" "n \<notin> slab_pages X"
  shows "objs X fl (A - {(n, i)}) = objs X fl A - {(page_addr n, 4096 * 2 ^ i)}"
proof -
  have less: "k < TOTAL_PAGES" if "(k, j) \<in> A" for k j
  proof -
    have "block_ok (k, j)" using heap_rel_blocks(1) [OF slab_invD(2) [OF inv] that] .
    moreover have "(0 :: nat) < 2 ^ j" by simp
    ultimately show ?thesis unfolding block_ok_def by (simp only: fst_conv snd_conv) linarith
  qed
  have "(page_addr n, 4096 * 2 ^ i) \<notin> slot_objs X fl"
  proof
    assume "(page_addr n, 4096 * 2 ^ i) \<in> slot_objs X fl"
    then obtain c where "c < NUM_CACHES" "4096 * 2 ^ i = slot_size c" unfolding slot_objs_def by auto
    then show False using slot_size_range [of c] one_le_power [of "2 :: nat" i] by linarith
  qed
  moreover have "block_objs X (A - {(n, i)}) = block_objs X A - {(page_addr n, 4096 * 2 ^ i)}"
  proof -
    have eq: "k = n \<and> j = i" if "(k, j) \<in> A" "page_addr k = page_addr n" "(4096 :: nat) * 2 ^ j = 4096 * 2 ^ i" for k j
      using that page_addr_inj [OF less [OF that(1)] less [OF m(1)]] by simp
    show ?thesis
    proof (intro set_eqI iffI)
      fix e assume "e \<in> block_objs X (A - {(n, i)})"
      then obtain k j where k: "e = (page_addr k, 4096 * 2 ^ j)" "(k, j) \<in> A" "\<not> (k = n \<and> j = i)" "k \<notin> slab_pages X"
        unfolding block_objs_def by blast
      then have "e \<noteq> (page_addr n, 4096 * 2 ^ i)" using eq [OF k(2)] by auto
      with k show "e \<in> block_objs X A - {(page_addr n, 4096 * 2 ^ i)}" unfolding block_objs_def by blast
    next
      fix e assume "e \<in> block_objs X A - {(page_addr n, 4096 * 2 ^ i)}"
      then show "e \<in> block_objs X (A - {(n, i)})" unfolding block_objs_def by blast
    qed
  qed
  ultimately show ?thesis unfolding objs_def by blast
qed

lemma objs_free_slot:
  assumes inv: "slab_inv s L A X fl" and c: "c < NUM_CACHES" and n: "n \<in> cpages X c"
    and j: "j < nslots c" "j \<notin> set (fl n)"
    and r: "if length (j # fl n) = nslots c
      then A' = A - {(n, 0)} \<and> (\<forall>d < NUM_CACHES. cpages X' d = cpages X d - {n})
      else A' = A \<and> (\<forall>d < NUM_CACHES. cpages X' d = cpages X d)"
  shows "objs X' (fl(n := j # fl n)) A' = objs X fl A - {(slot_addr n c j, slot_size c)}"
proof -
  note pg = slab_inv_page [OF inv c n]
  have un: "d = c" if "n \<in> cpages X d" "d < NUM_CACHES" for d
    using cpages_disjoint [OF slab_invD(1) [OF inv] c that(2)] that n by blast
  have uniq: "k = n \<and> i = j" if "slot_addr k c i = slot_addr n c j" "k \<in> cpages X c" "i < nslots c" for k i
    using slot_addr_inj [OF c that(3) j(1) slab_inv_page(3) [OF inv c that(2)] pg(3)] that(1) by simp
  have slots: "slot_objs X fl - {(slot_addr n c j, slot_size c)} =
    {(slot_addr k d i, slot_size d) | k d i. d < NUM_CACHES \<and> k \<in> cpages X d \<and> i < nslots d \<and> i \<notin> set ((fl(n := j # fl n)) k)}"
    (is "_ = ?R")
  proof (intro set_eqI iffI)
    fix e assume e: "e \<in> slot_objs X fl - {(slot_addr n c j, slot_size c)}"
    then obtain k d i where k: "e = (slot_addr k d i, slot_size d)" "d < NUM_CACHES" "k \<in> cpages X d" "i < nslots d" "i \<notin> set (fl k)"
      unfolding slot_objs_def by blast
    have "i \<notin> set ((fl(n := j # fl n)) k)"
    proof (cases "k = n")
      case True
      then have "d = c" using un k by blast
      then have "i \<noteq> j" using e k(1) True by auto
      then show ?thesis using k(5) True by simp
    qed (use k in simp)
    then show "e \<in> ?R" using k by blast
  next
    fix e assume "e \<in> ?R"
    then obtain k d i where k: "e = (slot_addr k d i, slot_size d)" "d < NUM_CACHES" "k \<in> cpages X d" "i < nslots d"
      "i \<notin> set ((fl(n := j # fl n)) k)"
      by blast
    have "i \<notin> set (fl k)" using k(5) by (cases "k = n") auto
    moreover have "e \<noteq> (slot_addr n c j, slot_size c)"
    proof
      assume "e = (slot_addr n c j, slot_size c)"
      then have "d = c" "slot_addr k c i = slot_addr n c j" using k(1) by (auto simp: slot_size_inj)
      then show False using uniq k(3,4,5) by auto
    qed
    ultimately show "e \<in> slot_objs X fl - {(slot_addr n c j, slot_size c)}" using k unfolding slot_objs_def by blast
  qed
  have nb: "(slot_addr n c j, slot_size c) \<notin> block_objs X A" by (rule slot_not_block [OF c])
  have fin: "objs X' (fl(n := j # fl n)) A' = objs X fl A - {(slot_addr n c j, slot_size c)}"
    if "slot_objs X' (fl(n := j # fl n)) = ?R" "block_objs X' A' = block_objs X A"
    unfolding objs_def that(1) slots [symmetric] that(2) using nb by (simp add: Un_Diff)
  show ?thesis
  proof (cases "length (j # fl n) = nslots c")
    case True
    with r have r': "A' = A - {(n, 0)}" "\<forall>d < NUM_CACHES. cpages X' d = cpages X d - {n}" by simp_all
    have "card (set (j # fl n)) = nslots c" using True pg(1) j(2) distinct_card [of "j # fl n"] by simp
    then have "set (j # fl n) = {..<nslots c}" using pg(2) j(1) by (intro card_subset_eq) auto
    then have all: "i \<in> set (j # fl n)" if "i < nslots c" for i using that by blast
    have "slot_objs X' (fl(n := j # fl n)) = ?R"
    proof (intro set_eqI iffI)
      fix e assume "e \<in> slot_objs X' (fl(n := j # fl n))"
      then show "e \<in> ?R" using r'(2) unfolding slot_objs_def by blast
    next
      fix e assume "e \<in> ?R"
      then obtain k d i where k: "e = (slot_addr k d i, slot_size d)" "d < NUM_CACHES" "k \<in> cpages X d" "i < nslots d"
        "i \<notin> set ((fl(n := j # fl n)) k)"
        by blast
      have "k \<noteq> n"
      proof
        assume "k = n"
        then have "i < nslots c" "i \<notin> set (j # fl n)" using k un by auto
        then show False using all by blast
      qed
      then show "e \<in> slot_objs X' (fl(n := j # fl n))" using k r'(2) unfolding slot_objs_def by blast
    qed
    moreover have sp: "slab_pages X' = slab_pages X - {n}" using r'(2) by (auto simp: slab_pages_cpages)
    have "(n, i) \<notin> A" if "i \<noteq> 0" for i
      using heap_rel_blocks(2) [OF slab_invD(2) [OF inv] pg(4), of "(n, i)"] that start_in_pages [of n] by blast
    then have "(k, i) \<in> A - {(n, 0)} \<and> k \<notin> slab_pages X - {n} \<longleftrightarrow> (k, i) \<in> A \<and> k \<notin> slab_pages X" for k i
      using pg(5) by (cases "k = n"; cases "i = 0") auto
    then have "block_objs X' A' = block_objs X A" by (simp only: block_objs_def r'(1) sp)
    ultimately show ?thesis by (rule fin)
  next
    case False
    with r have r': "A' = A" "\<forall>d < NUM_CACHES. cpages X' d = cpages X d" by simp_all
    then have "slab_pages X' = slab_pages X" by (auto simp: slab_pages_cpages)
    then have "block_objs X' A' = block_objs X A" by (simp add: block_objs_def r'(1))
    moreover have "slot_objs X' (fl(n := j # fl n)) = ?R" unfolding slot_objs_def using r'(2) by blast
    ultimately show ?thesis by (intro fin)
  qed
qed

section \<open>What clients hold\<close>

text \<open>
  \<^verbatim>\<open>heap_objs s Q\<close>: the memory of \<^verbatim>\<open>s\<close> represents a heap in which exactly the objects \<^verbatim>\<open>Q\<close> are given
  out. \<^verbatim>\<open>heap_ready\<close>: the lock is not held, so an operation does not spin for ever.
\<close>

definition heap_objs :: "'a slabs_scheme \<Rightarrow> (u64 \<times> nat) set \<Rightarrow> bool" where
  "heap_objs s Q \<longleftrightarrow> (\<exists>L A X fl. slab_inv s L A X fl \<and> Q = objs X fl A)"

definition heap_ready :: "'a kmstate_scheme \<Rightarrow> bool" where
  "heap_ready s \<longleftrightarrow> (scheduler s \<longrightarrow> \<not> lock (kmalloc_lock s))"

definition keeps :: "(u64 \<times> nat) set \<Rightarrow> 'a machine_scheme \<Rightarrow> 'a machine_scheme \<Rightarrow> bool" where
  "keeps Q s s' \<longleftrightarrow> (\<forall>(a, k) \<in> Q. \<forall>b \<in> bytes a k. kmem s' b = kmem s b)"

lemma slab_inv_fields:
  assumes "kmem s' = kmem s" "free_areas s' = free_areas s" "metadata s' = metadata s"
    "kernel_caches s' = kernel_caches s" "kernel_caches_addr s' = kernel_caches_addr s"
  shows "slab_inv s' L A X fl = slab_inv s L A X fl"
proof -
  have "cache_at s' = cache_at s" "lhead s' = lhead s"
    using assms by (simp_all add: fun_eq_iff cache_at_def lhead_def)
  with assms show ?thesis
    by (simp add: slab_inv_def heap_rel_def brel_def orders_ok_def slab_rel_def caches_ok_def links_rel_def pages_rel_def)
qed

lemma quiet_keeps:
  assumes "slab_inv t L A X fl" "quiet X A {} (kmem s) (kmem s')"
  shows "keeps (objs X fl A) s s'"
  using objs_quiet [OF assms(1) _ _ assms(2)] by (force simp: keeps_def objs_def)

lemma slab_alloc_none:
  assumes inv: "slab_inv s L A X fl" and c: "c < NUM_CACHES" and X: "X (c, False) = []" and al: "abs_alloc 0 L = None"
  shows "slab_alloc (cache_at s c) s = Some (0, s)"
proof -
  have "slabs_partial (kernel_caches s (cache_at s c)) = 0"
    using links_headD(2) [OF slab_invD(1) [OF inv], of "(c, False)"] X c by (simp add: lhead_def)
  then show ?thesis
    using buddy_alloc_none [OF slab_invD(2) [OF inv] al] by (simp add: slab_alloc_def slab_create_def)
qed

lemma slab_alloc_objs:
  assumes inv: "slab_inv s L A X fl" and c: "c < NUM_CACHES"
  shows "(abs_alloc 0 L = None \<and> slab_alloc (cache_at s c) s = Some (0, s)) \<or>
    (\<exists>p s'. slab_alloc (cache_at s c) s = Some (p, s') \<and> (p, slot_size c) \<notin> objs X fl A \<and>
      heap_objs s' (insert (p, slot_size c) (objs X fl A)) \<and> keeps (objs X fl A) s s')"
proof -
  have fin: ?thesis if "slab_alloc (cache_at s c) s = Some (slot_addr n c j, s')" "slab_inv s' L' A' X' fl'"
    "slab_grant c n j A X fl A' X' fl'" "quiet X A {} (kmem s) (kmem s')" for n j s' L' A' X' fl'
  proof -
    have "heap_objs s' (insert (slot_addr n c j, slot_size c) (objs X fl A))"
      using that(2) objs_grant(1) [OF inv c that(3)] unfolding heap_objs_def by metis
    with that(1) objs_grant(2) [OF inv c that(3)] quiet_keeps [OF inv that(4)] show ?thesis by blast
  qed
  show ?thesis
  proof (cases "X (c, False)")
    case (Cons n ns)
    from slab_alloc_old [OF inv c Cons] fin show ?thesis by blast
  next
    case Nil
    show ?thesis
    proof (cases "abs_alloc 0 L")
      case None
      with slab_alloc_none [OF inv c Nil None] show ?thesis by simp
    next
      case (Some q)
      then obtain n L' where "abs_alloc 0 L = Some (n, L')" by (cases q) auto
      from slab_alloc_new [OF inv c Nil this] fin show ?thesis by blast
    qed
  qed
qed

lemma buddy_alloc_objs:
  assumes inv: "slab_inv s L A X fl"
  shows "(abs_alloc i L = None \<and> buddy_alloc i s = (0, s)) \<or>
    (\<exists>p s'. buddy_alloc i s = (p, s') \<and> (p, 4096 * 2 ^ i) \<notin> objs X fl A \<and>
      heap_objs s' (insert (p, 4096 * 2 ^ i) (objs X fl A)) \<and> keeps (objs X fl A) s s')"
proof (cases "abs_alloc i L")
  case None
  with buddy_alloc_none [OF slab_invD(2) [OF inv] None] show ?thesis by simp
next
  case (Some q)
  then obtain n L' where al: "abs_alloc i L = Some (n, L')" by (cases q) auto
  obtain s' where s': "buddy_alloc i s = (page_addr n, s')" "heap_rel s' L' (insert (n, i) A)" "only_headers (free_pages A) s s'"
    "n < TOTAL_PAGES" "\<not> is_slab (metadata s' (int n))"
    using buddy_alloc_sim [OF slab_invD(2) [OF inv] al] by blast
  have nA: "n \<in> free_pages A"
    using abs_alloc_complete(2) [OF _ al] slab_invD(2) [OF inv] start_in_pages [of n i] unfolding heap_rel_def by blast
  note dis = slab_invD(6) [OF inv] and fr = only_headers_frame [OF s'(3)] and k = only_headers_slabs [OF s'(3)]
  have r': "slab_rel s' X fl"
    by (rule slab_rel_frame [OF slab_invD(3) [OF inv] fr free_pages_less _ k]) (use dis in blast)
  have md: "metadata s' (int m) = metadata s (int m)" if "(m, j) \<in> A" for m j
  proof -
    have "m \<notin> free_pages A" using that start_in_pages [of m j] unfolding free_pages_def by blast
    then have "int m \<notin> int ` free_pages A" by auto
    then show ?thesis using s'(3) unfolding only_headers_def by blast
  qed
  have "n \<notin> slab_pages X" using nA dis by blast
  then have "\<forall>b \<in> insert (n, i) A. is_slab (metadata s' (int (fst b))) \<longleftrightarrow> fst b \<in> slab_pages X"
    using s'(5) md slab_invD(7) [OF inv] by auto
  moreover have "kinds_ok {} X fl" using inv by (simp add: slab_inv_def)
  ultimately have "slab_inv s' L' (insert (n, i) A) X fl"
    using s'(2) r' slab_invD(5) [OF inv] by (simp add: slab_inv_def)
  then have "heap_objs s' (insert (page_addr n, 4096 * 2 ^ i) (objs X fl A))"
    using objs_block(1) [OF inv nA] unfolding heap_objs_def by metis
  with s'(1) objs_block(2) [OF inv nA] quiet_keeps [OF inv quiet_page [OF fr]] show ?thesis by blast
qed

text \<open>Releasing: the object is given up, the others stay as they are.\<close>

lemma keeps_after_free:
  assumes inv: "slab_inv s L A X fl" and inv': "slab_inv s' L' A' X' fl'" and o': "objs X' fl' A' = objs X fl A - {e}"
    and sub: "slab_pages X \<subseteq> slab_pages X' \<union> free_pages A'" and e: "e \<in> objs X fl A"
    and q: "quiet X A' W (kmem s) (kmem s')" and W: "W \<subseteq> bytes (fst e) (snd e)"
  shows "keeps (objs X fl A - {e}) s s'"
proof -
  have q': "quiet X' A' W (kmem s) (kmem s')"
    using q sub header_lt unfolding quiet_def by blast
  have "kmem s' b = kmem s b" if f: "f \<in> objs X fl A - {e}" "b \<in> bytes (fst f) (snd f)" for f b
  proof (rule objs_quiet [OF inv' _ f(2) q'])
    show "f \<in> slot_objs X' fl' \<union> block_objs X' A'" using f(1) o' by (simp add: objs_def)
    have "bytes (fst f) (snd f) \<inter> bytes (fst e) (snd e) = {}"
      by (rule objs_disjoint [OF inv]) (use f(1) e in \<open>auto simp: objs_def\<close>)
    then show "b \<notin> W" using f(2) W by blast
  qed
  then show ?thesis by (auto simp: keeps_def)
qed

lemma free_objs:
  assumes inv: "slab_inv s L A X fl" and e: "(p, k) \<in> objs X fl A"
  defines "s' \<equiv> (if is_slab (metadata s (page_index p)) then slab_free p s else buddy_free p s)"
  shows "heap_objs s' (objs X fl A - {(p, k)}) \<and> keeps (objs X fl A - {(p, k)}) s s'"
proof -
  from e consider (slot) n c j where "c < NUM_CACHES" "n \<in> cpages X c" "j < nslots c" "j \<notin> set (fl n)" "p = slot_addr n c j" "k = slot_size c"
    | (block) n i where "(n, i) \<in> A" "n \<notin> slab_pages X" "p = page_addr n" "k = 4096 * 2 ^ i"
    by (auto simp: objs_def slot_objs_def block_objs_def)
  then show ?thesis
  proof cases
    case slot
    note pg = slab_inv_page [OF inv slot(1,2)]
    have s': "s' = slab_free (slot_addr n c j) s"
      using slab_invD(7) [OF inv pg(4)] pg(5) slot_addr_index [OF slot(1,3) pg(3)] slot(5) by (simp add: s'_def)
    from slab_free_inv [OF inv slot(1-4)] obtain L' A' X' where r: "slab_inv s' L' A' X' (fl(n := j # fl n))"
      "if length (j # fl n) = nslots c then A' = A - {(n, 0)} \<and> (\<forall>d < NUM_CACHES. cpages X' d = cpages X d - {n})
       else A' = A \<and> (\<forall>d < NUM_CACHES. cpages X' d = cpages X d)"
      "quiet X A' {slot_addr n c j + of_nat x | x. x < 8} (kmem s) (kmem s')"
      unfolding s' fun_upd_same by blast
    note ob = objs_free_slot [OF inv slot(1-4) r(2)]
    have sub: "slab_pages X \<subseteq> slab_pages X' \<union> free_pages A'"
    proof (cases "length (j # fl n) = nslots c")
      case True
      with r(2) have A': "A' = A - {(n, 0)}" "\<forall>d < NUM_CACHES. cpages X' d = cpages X d - {n}" by simp_all
      have "n \<notin> pages b" if "b \<in> A'" for b
        using heap_rel_blocks(2) [OF slab_invD(2) [OF inv] pg(4), of b] that A'(1) start_in_pages [of n 0] by blast
      then have "n \<in> free_pages A'" using pg(3) by (simp add: free_pages_def)
      with A'(2) show ?thesis by (auto simp: slab_pages_cpages)
    next
      case False
      with r(2) show ?thesis by (auto simp: slab_pages_cpages)
    qed
    have W: "{slot_addr n c j + of_nat x | x. x < 8} \<subseteq> bytes (fst (p, k)) (snd (p, k))"
      using slot_size_range [OF slot(1)] slot(5,6) by (auto simp: bytes_def)
    have "keeps (objs X fl A - {(p, k)}) s s'"
      by (rule keeps_after_free [OF inv r(1) _ sub e r(3) W]) (simp add: ob slot(5,6))
    moreover have "heap_objs s' (objs X fl A - {(p, k)})"
      using r(1) ob slot(5,6) unfolding heap_objs_def by metis
    ultimately show ?thesis by blast
  next
    case block
    let ?A = "A - {(n, i)}"
    have "block_ok (n, i)" using heap_rel_blocks(1) [OF slab_invD(2) [OF inv] block(1)] .
    moreover have "(0 :: nat) < 2 ^ i" by simp
    ultimately have n: "n < TOTAL_PAGES" unfolding block_ok_def by (simp only: fst_conv snd_conv) linarith
    have s': "s' = buddy_free (page_addr n) s"
      using slab_invD(7) [OF inv block(1)] block(2,3) n by (simp add: s'_def)
    note fr = buddy_free_sim [OF slab_invD(2) [OF inv] block(1), folded s']
    have pA: "\<forall>m \<in> slab_pages X. (m, 0) \<in> ?A" using slab_invD(5) [OF inv] block(2) by auto
    note dis = slab_inv_disjoint [OF pA] and pf = only_headers_frame [OF fr(2)]
    have r': "slab_rel s' X fl"
      by (rule slab_rel_frame [OF slab_invD(3) [OF inv] pf free_pages_less _ only_headers_slabs [OF fr(2)]]) (use dis in blast)
    have md: "metadata s' (int m) = metadata s (int m)" if "(m, j) \<in> ?A" for m j
    proof -
      have "m \<notin> free_pages ?A" using that start_in_pages [of m j] unfolding free_pages_def by blast
      then have "int m \<notin> int ` free_pages ?A" by auto
      then show ?thesis using fr(2) unfolding only_headers_def by blast
    qed
    then have sl: "\<forall>b \<in> ?A. is_slab (metadata s' (int (fst b))) \<longleftrightarrow> fst b \<in> slab_pages X"
      using slab_invD(7) [OF inv] by force
    have "kinds_ok {} X fl" using inv by (simp add: slab_inv_def)
    then have inv': "slab_inv s' (abs_free n i L) ?A X fl" using fr(1) r' pA sl by (simp add: slab_inv_def)
    note ob = objs_free_block [OF inv block(1,2)]
    have "keeps (objs X fl A - {(p, k)}) s s'"
      by (rule keeps_after_free [OF inv inv' _ _ e quiet_page [OF pf], of "{}"]) (simp_all add: ob block(3,4))
    moreover have "heap_objs s' (objs X fl A - {(p, k)})"
      using inv' ob block(3,4) unfolding heap_objs_def by metis
    ultimately show ?thesis by blast
  qed
qed

section \<open>Between the operations\<close>

text \<open>
  What clients do with their objects does not concern the allocator: no byte of an object is in a
  slab header, in a free slot or in a free page.
\<close>

lemma obj_at_header:
  assumes inv: "slab_inv s L A X fl" and n: "n \<in> slab_pages X" "unat y < 40"
  shows "\<not> obj_at X fl A e n y"
proof
  assume "obj_at X fl A e n y"
  then consider (slot) c j where "c < NUM_CACHES" "j < nslots c" "slot_off c j \<le> unat y"
    | (block) k i where "(k, i) \<in> A" "k \<notin> slab_pages X" "n \<in> pages (k, i)"
    unfolding obj_at_def by blast
  then show False
  proof cases
    case slot
    then show False using slot_off_less(2) [of c j] n(2) by simp
  next
    case block
    have "(n, 0) \<in> A" "n \<noteq> k" using slab_invD(5) [OF inv n(1)] n(1) block(2) by auto
    then show False
      using heap_rel_blocks(2) [OF slab_invD(2) [OF inv] \<open>(n, 0) \<in> A\<close> block(1)] block(3) start_in_pages [of n 0] by blast
  qed
qed

lemma obj_at_free_slot:
  assumes inv: "slab_inv s L A X fl" and c: "c < NUM_CACHES" and n: "n \<in> cpages X c" and j: "j \<in> set (fl n)"
    and y: "slot_off c j \<le> unat y" "unat y < slot_off c j + slot_size c"
  shows "\<not> obj_at X fl A e n y"
proof
  note pg = slab_inv_page [OF inv c n]
  assume "obj_at X fl A e n y"
  then consider (slot) d i where "d < NUM_CACHES" "n \<in> cpages X d" "i \<notin> set (fl n)" "slot_off d i \<le> unat y" "unat y < slot_off d i + slot_size d"
    | (block) k i where "(k, i) \<in> A" "k \<notin> slab_pages X" "n \<in> pages (k, i)"
    unfolding obj_at_def by blast
  then show False
  proof cases
    case slot
    have "d = c" using cpages_disjoint [OF slab_invD(1) [OF inv] c slot(1)] slot(2) n by blast
    moreover have "i \<noteq> j" using slot(3) j by blast
    ultimately show False using slot_off_apart [of i j c] slot(4,5) y by force
  next
    case block
    have "n \<noteq> k" using pg(5) block(2) by auto
    then show False
      using heap_rel_blocks(2) [OF slab_invD(2) [OF inv] pg(4) block(1)] block(3) start_in_pages [of n 0] by blast
  qed
qed

lemma obj_at_free_page:
  assumes inv: "slab_inv s L A X fl" and n: "n \<in> free_pages A"
  shows "\<not> obj_at X fl A e n y"
proof
  assume "obj_at X fl A e n y"
  then consider (slot) d where "d < NUM_CACHES" "n \<in> cpages X d" | (block) k i where "(k, i) \<in> A" "n \<in> pages (k, i)"
    unfolding obj_at_def by blast
  then show False
  proof cases
    case slot
    then have "n \<in> slab_pages X" by (auto simp: slab_pages_cpages)
    then show False using n slab_invD(6) [OF inv] by blast
  next
    case block
    then show False using n unfolding free_pages_def by blast
  qed
qed

text \<open>All bytes of the heap that are in no object.\<close>

definition same_outside :: "(u64 \<times> nat) set \<Rightarrow> mem \<Rightarrow> mem \<Rightarrow> bool" where
  "same_outside Q m m' \<longleftrightarrow> (\<forall>b. HEAP_START \<le> b \<longrightarrow> unat b < unat HEAP_START + 0x1000000 \<longrightarrow>
     (\<forall>(a, k) \<in> Q. b \<notin> bytes a k) \<longrightarrow> m' b = m b)"

lemma same_outside_page:
  assumes inv: "slab_inv s L A X fl" and sm: "same_outside (objs X fl A) m m'" and n: "n < TOTAL_PAGES" "unat y < 4096"
    and no: "\<And>e. \<not> obj_at X fl A e n y"
  shows "m' (page_addr n + y) = m (page_addr n + y)"
proof -
  have "page_addr n + y \<notin> bytes a k" if q: "(a, k) \<in> objs X fl A" for a k
  proof
    assume b: "page_addr n + y \<in> bytes a k"
    obtain i x where i: "page_addr n + y = page_addr i + x" "obj_at X fl A (a, k) i x"
      using obj_bytes_at [OF inv q [unfolded objs_def], of "page_addr n + y"] b by auto
    then have "n = i \<and> y = x"
      using page_byte_eq [of n i y x] n by (simp add: obj_at_def word_less_nat_alt)
    then show False using no i(2) by blast
  qed
  moreover have "unat (page_addr n + y) = unat HEAP_START + n * 4096 + unat y" by (rule unat_page_off [OF n])
  then have "HEAP_START \<le> page_addr n + y" "unat (page_addr n + y) < unat HEAP_START + 0x1000000"
    using n by (simp_all add: word_le_nat_alt)
  ultimately show ?thesis using sm unfolding same_outside_def by blast
qed

lemma slab_inv_client:
  assumes inv: "slab_inv s L A X fl" and sm: "same_outside (objs X fl A) (kmem s) (kmem s')"
    and eq: "free_areas s' = free_areas s" "metadata s' = metadata s"
    "kernel_caches s' = kernel_caches s" "kernel_caches_addr s' = kernel_caches_addr s"
  shows "slab_inv s' L A X fl"
proof -
  note pg = same_outside_page [OF inv sm] and r = slab_invD(3) [OF inv]
  have ca: "cache_at s' = cache_at s" and lh: "lhead s' = lhead s"
    using eq by (simp_all add: fun_eq_iff cache_at_def lhead_def)
  have hd: "load_bytes k (kmem s') (page_addr n + of_nat x) = load_bytes k (kmem s) (page_addr n + of_nat x)"
    if "n \<in> slab_pages X" "x + k \<le> 40" for n x k
  proof (rule load_bytes_cong)
    fix i assume "i < k"
    then have "unat (of_nat (x + i) :: u64) = x + i" "x + i < 40" using that(2) by (simp_all add: unat_of_nat del: of_nat_add)
    then show "kmem s' (page_addr n + of_nat x + of_nat i) = kmem s (page_addr n + of_nat x + of_nat i)"
      using pg [of n "of_nat (x + i)"] obj_at_header [OF inv that(1), of "of_nat (x + i)"]
        slab_pages_less [OF slab_invD(4) [OF inv] that(1)]
      by (simp add: add.assoc)
  qed
  note w = hd [where k = 8, of _ 0] hd [where k = 4, of _ 8] hd [where k = 4, of _ 12] hd [where k = 8, of _ 16]
    hd [where k = 8, of _ 24] hd [where k = 8, of _ 32]
  have fields: "slab_free_list (kmem s') (page_addr n) = slab_free_list (kmem s) (page_addr n)"
    "free_count (kmem s') (page_addr n) = free_count (kmem s) (page_addr n)"
    "total_count (kmem s') (page_addr n) = total_count (kmem s) (page_addr n)"
    "parent_cache (kmem s') (page_addr n) = parent_cache (kmem s) (page_addr n)"
    "slab_prev (kmem s') (page_addr n) = slab_prev (kmem s) (page_addr n)"
    "slab_next (kmem s') (page_addr n) = slab_next (kmem s) (page_addr n)" if "n \<in> slab_pages X" for n
    using w [OF that] by (simp_all add: slab_fields ld64_def ld32_def)
  have "heap_rel s' L A"
  proof (rule heap_rel_client [OF slab_invD(2) [OF inv] eq(1)])
    fix k and x :: u64
    assume k: "k \<in> free_pages A" "x < 0x1000"
    then show "kmem s' (page_addr k + x) = kmem s (page_addr k + x)"
      using pg [of k x] obj_at_free_page [OF inv k(1)] by (simp add: free_pages_def word_less_nat_alt)
  qed (simp add: eq)
  moreover have "links_rel s' X"
  proof -
    have "slab_next (kmem s') a = slab_next (kmem s) a \<and> slab_prev (kmem s') a = slab_prev (kmem s) a"
      if q: "q \<in> slab_ids" "a \<in> set (map page_addr (X q))" for q a
    proof -
      obtain n where n: "a = page_addr n" "n \<in> set (X q)" using q(2) by auto
      have "n \<in> slab_pages X" using q(1) n(2) by (rule slab_pages_mem)
      then show ?thesis using fields(5,6) n(1) by blast
    qed
    then have "dlls (slab_next (kmem s')) (slab_prev (kmem s')) (lhead s') slab_ids (\<lambda>q. map page_addr (X q))
        = dlls (slab_next (kmem s)) (slab_prev (kmem s)) (lhead s) slab_ids (\<lambda>q. map page_addr (X q))"
      by (intro dlls_cong) (simp_all add: lh)
    with slab_invD(1) [OF inv] show ?thesis by (simp add: links_rel_def)
  qed
  moreover have "page_rel (kmem s') (cache_at s c) n c (fl n)" if c: "c < NUM_CACHES" and n: "n \<in> cpages X c" for c n
  proof -
    note sp = slab_inv_page [OF inv c n]
    have ld: "ld64 (kmem s') (slot_addr n c j) = ld64 (kmem s) (slot_addr n c j)" if j: "j \<in> set (fl n)" "j < nslots c" for j
      unfolding ld64_def slot_addr_def
    proof (rule load_bytes_cong)
      fix i :: nat assume i: "i < 8"
      have "slot_off c j + slot_size c \<le> 4096" using slot_off_bound [OF c] j(2) by blast
      moreover have "i < slot_size c" using slot_size_range [OF c] i by simp
      ultimately have "slot_off c j + slot_size c \<le> 4096" "i < slot_size c" by blast+
      then have "unat (of_nat (slot_off c j + i) :: u64) = slot_off c j + i" "slot_off c j + i < 4096"
        by (simp_all add: unat_of_nat del: of_nat_add)
      then show "kmem s' (page_addr n + of_nat (slot_off c j) + of_nat i) = kmem s (page_addr n + of_nat (slot_off c j) + of_nat i)"
        using pg [of n "of_nat (slot_off c j + i)"] sp(3) \<open>i < slot_size c\<close>
          obj_at_free_slot [OF inv c n j(1), of "of_nat (slot_off c j + i)"]
        by (simp add: add.assoc)
    qed
    have "page_rel (kmem s') (cache_at s c) n c (fl n) = page_rel (kmem s) (cache_at s c) n c (fl n)"
      by (rule page_rel_cong) (use fields [OF sp(5)] ld in simp_all)
    with r c n show ?thesis by (simp add: slab_rel_def pages_rel_def)
  qed
  ultimately show ?thesis
    using inv r eq(2,3) by (simp add: slab_inv_def slab_rel_def pages_rel_def caches_ok_def ca)
qed

section \<open>The locked operations\<close>

definition heap_parts :: "'a slabs_scheme \<Rightarrow> 'a slabs_scheme \<Rightarrow> 'a slabs_scheme" where
  "heap_parts t s = s\<lparr>kmem := kmem t, free_areas := free_areas t, metadata := metadata t, kernel_caches := kernel_caches t\<rparr>"

lemma heap_parts_fields [simp]:
  "kmem (heap_parts t s) = kmem t" "free_areas (heap_parts t s) = free_areas t" "metadata (heap_parts t s) = metadata t"
  "kernel_caches (heap_parts t s) = kernel_caches t" "kernel_caches_addr (heap_parts t s) = kernel_caches_addr s"
  "heap_only s (heap_parts t s)"
  by (simp_all add: heap_parts_def heap_only_def)

lemma heap_parts_self [simp]: "heap_parts s s = s"
  by (simp add: heap_parts_def)

lemma heap_parts_kmalloc [simp]:
  "scheduler (heap_parts t s) = scheduler s" "kmalloc_lock (heap_parts t s) = kmalloc_lock s"
  by (simp_all add: heap_parts_def)

text \<open>What runs between taking and releasing the lock acts on the heap as it would without it.\<close>

lemma kmalloc_locked:
  assumes "heap_ready s"
  shows "\<exists>r s1. kmalloc_enter s = Some (r, s1) \<and> kmem s1 = kmem s \<and> free_areas s1 = free_areas s \<and> metadata s1 = metadata s \<and>
    kernel_caches s1 = kernel_caches s \<and> kernel_caches_addr s1 = kernel_caches_addr s \<and>
    (\<forall>t. heap_only s1 t \<longrightarrow> kmalloc_leave r t = heap_parts t s)"
proof (cases "scheduler s")
  case False
  have "kmalloc_leave 0 t = heap_parts t s" if "heap_only s t" for t
    using that False heap_onlyD(2) [OF that] unfolding heap_only_def heap_parts_def kmalloc_leave_def by simp
  with False show ?thesis by (simp add: kmalloc_enter_def)
next
  case True
  then have l: "\<not> lock (kmalloc_lock s)" using assms by (simp add: heap_ready_def)
  let ?s1 = "s\<lparr>cpu_rflags := cpu_rflags s AND NOT RFLAGS_IF, kmalloc_lock := (kmalloc_lock s)\<lparr>lock := True\<rparr>\<rparr>"
  have "kmalloc_leave (cpu_rflags s) t = heap_parts t s" if t: "heap_only ?s1 t" for t
  proof -
    have "t = ?s1\<lparr>kmem := kmem t, free_areas := free_areas t, metadata := metadata t, kernel_caches := kernel_caches t\<rparr>"
      using t unfolding heap_only_def .
    then obtain m f d k where t': "t = ?s1\<lparr>kmem := m, free_areas := f, metadata := d, kernel_caches := k\<rparr>" by blast
    show ?thesis
      using True l unfolding t' by (cases s) (simp add: kmalloc_leave_def heap_parts_def spin_lock_irqrestore_def write_rflags_def)
  qed
  with True l show ?thesis by (simp add: kmalloc_enter_def spin_lock_free)
qed

lemma slab_inv_parts: "kernel_caches_addr t = kernel_caches_addr s \<Longrightarrow> slab_inv (heap_parts t s) L A X fl = slab_inv t L A X fl"
  by (rule slab_inv_fields) simp_all

lemma heap_objs_parts: "kernel_caches_addr t = kernel_caches_addr s \<Longrightarrow> heap_objs t Q \<Longrightarrow> heap_objs (heap_parts t s) Q"
  unfolding heap_objs_def using slab_inv_parts by metis

lemma no_free_area:
  assumes "slab_inv s L A X fl" "abs_alloc i L = None" "i \<le> j" "j \<le> MAX_ORDERS"
  shows "free_areas s j = 0"
proof -
  have b: "brel s L" "lists_ok L" using slab_invD(2) [OF assms(1)] buddy_inv_lists_ok by (auto simp: heap_rel_def)
  have "L j = []" using assms(2-4) abs_alloc_None by blast
  then show ?thesis using brel_head [OF b(2,1) assms(4)] by simp
qed

definition no_room :: "u64 \<Rightarrow> 'a slabs_scheme \<Rightarrow> bool" where
  "no_room sz s \<longleftrightarrow> (\<forall>i \<le> MAX_ORDERS. unat sz \<le> 4096 * 2 ^ i \<longrightarrow> free_areas s i = 0)"

lemma kmalloc_result:
  assumes h: "heap_objs s Q" and rd: "heap_ready s" and sz: "sz \<noteq> 0" "unat sz \<le> 2 ^ 63"
  shows "(kmalloc sz s = Some (0, s) \<and> no_room sz s) \<or>
    (\<exists>p k s'. kmalloc sz s = Some (p, s') \<and> unat sz \<le> k \<and> heap_only s s' \<and> (p, k) \<notin> Q \<and>
       heap_objs s' (insert (p, k) Q) \<and> keeps Q s s')"
proof -
  obtain L A X fl where inv: "slab_inv s L A X fl" and Q: "Q = objs X fl A" using h by (auto simp: heap_objs_def)
  obtain r s1 where en: "kmalloc_enter s = Some (r, s1)" "kmem s1 = kmem s" "free_areas s1 = free_areas s" "metadata s1 = metadata s"
    "kernel_caches s1 = kernel_caches s" "kernel_caches_addr s1 = kernel_caches_addr s"
    and le: "\<And>t. heap_only s1 t \<Longrightarrow> kmalloc_leave r t = heap_parts t s"
    using kmalloc_locked [OF rd] by blast
  have inv1: "slab_inv s1 L A X fl" using slab_inv_fields [of s1 s] en inv by blast
  have undo: "kmalloc_leave r s1 = s" using le [of s1] en heap_parts_self [of s] by (simp add: heap_parts_def)
  have fin: ?thesis if t: "kmalloc sz s = Some (p, kmalloc_leave r t)" "unat sz \<le> k" "heap_only s1 t" "(p, k) \<notin> Q"
    "heap_objs t (insert (p, k) Q)" "keeps Q s1 t" for p k t
  proof -
    have ka: "kernel_caches_addr t = kernel_caches_addr s" using heap_onlyD(4) [OF t(3)] en(6) by simp
    have "keeps Q s (heap_parts t s)" using t(6) en(2) by (simp add: keeps_def)
    with t heap_objs_parts [OF ka t(5)] le [OF t(3)] show ?thesis by (metis heap_parts_fields(6))
  qed
  show ?thesis
  proof (cases "2048 < sz")
    case True
    obtain i where i: "kmalloc_order sz PAGE_SIZE_4KB 0 = Some i" "unat sz \<le> 2 ^ (12 + i)" "\<forall>j < i. 2 ^ (12 + j) < unat sz"
      using kmalloc_order_ok [OF sz(2)] by blast
    obtain p t where al: "buddy_alloc i s1 = (p, t)" by fastforce
    have km: "kmalloc sz s = Some (p, kmalloc_leave r t)"
      using sz(1) en(1) True i(1) al by (simp add: kmalloc_def)
    from buddy_alloc_objs [OF inv1, of i] consider
      (no) "abs_alloc i L = None" "p = 0" "t = s1"
      | (yes) "(p, 4096 * 2 ^ i) \<notin> Q" "heap_objs t (insert (p, 4096 * 2 ^ i) Q)" "keeps Q s1 t"
      using al Q by auto
    then show ?thesis
    proof cases
      case no
      have "i \<le> j" if "unat sz \<le> 4096 * 2 ^ j" for j
        using i(3) that by (rule_tac ccontr) (auto simp: power_add not_le)
      then have "no_room sz s" using no_free_area [OF inv no(1)] unfolding no_room_def by blast
      then show ?thesis using km no undo by simp
    next
      case yes
      have "unat sz \<le> 4096 * 2 ^ i" using i(2) by (simp add: power_add)
      from fin [OF km this _ yes] heap_only_buddy_alloc [OF al, of s1] show ?thesis by simp
    qed
  next
    case False
    then have "unat sz \<le> 2048" by (simp add: word_less_nat_alt)
    moreover have "caches_ok s1" using slab_invD(3) [OF inv1] by (simp add: slab_rel_def)
    ultimately obtain c where c: "c < NUM_CACHES" "kmalloc_class sz s1 0 = Some c" "unat sz \<le> slot_size c"
      using kmalloc_class_from [of s1 sz 0] by blast
    from slab_alloc_objs [OF inv1 c(1)] consider
      (no) "abs_alloc 0 L = None" "slab_alloc (cache_at s1 c) s1 = Some (0, s1)"
      | (yes) p t where "slab_alloc (cache_at s1 c) s1 = Some (p, t)" "(p, slot_size c) \<notin> Q"
        "heap_objs t (insert (p, slot_size c) Q)" "keeps Q s1 t"
      using Q by auto
    then show ?thesis
    proof cases
      case no
      have "kmalloc sz s = Some (0, s)" using sz(1) en(1) False c(2) no(2) undo by (simp add: kmalloc_def)
      moreover have "no_room sz s" using no_free_area [OF inv no(1)] unfolding no_room_def by blast
      ultimately show ?thesis by simp
    next
      case yes
      have km: "kmalloc sz s = Some (p, kmalloc_leave r t)"
        using sz(1) en(1) False c(2) yes(1) by (simp add: kmalloc_def)
      from fin [OF km c(3) _ yes(2,3,4)] heap_only_slab_alloc [OF yes(1), of s1] show ?thesis by simp
    qed
  qed
qed

lemma kfree_result:
  assumes h: "heap_objs s Q" and rd: "heap_ready s" and e: "(p, k) \<in> Q"
  shows "\<exists>s'. kfree p s = Some s' \<and> heap_only s s' \<and> heap_objs s' (Q - {(p, k)}) \<and> keeps (Q - {(p, k)}) s s'"
proof -
  obtain L A X fl where inv: "slab_inv s L A X fl" and Q: "Q = objs X fl A" using h by (auto simp: heap_objs_def)
  obtain r s1 where en: "kmalloc_enter s = Some (r, s1)" "kmem s1 = kmem s" "free_areas s1 = free_areas s" "metadata s1 = metadata s"
    "kernel_caches s1 = kernel_caches s" "kernel_caches_addr s1 = kernel_caches_addr s"
    and le: "\<And>t. heap_only s1 t \<Longrightarrow> kmalloc_leave r t = heap_parts t s"
    using kmalloc_locked [OF rd] by blast
  have inv1: "slab_inv s1 L A X fl" using slab_inv_fields [of s1 s] en inv by blast
  let ?t = "if is_slab (metadata s1 (page_index p)) then slab_free p s1 else buddy_free p s1"
  have t: "heap_objs ?t (Q - {(p, k)})" "keeps (Q - {(p, k)}) s1 ?t"
    using free_objs [OF inv1, of p k] e Q by blast+
  have ho: "heap_only s1 ?t" by (simp add: heap_only_slab_free heap_only_buddy_free)
  have "p \<noteq> 0" using obj_address [OF inv, of "(p, k)"] e Q by (simp add: objs_def)
  then have "kfree p s = Some (heap_parts ?t s)" using en(1) le [OF ho] by (simp add: kfree_def)
  moreover have "kernel_caches_addr ?t = kernel_caches_addr s" using heap_onlyD(4) [OF ho] en(6) by simp
  from heap_objs_parts [OF this t(1)] have "heap_objs (heap_parts ?t s) (Q - {(p, k)})" .
  moreover have "keeps (Q - {(p, k)}) s (heap_parts ?t s)" using t(2) en(2) by (simp add: keeps_def)
  ultimately show ?thesis using heap_parts_fields(6) by blast
qed

section \<open>The heap in use\<close>

text \<open>
  The states of a running system with the allocations its clients hold, as addresses and requested
  sizes: they start from the initialised allocators, allocate and free, and in between clients may
  change the bytes they asked for and everything outside the heap and the allocators' own data.
\<close>

inductive kheap_use :: "'a kmstate_scheme \<Rightarrow> (u64 \<times> nat) set \<Rightarrow> bool" where
  start: "(\<And>c. c < NUM_CACHES \<Longrightarrow> cache_at s c \<noteq> 0) \<Longrightarrow> heap_ready s \<Longrightarrow> kheap_use (init_slab (init_buddy s)) {}"
| alloc: "kheap_use s R \<Longrightarrow> kmalloc sz s = Some (p, s') \<Longrightarrow> p \<noteq> 0 \<Longrightarrow> kheap_use s' (insert (p, unat sz) R)"
| fail: "kheap_use s R \<Longrightarrow> kmalloc sz s = Some (0, s') \<Longrightarrow> kheap_use s' R"
| free: "kheap_use s R \<Longrightarrow> (p, z) \<in> R \<Longrightarrow> kfree p s = Some s' \<Longrightarrow> kheap_use s' (R - {(p, z)})"
| client: "kheap_use s R \<Longrightarrow> same_outside R (kmem s) (kmem s') \<Longrightarrow> free_areas s' = free_areas s \<Longrightarrow> metadata s' = metadata s \<Longrightarrow>
    kernel_caches s' = kernel_caches s \<Longrightarrow> kernel_caches_addr s' = kernel_caches_addr s \<Longrightarrow> heap_ready s' \<Longrightarrow> kheap_use s' R"

text \<open>Behind each allocation is an object at least as large.\<close>

definition backs :: "(u64 \<Rightarrow> nat) \<Rightarrow> (u64 \<times> nat) set \<Rightarrow> (u64 \<times> nat) set \<Rightarrow> bool" where
  "backs g R Q \<longleftrightarrow> (\<forall>p z y. (p, z) \<in> R \<longrightarrow> (p, y) \<in> R \<longrightarrow> z = y) \<and>
     (\<forall>p k. (p, k) \<in> Q \<longleftrightarrow> k = g p \<and> (\<exists>z. (p, z) \<in> R)) \<and> (\<forall>p z. (p, z) \<in> R \<longrightarrow> z \<le> g p)"

definition kheap_ok :: "'a kmstate_scheme \<Rightarrow> (u64 \<times> nat) set \<Rightarrow> bool" where
  "kheap_ok s R \<longleftrightarrow> heap_ready s \<and> (\<exists>Q g. heap_objs s Q \<and> backs g R Q)"

lemma heap_objs_addr:
  assumes "heap_objs s Q" "(p, k) \<in> Q"
  shows "0 < k" "p \<noteq> 0" "p AND 7 = 0" "b \<in> bytes p k \<Longrightarrow> HEAP_START \<le> b \<and> unat b < unat HEAP_START + 0x1000000"
    "(q, l) \<in> Q \<Longrightarrow> (q, l) \<noteq> (p, k) \<Longrightarrow> bytes p k \<inter> bytes q l = {}"
proof -
  obtain L A X fl where inv: "slab_inv s L A X fl" and Q: "Q = slot_objs X fl \<union> block_objs X A"
    using assms(1) by (auto simp: heap_objs_def objs_def)
  note pk = assms(2) [unfolded Q]
  show "0 < k" "p \<noteq> 0" "p AND 7 = 0" using obj_address [OF inv pk] by simp_all
  show "b \<in> bytes p k \<Longrightarrow> HEAP_START \<le> b \<and> unat b < unat HEAP_START + 0x1000000"
    using obj_in_heap [OF inv pk, of b] by simp
  show "bytes p k \<inter> bytes q l = {}" if "(q, l) \<in> Q" "(q, l) \<noteq> (p, k)"
    using objs_disjoint [OF inv pk, of "(q, l)"] that Q by force
qed

lemma bytes_start: "0 < k \<Longrightarrow> p \<in> bytes p k"
  by (force simp: bytes_def)

lemma heap_objs_new_addr:
  assumes "heap_objs s (insert (p, k) Q)" "(p, k) \<notin> Q"
  shows "p \<notin> fst ` Q"
proof
  assume "p \<in> fst ` Q"
  then obtain l where l: "(p, l) \<in> Q" by auto
  note a = heap_objs_addr [OF assms(1), of p k]
  have "0 < k" "0 < l" using heap_objs_addr(1) [OF assms(1)] l by auto
  moreover have "(p, l) \<noteq> (p, k)" using l assms(2) by blast
  ultimately show False using a(5) [of p l] l bytes_start by blast
qed

lemma backs_bytes: "backs g R Q \<Longrightarrow> (p, z) \<in> R \<Longrightarrow> (p, g p) \<in> Q \<and> z \<le> g p"
  by (auto simp: backs_def)

lemma backs_free: "backs g R Q \<Longrightarrow> (p, z) \<in> R \<Longrightarrow> backs g (R - {(p, z)}) (Q - {(p, g p)})"
  unfolding backs_def by blast

lemma backs_alloc:
  assumes b: "backs g R Q" and p: "p \<notin> fst ` Q" and z: "z \<le> k"
  shows "backs (g(p := k)) (insert (p, z) R) (insert (p, k) Q)"
proof -
  have no: "(p, y) \<notin> R" for y
  proof
    assume "(p, y) \<in> R"
    then have "(p, g p) \<in> Q" using backs_bytes [OF b] by blast
    then show False using p by force
  qed
  with b z show ?thesis unfolding backs_def by auto
qed

lemma heap_ready_only: "heap_only s s' \<Longrightarrow> heap_ready s' = heap_ready s"
  using heap_onlyD(1,2) unfolding heap_ready_def by metis

lemma keeps_backs: "backs g R Q \<Longrightarrow> keeps Q s s' \<Longrightarrow> keeps R s s'" for s s' :: "'a machine_scheme"
proof -
  assume b: "backs g R Q" and k: "keeps Q s s'"
  have "kmem s' x = kmem s x" if "(p, z) \<in> R" "x \<in> bytes p z" for p z x
  proof -
    have "(p, g p) \<in> Q" "x \<in> bytes p (g p)" using backs_bytes [OF b that(1)] bytes_mono that(2) by blast+
    then show ?thesis using k unfolding keeps_def by blast
  qed
  then show ?thesis unfolding keeps_def by blast
qed

lemma kmalloc_order_diverges:
  assumes "2 ^ 63 < unat sz"
  shows "kmalloc_order sz (push_bit k 1) ord = None"
proof -
  have lt: "push_bit j 1 < sz" for j
  proof (cases "j < 64")
    case True
    then have "(2 :: nat) ^ j < 2 ^ 64" by (intro power_strict_increasing) auto
    then have "unat (push_bit j 1 :: u64) = 2 ^ j" using unat_of_nat [of "2 ^ j", where 'a = 64] by (simp add: push_bit_eq_mult)
    moreover have "(2 :: nat) ^ j \<le> 2 ^ 63" using True by (intro power_increasing) auto
    ultimately show ?thesis using assms by (simp add: word_less_nat_alt)
  next
    case False
    have z: "(push_bit j 1 :: u64) = 0" by (rule bit_word_eqI) (use False in \<open>simp add: bit_simps\<close>)
    show ?thesis unfolding z using assms by (simp add: word_less_nat_alt)
  qed
  have div: "\<forall>j. w \<noteq> push_bit j 1" if "kmalloc_order sz w i = Some y" for w i y
  proof -
    have "z = sz \<longrightarrow> (\<forall>j. w \<noteq> push_bit j 1)" if "kmalloc_order z w i = Some y" for z
      using that
    proof (rule kmalloc_order.raw_induct [where P = "\<lambda>z w i y. z = sz \<longrightarrow> (\<forall>j. w \<noteq> push_bit j 1)", rotated])
      fix f z w i y
      assume IH: "\<And>z w i y. f z w i = Some y \<Longrightarrow> z = sz \<longrightarrow> (\<forall>j. w \<noteq> push_bit j 1)"
        and eq: "(if w < z then f z (push_bit 1 w) (Suc i) else Some i) = Some y"
      show "z = sz \<longrightarrow> (\<forall>j. w \<noteq> push_bit j 1)"
      proof (intro impI allI notI)
        fix j assume *: "z = sz" "w = push_bit j 1"
        then have "f z (push_bit 1 w) (Suc i) = Some y" using eq lt by simp
        then have "push_bit 1 w \<noteq> push_bit (Suc j) 1" using IH *(1) by blast
        then show False using *(2) by simp
      qed
    qed
    with that show ?thesis by blast
  qed
  show ?thesis
  proof (cases "kmalloc_order sz (push_bit k 1) ord")
    case (Some y)
    then show ?thesis using div by blast
  qed
qed


lemma kheap_use_ok: "kheap_use s R \<Longrightarrow> kheap_ok s R"
proof (induction rule: kheap_use.induct)
  case (start s)
  have hb: "heap_only s (init_buddy s)" by (simp add: init_buddy_def heap_only_buddy_list)
  have "cache_at (init_buddy s) c \<noteq> 0" if "c < NUM_CACHES" for c
    using start(1) [OF that] heap_onlyD(4) [OF hb] by (simp add: cache_at_def)
  then have "slab_inv (init_slab (init_buddy s)) init_lists {} (\<lambda>_. []) (\<lambda>_. [])"
    by (intro init_slab_inv [OF init_buddy_rel]) blast
  moreover have "objs (\<lambda>_. []) (\<lambda>_. []) {} = {}" by (simp add: objs_def slot_objs_def block_objs_def cpages_def)
  ultimately have "heap_objs (init_slab (init_buddy s)) {}" unfolding heap_objs_def by metis
  moreover have "backs (\<lambda>_. 0) {} {}" by (simp add: backs_def)
  moreover have "heap_ready (init_slab (init_buddy s))"
  proof -
    have "heap_only t (init_caches i zs t)" for i zs and t :: "'a kmstate_scheme"
      by (induction i zs t rule: init_caches.induct) (auto intro: heap_only_trans [rotated] simp: heap_only_def)
    then have "heap_only s (init_slab (init_buddy s))"
      unfolding init_slab_def by (rule heap_only_trans [rotated]) (rule hb)
    then show ?thesis using start(2) heap_ready_only by blast
  qed
  ultimately show ?case unfolding kheap_ok_def by blast
next
  case (alloc s R sz p s')
  then obtain Q g where h: "heap_ready s" "heap_objs s Q" "backs g R Q" by (auto simp: kheap_ok_def)
  have sz: "sz \<noteq> 0" using alloc.hyps(2,3) by (auto simp: kmalloc_def)
  show ?case
  proof (cases "unat sz \<le> 2 ^ 63")
    case True
    from kmalloc_result [OF h(2,1) sz True] alloc.hyps(2,3) obtain k where k: "unat sz \<le> k" "heap_only s s'" "(p, k) \<notin> Q"
      "heap_objs s' (insert (p, k) Q)"
      by auto
    from backs_alloc [OF h(3) heap_objs_new_addr [OF k(4,3)] k(1)] k(4) heap_ready_only [OF k(2)] h(1)
    show ?thesis unfolding kheap_ok_def by blast
  next
    case False
    then have "kmalloc sz s = None"
      using kmalloc_order_diverges [of sz 12 0] sz
      by (auto simp: kmalloc_def push_bit_eq_mult word_less_nat_alt bind_eq_None_conv)
    then show ?thesis using alloc.hyps(2) by simp
  qed
next
  case (fail s R sz s')
  then obtain Q g where h: "heap_ready s" "heap_objs s Q" "backs g R Q" by (auto simp: kheap_ok_def)
  consider "sz = 0" | "sz \<noteq> 0" "unat sz \<le> 2 ^ 63" | "sz \<noteq> 0" "2 ^ 63 < unat sz" by fastforce
  then show ?case
  proof cases
    case 1
    then show ?thesis using fail by (simp add: kmalloc_def)
  next
    case 2
    from kmalloc_result [OF h(2,1) 2] fail.hyps(2) heap_objs_addr(2) have "s' = s" by auto
    then show ?thesis using fail.IH by simp
  next
    case 3
    then have "kmalloc sz s = None"
      using kmalloc_order_diverges [of sz 12 0]
      by (auto simp: kmalloc_def push_bit_eq_mult word_less_nat_alt bind_eq_None_conv)
    then show ?thesis using fail.hyps(2) by simp
  qed
next
  case (free s R p z s')
  then obtain Q g where h: "heap_ready s" "heap_objs s Q" "backs g R Q" by (auto simp: kheap_ok_def)
  have "(p, g p) \<in> Q" using backs_bytes [OF h(3) free.hyps(2)] by blast
  from kfree_result [OF h(2,1) this] free.hyps(3) backs_free [OF h(3) free.hyps(2)] heap_ready_only h(1)
  show ?case unfolding kheap_ok_def by force
next
  case (client s R s')
  then obtain Q g where h: "heap_ready s" "heap_objs s Q" "backs g R Q" by (auto simp: kheap_ok_def)
  then obtain L A X fl where inv: "slab_inv s L A X fl" and Q: "Q = objs X fl A" by (auto simp: heap_objs_def)
  have "b \<notin> bytes p z" if "\<forall>(p, k) \<in> Q. b \<notin> bytes p k" "(p, z) \<in> R" for b p z
    using backs_bytes [OF h(3) that(2)] bytes_mono that(1) by blast
  then have "same_outside Q (kmem s) (kmem s')"
    using client.hyps(2) unfolding same_outside_def by blast
  then have "slab_inv s' L A X fl" using slab_inv_client [OF inv] client.hyps(3-6) Q by blast
  then show ?case using h(3) client.hyps(7) Q unfolding kheap_ok_def heap_objs_def by blast
qed

lemma heap_objs_empty:
  assumes "heap_objs s {}"
  shows "\<exists>L. heap_rel s L {}"
proof -
  obtain L A X fl where inv: "slab_inv s L A X fl" and e: "objs X fl A = {}" using assms by (auto simp: heap_objs_def)
  have no: "n \<notin> cpages X c" if c: "c < NUM_CACHES" for n c
  proof
    assume n: "n \<in> cpages X c"
    note pg = slab_inv_page [OF inv c n]
    have "kinds_ok {} X fl" using inv by (simp add: slab_inv_def)
    then have "length (fl n) < nslots c" using n c by (auto simp: kinds_ok_def cpages_def)
    moreover have "card (set (fl n)) = length (fl n)" by (rule distinct_card [OF pg(1)])
    ultimately have "set (fl n) \<noteq> {..<nslots c}" by (metis card_lessThan nat_neq_iff)
    then obtain j where "j < nslots c" "j \<notin> set (fl n)" using pg(2) lessThan_iff by blast
    then show False using e n c unfolding objs_def slot_objs_def by blast
  qed
  then have "slab_pages X = {}" by (auto simp: slab_pages_cpages)
  then have "A = {}" using e unfolding objs_def block_objs_def by auto
  then show ?thesis using slab_invD(2) [OF inv] by blast
qed

section \<open>Properties\<close>

definition kmalloc_example :: kmstate where
  "kmalloc_example = init_slab (init_buddy (kheap.extend heap_example
     \<lparr>kernel_caches_addr = 0xFFFFFFFF80010000, kernel_caches = (\<lambda>_. \<lparr>obj_size = 0, slabs_partial = 0, slabs_full = 0\<rparr>),
      kmalloc_lock = \<lparr>lock = False\<rparr>, scheduler = True\<rparr>))"

lemma kmalloc_example_use [simp]: "kheap_use kmalloc_example {}"
  unfolding kmalloc_example_def
proof (rule kheap_use.start)
  fix c :: nat assume "c < NUM_CACHES"
  then have "c \<in> {0, 1, 2, 3, 4, 5, 6, 7}" by auto
  then show "cache_at (kheap.extend heap_example \<lparr>kernel_caches_addr = 0xFFFFFFFF80010000,
      kernel_caches = (\<lambda>_. \<lparr>obj_size = 0, slabs_partial = 0, slabs_full = 0\<rparr>),
      kmalloc_lock = \<lparr>lock = False\<rparr>, scheduler = True\<rparr>) c \<noteq> 0"
    by (auto simp: cache_at_def kheap.defs)
qed (simp add: heap_ready_def kheap.defs)

lemma kheap_use_single:
  assumes "kheap_use s {}"
  shows "\<exists>L. heap_rel s L {}" "heap_ready s"
proof -
  obtain Q g where h: "heap_ready s" "heap_objs s Q" "backs g {} Q"
    using kheap_use_ok [OF assms] by (auto simp: kheap_ok_def)
  then have "Q = {}" by (auto simp: backs_def)
  with h heap_objs_empty show "\<exists>L. heap_rel s L {}" "heap_ready s" by auto
qed

lemma kheap_use_heap_ready: "kheap_use s R \<Longrightarrow> heap_ready s"
  using kheap_use_ok by (auto simp: kheap_ok_def)

lemma empty_heap_room: "kheap_use s {} \<Longrightarrow> unat sz \<le> 0x1000000 \<Longrightarrow> \<not> no_room sz s"
proof -
  assume "kheap_use s {}"
  then obtain L where L: "heap_rel s L {}" using kheap_use_single by blast
  then have b: "brel s L" and i: "buddy_inv L {}" by (simp_all add: heap_rel_def)
  have "free_areas s MAX_ORDERS \<noteq> 0"
    using brel_head [OF buddy_inv_lists_ok [OF i] b, of MAX_ORDERS] buddy_inv_empty(1) [OF i]
      page_addr_props(2) [of 0] by simp
  then show "unat sz \<le> 0x1000000 \<Longrightarrow> ?thesis" by (auto simp: no_room_def intro!: exI [of _ MAX_ORDERS])
qed

lemma empty_heap_alloc:
  assumes use: "kheap_use s {}" and sz: "sz \<noteq> 0" "unat sz \<le> 0x1000000"
  shows "\<exists>p s'. kmalloc sz s = Some (p, s') \<and> HEAP_START \<le> p \<and> p \<noteq> 0 \<and> kheap_use s' {(p, unat sz)}"
proof -
  obtain Q g where h: "heap_ready s" "heap_objs s Q" "backs g {} Q"
    using kheap_use_ok [OF use] by (auto simp: kheap_ok_def)
  obtain p k s' where a: "kmalloc sz s = Some (p, s')" "heap_objs s' (insert (p, k) Q)"
    using kmalloc_result [OF h(2,1) sz(1)] sz(2) empty_heap_room [OF use sz(2)] by auto
  have p: "p \<noteq> 0" "0 < k" using heap_objs_addr(1,2) [OF a(2), of p k] by simp_all
  then have "HEAP_START \<le> p" using heap_objs_addr(4) [OF a(2), of p k p] bytes_start by simp
  with kheap_use.alloc [OF use a(1)] a(1) p show ?thesis by blast
qed

lemma kfree_example_returns: "kheap_use s {(p, z)} \<Longrightarrow> \<exists>t. kfree p s = Some t"
proof -
  assume "kheap_use s {(p, z)}"
  then obtain Q g where h: "heap_ready s" "heap_objs s Q" "backs g {(p, z)} Q"
    using kheap_use_ok [of s "{(p, z)}"] by (auto simp: kheap_ok_def)
  then have "(p, g p) \<in> Q" by (auto simp: backs_def)
  from kfree_result [OF h(2,1) this] show ?thesis by blast
qed

text \<open>
  C1: \<^verbatim>\<open>kmalloc\<close> in every reachable state of the heap, with or without the scheduler running: for a
  size from 1 to \<^verbatim>\<open>2 ^ 63\<close> it returns, with the lock released and the interrupt flag restored, and
  either gives out an 8-aligned object of at least the requested size inside the heap that overlaps no
  object held, whose bytes it leaves as they are, or returns 0 with nothing changed, and then no free
  block of the buddy allocator has the requested size.
\<close>

theorem kmalloc_correct:
  assumes use: "kheap_use s R" and sz: "sz \<noteq> 0" "unat sz \<le> 2 ^ 63"
  shows "(kmalloc sz s = Some (0, s) \<and> no_room sz s) \<or>
    (\<exists>p s'. kmalloc sz s = Some (p, s') \<and> p \<noteq> 0 \<and> p AND 7 = 0 \<and> heap_only s s' \<and>
      (\<forall>b \<in> bytes p (unat sz). HEAP_START \<le> b \<and> unat b < unat HEAP_START + 0x1000000) \<and>
      (\<forall>(q, z) \<in> R. bytes q z \<inter> bytes p (unat sz) = {}) \<and> keeps R s s' \<and> kheap_use s' (insert (p, unat sz) R))"
proof -
  obtain Q g where h: "heap_ready s" "heap_objs s Q" "backs g R Q"
    using kheap_use_ok [OF use] by (auto simp: kheap_ok_def)
  from kmalloc_result [OF h(2,1) sz] consider "kmalloc sz s = Some (0, s)" "no_room sz s"
    | p k s' where "kmalloc sz s = Some (p, s')" "unat sz \<le> k" "heap_only s s'" "(p, k) \<notin> Q"
      "heap_objs s' (insert (p, k) Q)" "keeps Q s s'"
    by blast
  then show ?thesis
  proof cases
    case 2
    note a = heap_objs_addr [OF 2(5), of p k, simplified]
    have "bytes q z \<inter> bytes p (unat sz) = {}" if "(q, z) \<in> R" for q z
    proof -
      have q: "(q, g q) \<in> Q" "z \<le> g q" using backs_bytes [OF h(3) that] by blast+
      then have "bytes p k \<inter> bytes q (g q) = {}" using a(5) [of q "g q"] 2(4) by auto
      then show ?thesis using bytes_mono [OF q(2)] bytes_mono [OF 2(2)] by blast
    qed
    moreover have "kheap_use s' (insert (p, unat sz) R)" by (rule kheap_use.alloc [OF use 2(1)]) (use a in simp)
    moreover have "\<forall>b \<in> bytes p (unat sz). HEAP_START \<le> b \<and> unat b < unat HEAP_START + 0x1000000"
    proof
      fix b assume "b \<in> bytes p (unat sz)"
      then have "b \<in> bytes p k" using bytes_mono [OF 2(2)] by blast
      with heap_objs_addr(4) [OF 2(5), of p k b] show "HEAP_START \<le> b \<and> unat b < unat HEAP_START + 0x1000000" by simp
    qed
    moreover have "keeps R s s'" by (rule keeps_backs [OF h(3) 2(6)])
    ultimately show ?thesis
      using 2(1,3) a(2,3) by (intro disjI2 exI [of _ p] exI [of _ s'] conjI ballI) auto
  qed blast
qed

theorem kmalloc_correct_witness:
  "\<exists>p s'. kmalloc 100 kmalloc_example = Some (p, s') \<and> p \<noteq> 0 \<and> kheap_use s' {(p, 100)}"
proof -
  have "\<not> no_room 100 kmalloc_example" by (rule empty_heap_room [OF kmalloc_example_use]) simp
  with kmalloc_correct [OF kmalloc_example_use, of 100] show ?thesis by auto
qed

text \<open>
  C2: \<^verbatim>\<open>kfree\<close> of a held object returns, gives up exactly that object and leaves the bytes of every
  other object as they are; so the objects held after any sequence of operations stay disjoint,
  aligned and inside the heap.
\<close>

theorem kfree_correct:
  assumes use: "kheap_use s R" and e: "(p, z) \<in> R"
  shows "\<exists>s'. kfree p s = Some s' \<and> heap_only s s' \<and> keeps (R - {(p, z)}) s s' \<and> kheap_use s' (R - {(p, z)}) \<and>
    (\<forall>(q, y) \<in> R - {(p, z)}. q \<noteq> 0 \<and> q AND 7 = 0 \<and> bytes p z \<inter> bytes q y = {})"
proof -
  obtain Q g where h: "heap_ready s" "heap_objs s Q" "backs g R Q"
    using kheap_use_ok [OF use] by (auto simp: kheap_ok_def)
  have pQ: "(p, g p) \<in> Q" "z \<le> g p" using backs_bytes [OF h(3) e] by blast+
  from kfree_result [OF h(2,1) pQ(1)] obtain s' where s': "kfree p s = Some s'" "heap_only s s'"
    "keeps (Q - {(p, g p)}) s s'" by blast
  have "q \<noteq> 0 \<and> q AND 7 = 0 \<and> bytes p z \<inter> bytes q y = {}" if "(q, y) \<in> R - {(p, z)}" for q y
  proof -
    have qQ: "(q, g q) \<in> Q" "y \<le> g q" using backs_bytes [OF h(3), of q y] that by blast+
    have "q \<noteq> p" using that e h(3) unfolding backs_def by blast
    then have "bytes p (g p) \<inter> bytes q (g q) = {}" using heap_objs_addr(5) [OF h(2) pQ(1) qQ(1)] by blast
    then show ?thesis
      using heap_objs_addr(2,3) [OF h(2) qQ(1)] bytes_mono [OF qQ(2), of q] bytes_mono [OF pQ(2), of p] by blast
  qed
  with s' keeps_backs [OF backs_free [OF h(3) e] s'(3)] kheap_use.free [OF use e s'(1)] show ?thesis by blast
qed

theorem kfree_correct_witness:
  "\<exists>p s' t. kmalloc 0x3000 kmalloc_example = Some (p, s') \<and> p \<noteq> 0 \<and> kfree p s' = Some t \<and> kheap_use t {}"
proof -
  obtain p s' where a: "kmalloc 0x3000 kmalloc_example = Some (p, s')" "p \<noteq> 0" "kheap_use s' {(p, 0x3000)}"
    using empty_heap_alloc [OF kmalloc_example_use, of "0x3000"] by auto
  from kfree_correct [OF a(3), of p "0x3000"] a(1,2) show ?thesis by auto
qed

text \<open>
  C13: nothing leaks: when every allocation has been given back, in whatever order and whichever slabs
  were made for them, the whole heap is one free block again, and a request for all 16 MiB of it is
  granted.
\<close>

theorem kheap_all_returned:
  assumes "kheap_use s {}"
  shows "free_areas s MAX_ORDERS = HEAP_START \<and> (\<forall>i < MAX_ORDERS. free_areas s i = 0) \<and>
    (\<exists>s'. kmalloc HEAP_SIZE s = Some (HEAP_START, s'))"
proof -
  obtain L where r: "heap_rel s L {}" using kheap_use_single(1) [OF assms] by blast
  then have inv: "buddy_inv L {}" and b: "brel s L" by (simp_all add: heap_rel_def)
  note L = buddy_inv_lists_ok [OF inv] and e = buddy_inv_empty [OF inv]
  have a: "page_addr 0 = HEAP_START" by (simp add: page_addr_def)
  have top: "free_areas s MAX_ORDERS = HEAP_START" using brel_head [OF L b, of MAX_ORDERS] e(1) a by simp
  have low: "\<forall>i < MAX_ORDERS. free_areas s i = 0" using brel_head [OF L b] e(2) by simp
  have "\<not> no_room HEAP_SIZE s" using top by (auto simp: no_room_def intro!: exI [of _ MAX_ORDERS])
  with kmalloc_correct [OF assms, of HEAP_SIZE] obtain p s' where km: "kmalloc HEAP_SIZE s = Some (p, s')"
    "\<forall>b \<in> bytes p 0x1000000. HEAP_START \<le> b \<and> unat b < unat HEAP_START + 0x1000000"
    by auto
  have "p \<in> bytes p 0x1000000" by (rule bytes_start) simp
  moreover have "p + 0xFFFFFF \<in> bytes p 0x1000000" unfolding bytes_def by (rule CollectI, rule exI [of _ "0xFFFFFF"]) simp
  ultimately have "HEAP_START \<le> p" "unat p < unat HEAP_START + 0x1000000" "unat (p + 0xFFFFFF) < unat HEAP_START + 0x1000000"
    using km(2) by blast+
  then have "unat p = unat HEAP_START" by (simp add: word_le_nat_alt unat_word_ariths)
  then have "p = HEAP_START" by (simp only: word_unat_eq_iff)
  with km(1) top low show ?thesis by blast
qed

theorem kheap_all_returned_witness:
  "\<exists>p s' t. kmalloc 24 kmalloc_example = Some (p, s') \<and> kfree p s' = Some t \<and> (\<exists>u. kmalloc HEAP_SIZE t = Some (HEAP_START, u))"
proof -
  obtain p s' where a: "kmalloc 24 kmalloc_example = Some (p, s')" "kheap_use s' {(p, 24)}"
    using empty_heap_alloc [OF kmalloc_example_use, of 24] by auto
  obtain t where t: "kfree p s' = Some t" using kfree_example_returns [OF a(2)] by blast
  have "kheap_use t {}" using kheap_use.free [OF a(2) _ t, of 24] by simp
  with kheap_all_returned [of t] a(1) t show ?thesis by blast
qed

text \<open>
  C34: \<^verbatim>\<open>kmalloc\<close> returns exactly for sizes up to \<^verbatim>\<open>2 ^ 63\<close>: above, the loop that rounds the size
  up to a power of two shifts its variable to 0 and never ends, with the lock held and interrupts off.
\<close>

theorem kmalloc_returns_iff:
  assumes "kheap_use s R"
  shows "kmalloc sz s \<noteq> None \<longleftrightarrow> unat sz \<le> 2 ^ 63"
proof (cases "unat sz \<le> 2 ^ 63")
  case True
  obtain Q where h: "heap_ready s" "heap_objs s Q" using kheap_use_ok [OF assms] by (auto simp: kheap_ok_def)
  have "kmalloc sz s \<noteq> None"
  proof (cases "sz = 0")
    case False
    with kmalloc_result [OF h(2,1) False True] show ?thesis by auto
  qed (simp add: kmalloc_def)
  with True show ?thesis by blast
next
  case False
  then have "sz \<noteq> 0" "2048 < sz" by (auto simp: word_less_nat_alt)
  moreover have "kmalloc_order sz PAGE_SIZE_4KB 0 = None"
    using kmalloc_order_diverges [of sz 12 0] False by (simp add: push_bit_eq_mult)
  ultimately have "kmalloc sz s = None" by (auto simp: kmalloc_def bind_eq_None_conv)
  with False show ?thesis by blast
qed

theorem kmalloc_returns_iff_witness: "kmalloc 0xFFFFFFFFFFFFFFFF kmalloc_example = None"
  using kmalloc_returns_iff [OF kmalloc_example_use, of "0xFFFFFFFFFFFFFFFF"] by (simp del: not_None_eq)

end
