(* ===== verification/Ranges.thy ===== *)
theory Ranges
  imports Dlist_Links "HOL-Library.Monad_Syntax"
begin

text \<open>
  The lists of address ranges behind \<^verbatim>\<open>mm/vmalloc.c\<close> and \<^verbatim>\<open>mm/stack.c\<close>. The two files hold the same
  list code twice: the kernel's ranges grow upwards from \<^verbatim>\<open>VMALLOC_START\<close>, the user stacks
  downwards from \<^verbatim>\<open>USER_STACK_MAX\<close>. The code is modelled once, over the comparison \<^verbatim>\<open>fits\<close> and the
  new base \<^verbatim>\<open>place\<close> that differ, and the locale \<^verbatim>\<open>ranges\<close> states what these two must satisfy.
\<close>

section \<open>Nodes and operations\<close>

text \<open>
  \<^verbatim>\<open>vm_info_t\<close> and \<^verbatim>\<open>us_info_t\<close> have the same four fields. The nodes come from \<^verbatim>\<open>kmalloc\<close>, whose
  objects do not overlap, so they are a store from addresses to records.
\<close>

record range_info =
  base :: u64
  range_size :: u64
  range_next :: u64
  range_prev :: u64

type_synonym range_store = "u64 \<Rightarrow> range_info"

definition set_base :: "range_store \<Rightarrow> u64 \<Rightarrow> u64 \<Rightarrow> range_store" where
  "set_base st a v = st(a := (st a)\<lparr>base := v\<rparr>)"

definition set_range_size :: "range_store \<Rightarrow> u64 \<Rightarrow> u64 \<Rightarrow> range_store" where
  "set_range_size st a v = st(a := (st a)\<lparr>range_size := v\<rparr>)"

definition set_range_next :: "range_store \<Rightarrow> u64 \<Rightarrow> u64 \<Rightarrow> range_store" where
  "set_range_next st a v = st(a := (st a)\<lparr>range_next := v\<rparr>)"

definition set_range_prev :: "range_store \<Rightarrow> u64 \<Rightarrow> u64 \<Rightarrow> range_store" where
  "set_range_prev st a v = st(a := (st a)\<lparr>range_prev := v\<rparr>)"

text \<open>
  The walk of \<^verbatim>\<open>vm_add_to_list\<close> and \<^verbatim>\<open>us_add_to_list\<close>: the new node goes between \<^verbatim>\<open>cur\<close> and \<^verbatim>\<open>nxt\<close> when it
  fits there, else behind the last node. On a list with a cycle it would not end.
\<close>

partial_function (option) range_walk ::
  "(range_info \<Rightarrow> range_info \<Rightarrow> range_info \<Rightarrow> bool) \<Rightarrow> (range_info \<Rightarrow> u64) \<Rightarrow> u64 \<Rightarrow> u64 \<Rightarrow> u64 \<Rightarrow> range_store \<Rightarrow> range_store option" where
  "range_walk fits place i cur nxt st =
     (if nxt \<noteq> 0 then
        if fits (st cur) (st i) (st nxt) then
          let st1 = set_base st i (place (st cur));
              st2 = set_range_next st1 i nxt;
              st3 = set_range_prev st2 i cur;
              st4 = set_range_next st3 cur i
          in Some (set_range_prev st4 nxt i)
        else range_walk fits place i nxt (range_next (st nxt)) st
      else
        let st1 = set_base st i (place (st cur));
            st2 = set_range_prev st1 i cur;
            st3 = set_range_next st2 i 0
        in Some (set_range_next st3 cur i))"

definition range_add ::
  "(range_info \<Rightarrow> range_info \<Rightarrow> range_info \<Rightarrow> bool) \<Rightarrow> (range_info \<Rightarrow> u64) \<Rightarrow> u64 \<Rightarrow> u64 \<Rightarrow> u64 \<Rightarrow> range_store \<Rightarrow> (u64 \<times> range_store) option" where
  "range_add fits place first i hd0 st =
     (if hd0 = 0 then
        let st1 = set_base st i first;
            st2 = set_range_prev st1 i 0
        in Some (i, set_range_next st2 i 0)
      else do {
        st1 \<leftarrow> range_walk fits place i hd0 (range_next (st hd0)) st;
        Some (hd0, st1)
      })"

definition range_remove :: "u64 \<Rightarrow> u64 \<Rightarrow> range_store \<Rightarrow> u64 \<times> range_store" where
  "range_remove i hd0 st =
     (if i = 0 then (hd0, st)
      else
        let hd1 = (if hd0 = i then range_next (st i) else hd0);
            st1 = (if range_next (st i) \<noteq> 0 then set_range_prev st (range_next (st i)) (range_prev (st i)) else st);
            st2 = (if range_prev (st1 i) \<noteq> 0 then set_range_next st1 (range_prev (st1 i)) (range_next (st1 i)) else st1);
            st3 = set_range_next st2 i 0
        in (hd1, set_range_prev st3 i 0))"

text \<open>The search of \<^verbatim>\<open>vfree\<close> and \<^verbatim>\<open>user_free_stack\<close> for the node of a base address: 0 when there is none.\<close>

partial_function (option) range_find :: "u64 \<Rightarrow> u64 \<Rightarrow> range_store \<Rightarrow> u64 option" where
  "range_find ptr cur st =
     (if cur = 0 then Some 0
      else if base (st cur) = ptr then Some cur
      else range_find ptr (range_next (st cur)) st)"

section \<open>Lists of ranges\<close>

interpretation rng: dlist "\<lambda>st a. range_next (st a)" "\<lambda>st a. range_prev (st a)" set_range_next set_range_prev "\<lambda>a. a \<noteq> 0"
  by unfold_locales (simp_all add: set_range_next_def set_range_prev_def)

definition range_list :: "(range_info \<Rightarrow> range_info \<Rightarrow> bool) \<Rightarrow> u64 \<Rightarrow> range_store \<Rightarrow> u64 list \<Rightarrow> bool" where
  "range_list before h st xs \<longleftrightarrow> distinct xs \<and> dll (\<lambda>a. range_next (st a)) (\<lambda>a. range_prev (st a)) 0 h xs \<and>
     sorted_wrt before (map st xs)"

definition same_range :: "range_info \<Rightarrow> range_info \<Rightarrow> bool" where
  "same_range a b \<longleftrightarrow> base a = base b \<and> range_size a = range_size b"

lemma dll_insert:
  assumes "dll nx pv p h (xs @ c # ys)" "distinct (xs @ c # ys)" "a \<notin> set (xs @ c # ys)" "a \<noteq> 0" "p \<notin> set (xs @ c # ys)"
    and nx': "\<And>b. b \<in> set (xs @ c # a # ys) \<Longrightarrow> nx' b = (if b = c then a else if b = a then nx c else nx b)"
    and pv': "\<And>b. b \<in> set (xs @ c # a # ys) \<Longrightarrow> pv' b = (if b = a then c else if b = nx c then a else pv b)"
  shows "dll nx' pv' p h (xs @ c # a # ys)"
  using assms
proof (induction xs arbitrary: p h)
  case Nil
  have tail: "dll nx' pv' a (nx c) ys"
  proof (cases ys)
    case Nil
    then show ?thesis using Nil.prems(1) by simp
  next
    case (Cons b bs)
    then have b: "nx c = b" "b \<noteq> 0" "dll nx pv b (nx b) bs" using Nil.prems(1) by auto
    have "dll nx' pv' b (nx b) bs = dll nx pv b (nx b) bs"
      using Nil.prems(2,3) Nil.prems(6,7) b(1) Cons by (intro dll_cong) auto
    then show ?thesis using b Cons Nil.prems(2,3,6,7) by auto
  qed
  have "c \<noteq> nx c"
    using Nil.prems(1,2) by (cases ys) auto
  then show ?case using tail Nil.prems by auto
next
  case (Cons x xs)
  have x: "h = x" "x \<noteq> 0" "pv x = p" "dll nx pv x (nx x) (xs @ c # ys)" using Cons.prems(1) by auto
  have "nx c \<noteq> x"
    using dll_next [of nx pv x "nx x" xs c ys] x(4) Cons.prems(2) x(2) by (cases ys) auto
  moreover have "dll nx' pv' x (nx x) (xs @ c # a # ys)"
    by (rule Cons.IH [OF x(4)]) (use Cons.prems in auto)
  moreover have "nx' x = nx x" "pv' x = pv x" using Cons.prems(2,3,6,7) \<open>nx c \<noteq> x\<close> by auto
  ultimately show ?case using x by simp
qed

text \<open>
  What a kind of range must satisfy: \<^verbatim>\<open>before\<close> orders ranges without overlap, \<^verbatim>\<open>room c n\<close> says that the
  arithmetic on the end of \<^verbatim>\<open>c\<close> and the size of \<^verbatim>\<open>n\<close> does not wrap.
\<close>

locale ranges =
  fixes fits :: "range_info \<Rightarrow> range_info \<Rightarrow> range_info \<Rightarrow> bool"
    and place :: "range_info \<Rightarrow> u64"
    and before room :: "range_info \<Rightarrow> range_info \<Rightarrow> bool"
  assumes before_cong: "same_range a a' \<Longrightarrow> same_range b b' \<Longrightarrow> before a b = before a' b'"
    and before_trans: "before a b \<Longrightarrow> before b c \<Longrightarrow> before a c"
    and append_before: "room c n \<Longrightarrow> before c (n\<lparr>base := place c\<rparr>)"
    and fits_before: "room c n \<Longrightarrow> fits c n x \<Longrightarrow> before (n\<lparr>base := place c\<rparr>) x"
begin

lemma sorted_cong:
  assumes "\<And>a. a \<in> set xs \<Longrightarrow> same_range (st' a) (st a)"
  shows "sorted_wrt before (map st' xs) = sorted_wrt before (map st xs)"
  using assms
proof (induction xs)
  case (Cons a xs)
  have "before (st' a) (st' b) = before (st a) (st b)" if "b \<in> set xs" for b
    using Cons.prems that by (intro before_cong) auto
  with Cons show ?case by auto
qed simp

lemma sorted_insert:
  assumes "sorted_wrt before (xs @ c # ys)" "before c n" "ys \<noteq> [] \<Longrightarrow> before n (hd ys)"
  shows "sorted_wrt before (xs @ c # n # ys)"
proof -
  have "before n y" if "y \<in> set ys" for y
  proof (cases ys)
    case (Cons z zs)
    then have "before n z" "y = z \<or> before z y" using assms(1,3) that by (auto simp: sorted_wrt_append)
    then show ?thesis using before_trans by blast
  qed (use that in simp)
  moreover have "before x n" if "x \<in> set xs" for x
    using that assms(1,2) before_trans by (fastforce simp: sorted_wrt_append)
  ultimately show ?thesis using assms(1,2) by (auto simp: sorted_wrt_append)
qed

text \<open>One insertion behind \<^verbatim>\<open>c\<close>, at the end or in the middle.\<close>

lemma insert_here:
  assumes l: "range_list before h st (xs @ c # ys)" and i: "i \<notin> set (xs @ c # ys)" "i \<noteq> 0" and r: "room (st c) (st i)"
    and f: "ys \<noteq> [] \<Longrightarrow> fits (st c) (st i) (st (hd ys))"
    and st': "\<And>b. range_next (st' b) = (if b = c then i else if b = i then range_next (st c) else range_next (st b))"
      "\<And>b. b \<in> set (xs @ c # i # ys) \<Longrightarrow> range_prev (st' b) = (if b = i then c else if b = range_next (st c) then i else range_prev (st b))"
      "\<And>b. b \<noteq> i \<Longrightarrow> same_range (st' b) (st b)" "base (st' i) = place (st c)" "range_size (st' i) = range_size (st i)"
  shows "range_list before h st' (xs @ c # i # ys)"
proof -
  have d: "distinct (xs @ c # ys)" "dll (\<lambda>a. range_next (st a)) (\<lambda>a. range_prev (st a)) 0 h (xs @ c # ys)"
    and so: "sorted_wrt before (map st xs @ st c # map st ys)"
    using l by (simp_all add: range_list_def)
  have z: "0 \<notin> set (xs @ c # ys)" by (rule dll_zero_notin [OF d(2)])
  have "dll (\<lambda>a. range_next (st' a)) (\<lambda>a. range_prev (st' a)) 0 h (xs @ c # i # ys)"
    by (rule dll_insert [OF d(2,1) i z]) (use st' in auto)
  moreover have "sorted_wrt before (map st' (xs @ c # i # ys))"
  proof -
    let ?n = "(st i)\<lparr>base := place (st c)\<rparr>"
    have "before (st c) ?n" by (rule append_before [OF r])
    moreover have "before ?n (hd (map st ys))" if "map st ys \<noteq> []"
      using fits_before [OF r f] that by (simp add: hd_map)
    ultimately have "sorted_wrt before (map st xs @ st c # ?n # map st ys)" by (rule sorted_insert [OF so])
    then have "sorted_wrt before (map (st(i := ?n)) (xs @ c # i # ys))"
      using i(1) by auto
    then show ?thesis
      by (rule sorted_cong [THEN iffD2, rotated]) (use st'(3-5) in \<open>simp add: same_range_def\<close>)
  qed
  ultimately show ?thesis using d(1) i(1) by (auto simp: range_list_def)
qed

lemma walk_ok:
  assumes l: "range_list before h st (xs @ c # ys)" and i: "i \<notin> set (xs @ c # ys)" "i \<noteq> 0"
    and r: "\<And>a. a \<in> set (xs @ c # ys) \<Longrightarrow> room (st a) (st i)"
  shows "\<exists>st' us a vs. range_walk fits place i c (range_next (st c)) st = Some st' \<and> xs @ c # ys = us @ a # vs \<and>
    range_list before h st' (us @ a # i # vs) \<and> (\<forall>b. b \<noteq> i \<longrightarrow> same_range (st' b) (st b)) \<and>
    base (st' i) = place (st a) \<and> range_size (st' i) = range_size (st i) \<and>
    (vs \<noteq> [] \<longrightarrow> fits (st a) (st i) (st (hd vs)))"
  using assms
proof (induction ys arbitrary: xs c)
  case Nil
  have d: "dll (\<lambda>a. range_next (st a)) (\<lambda>a. range_prev (st a)) 0 h (xs @ [c])" using Nil.prems(1) by (simp add: range_list_def)
  have n: "range_next (st c) = 0" using dll_next [OF d] by simp
  have "c \<noteq> i" using Nil.prems(2) by auto
  let ?st' = "set_range_next (set_range_next (set_range_prev (set_base st i (place (st c))) i c) i 0) c i"
  have "range_list before h ?st' (xs @ [c, i])"
  proof (rule insert_here [OF Nil.prems(1-3)])
    show "range_prev (?st' b) = (if b = i then c else if b = range_next (st c) then i else range_prev (st b))"
      if "b \<in> set (xs @ c # i # [])" for b
      using that dll_zero_notin [OF d] n Nil.prems(3) \<open>c \<noteq> i\<close>
      by (auto simp: set_range_next_def set_range_prev_def set_base_def)
  qed (use Nil.prems n \<open>c \<noteq> i\<close> in \<open>auto simp: set_range_next_def set_range_prev_def set_base_def same_range_def\<close>)
  then show ?case
    using n \<open>c \<noteq> i\<close> by (intro exI [of _ ?st'] exI [of _ xs] exI [of _ c] exI [of _ "[]"])
      (simp add: range_walk.simps Let_def, simp add: set_range_next_def set_range_prev_def set_base_def same_range_def)
next
  case (Cons y ys)
  have d: "dll (\<lambda>a. range_next (st a)) (\<lambda>a. range_prev (st a)) 0 h (xs @ c # y # ys)" "distinct (xs @ c # y # ys)"
    using Cons.prems(1) by (simp_all add: range_list_def)
  have n: "range_next (st c) = y" using dll_next [OF d(1)] by simp
  have y: "y \<noteq> 0" using dll_zero_notin [OF d(1)] by auto
  have ne: "c \<noteq> i" "y \<noteq> i" "c \<noteq> y" using Cons.prems(2) d(2) by auto
  show ?case
  proof (cases "fits (st c) (st i) (st y)")
    case True
    let ?st' = "set_range_prev (set_range_next (set_range_prev (set_range_next (set_base st i (place (st c))) i y) i c) c i) y i"
    have "range_list before h ?st' (xs @ c # i # y # ys)"
      by (rule insert_here [OF Cons.prems(1-3)])
        (use Cons.prems True n ne in \<open>auto simp: set_range_next_def set_range_prev_def set_base_def same_range_def\<close>)
    moreover have "range_walk fits place i c (range_next (st c)) st = Some ?st'"
      using True n y by (simp add: range_walk.simps Let_def)
    ultimately show ?thesis
      using ne True by (intro exI [of _ ?st'] exI [of _ xs] exI [of _ c] exI [of _ "y # ys"])
        (simp, simp add: set_range_next_def set_range_prev_def set_base_def same_range_def)
  next
    case False
    then have "range_walk fits place i c (range_next (st c)) st = range_walk fits place i y (range_next (st y)) st"
      using n y by (simp add: range_walk.simps [of fits place i c])
    with Cons.IH [of "xs @ [c]" y] Cons.prems show ?thesis by simp
  qed
qed

lemma add_ok:
  assumes l: "range_list before h st xs" and i: "i \<notin> set xs" "i \<noteq> 0"
    and r: "\<And>a. a \<in> set xs \<Longrightarrow> room (st a) (st i)"
  shows "\<exists>h' st' us vs. range_add fits place first i h st = Some (h', st') \<and> xs = us @ vs \<and> (us = [] \<longrightarrow> xs = []) \<and>
    range_list before h' st' (us @ i # vs) \<and> (\<forall>b. b \<noteq> i \<longrightarrow> same_range (st' b) (st b)) \<and>
    base (st' i) = (if us = [] then first else place (st (last us))) \<and> range_size (st' i) = range_size (st i)"
proof (cases xs)
  case Nil
  then have "h = 0" using l by (simp add: range_list_def)
  with Nil i show ?thesis
    by (auto simp: range_add_def Let_def range_list_def set_base_def set_range_next_def set_range_prev_def same_range_def)
next
  case (Cons x ys)
  then have h: "h = x" "x \<noteq> 0" using l by (auto simp: range_list_def)
  have "\<exists>st' us a vs. range_walk fits place i x (range_next (st x)) st = Some st' \<and> [] @ x # ys = us @ a # vs \<and>
    range_list before h st' (us @ a # i # vs) \<and> (\<forall>b. b \<noteq> i \<longrightarrow> same_range (st' b) (st b)) \<and>
    base (st' i) = place (st a) \<and> range_size (st' i) = range_size (st i) \<and>
    (vs \<noteq> [] \<longrightarrow> fits (st a) (st i) (st (hd vs)))"
    by (rule walk_ok) (use assms Cons in auto)
  then obtain st' us a vs where w: "range_walk fits place i x (range_next (st x)) st = Some st'" "x # ys = us @ a # vs"
    "range_list before h st' (us @ a # i # vs)" "\<forall>b. b \<noteq> i \<longrightarrow> same_range (st' b) (st b)"
    "base (st' i) = place (st a)" "range_size (st' i) = range_size (st i)"
    by auto
  then have "range_add fits place first i h st = Some (h, st')" using h by (simp add: range_add_def)
  with w Cons show ?thesis
    by (intro exI [of _ h] exI [of _ st'] exI [of _ "us @ [a]"] exI [of _ vs]) simp
qed

end

lemma range_remove_list:
  assumes l: "range_list before h st (xs @ i # ys)"
  shows "\<exists>h' st'. range_remove i h st = (h', st') \<and> dll (\<lambda>a. range_next (st' a)) (\<lambda>a. range_prev (st' a)) 0 h' (xs @ ys) \<and>
    (\<forall>b. same_range (st' b) (st b)) \<and> range_next (st' i) = 0 \<and> range_prev (st' i) = 0"
proof -
  have d: "dll (\<lambda>a. range_next (st a)) (\<lambda>a. range_prev (st a)) 0 h (xs @ i # ys)" "distinct (xs @ i # ys)"
    using l by (simp_all add: range_list_def)
  have z: "0 \<notin> set (xs @ i # ys)" by (rule dll_zero_notin [OF d(1)])
  then have i: "i \<noteq> 0" by auto
  define st1 where "st1 = (if range_next (st i) \<noteq> 0 then set_range_prev st (range_next (st i)) (range_prev (st i)) else st)"
  define st2 where "st2 = (if range_prev (st1 i) \<noteq> 0 then set_range_next st1 (range_prev (st1 i)) (range_next (st1 i)) else st1)"
  have "\<And>b. b \<in> set (xs @ i # ys) \<Longrightarrow> b \<noteq> 0" using z by metis
  note un = rng.unlink_next_first [OF d this st1_def st2_def]
  let ?st3 = "set_range_prev (set_range_next st2 i 0) i 0"
  have hd_eq: "(if range_prev (st i) \<noteq> 0 then h else range_next (st i)) = (if h = i then range_next (st i) else h)"
  proof -
    have "range_prev (st i) = 0 \<longleftrightarrow> xs = []" by (rule dll_prev_null [OF d(1)])
    moreover have "h = i \<longleftrightarrow> xs = []" using d by (cases xs) auto
    ultimately show ?thesis by simp
  qed
  have "range_remove i h st = (if h = i then range_next (st i) else h, ?st3)"
    using i unfolding range_remove_def st2_def st1_def by (simp only: Let_def if_False)
  moreover have "dll (\<lambda>a. range_next (?st3 a)) (\<lambda>a. range_prev (?st3 a)) 0 (if h = i then range_next (st i) else h) (xs @ ys)"
    using un(1) d(2) unfolding hd_eq
    by (subst dll_cong [where nx' = "\<lambda>a. range_next (st2 a)" and pv' = "\<lambda>a. range_prev (st2 a)"])
      (auto simp: set_range_next_def set_range_prev_def)
  moreover have "same_range (?st3 b) (st b)" for b
    by (auto simp: st2_def st1_def same_range_def set_range_next_def set_range_prev_def)
  ultimately show ?thesis by (auto simp: set_range_next_def set_range_prev_def)
qed

context ranges
begin

lemma remove_ok:
  assumes l: "range_list before h st (xs @ i # ys)"
  shows "\<exists>h' st'. range_remove i h st = (h', st') \<and> range_list before h' st' (xs @ ys) \<and> (\<forall>b. same_range (st' b) (st b))"
proof -
  from range_remove_list [OF l] obtain h' st' where r: "range_remove i h st = (h', st')"
    "dll (\<lambda>a. range_next (st' a)) (\<lambda>a. range_prev (st' a)) 0 h' (xs @ ys)" "\<forall>b. same_range (st' b) (st b)"
    by blast
  have "sorted_wrt before (map st (xs @ ys))" using l by (auto simp: range_list_def sorted_wrt_append)
  then have "sorted_wrt before (map st' (xs @ ys))"
    by (rule sorted_cong [THEN iffD2, rotated]) (use r(3) in blast)
  moreover have "distinct (xs @ ys)" using l by (auto simp: range_list_def)
  ultimately have "range_list before h' st' (xs @ ys)" using r(2) unfolding range_list_def by blast
  with r(1,3) show ?thesis by blast
qed

end

lemma range_find_ok:
  assumes "dll (\<lambda>a. range_next (st a)) (\<lambda>a. range_prev (st a)) p h xs"
  shows "range_find ptr h st = Some (case find (\<lambda>a. base (st a) = ptr) xs of Some a \<Rightarrow> a | None \<Rightarrow> 0)"
  using assms
proof (induction xs arbitrary: p h)
  case (Cons a xs)
  then show ?case by (subst range_find.simps) auto
qed (simp add: range_find.simps)

end
