(* ===== verification/Vmalloc.thy ===== *)
theory Vmalloc
  imports Kmalloc Ranges
begin

text \<open>
  Kernel virtual memory, \<^verbatim>\<open>mm/vmalloc.c\<close>: a list of address ranges, first fit behind the first one,
  and the mapping of fresh frames page by page. The lemmas show that the ranges never overlap and
  where the pages do.
\<close>

section \<open>State and operations\<close>

abbreviation VMALLOC_START :: u64 where "VMALLOC_START \<equiv> 0xFFFFC00000000000"
abbreviation SIZEOF_VM_INFO :: u64 where "SIZEOF_VM_INFO \<equiv> 32"

record vmstate = kmstate +
  vm_infos :: range_store
  vmalloc_list_head :: u64

definition vm_fits :: "range_info \<Rightarrow> range_info \<Rightarrow> range_info \<Rightarrow> bool" where
  "vm_fits current i nxt \<longleftrightarrow> base current + range_size current + range_size i \<le> base nxt"

definition vm_place :: "range_info \<Rightarrow> u64" where
  "vm_place current = base current + range_size current"

definition vm_add_to_list :: "u64 \<Rightarrow> 'a vmstate_scheme \<Rightarrow> 'a vmstate_scheme option" where
  "vm_add_to_list i s = do {
     (h, st) \<leftarrow> range_add vm_fits vm_place VMALLOC_START i (vmalloc_list_head s) (vm_infos s);
     Some (s\<lparr>vmalloc_list_head := h, vm_infos := st\<rparr>)
   }"

definition vm_remove_from_list :: "u64 \<Rightarrow> 'a vmstate_scheme \<Rightarrow> 'a vmstate_scheme" where
  "vm_remove_from_list i s =
     (let (h, st) = range_remove i (vmalloc_list_head s) (vm_infos s)
      in s\<lparr>vmalloc_list_head := h, vm_infos := st\<rparr>)"

text \<open>The counters of the two page loops are \<^verbatim>\<open>int\<close>, compared with a \<^verbatim>\<open>size_t\<close> after sign extension.\<close>

partial_function (option) vmalloc_map :: "u64 \<Rightarrow> u64 \<Rightarrow> u32 \<Rightarrow> 'a pmm_scheme \<Rightarrow> 'a pmm_scheme option" where
  "vmalloc_map va sz j s =
     (if u64_of_int32 j < sz then do {
        (paddr, s1) \<leftarrow> pmm_alloc_page s;
        s2 \<leftarrow> vmm_map_page (read_cr3 s1) paddr (va + u64_of_int32 j) PAGE_SIZE_4KB PTE_WRITABLE s1;
        vmalloc_map va sz (j + 0x1000) s2
      }
      else Some s)"

definition vmalloc :: "u64 \<Rightarrow> 'a vmstate_scheme \<Rightarrow> (u64 \<times> 'a vmstate_scheme) option" where
  "vmalloc sz s =
     (if sz = 0 then Some (0, s)
      else do {
        (i, s1) \<leftarrow> kmalloc SIZEOF_VM_INFO s;
        if i = 0 then Some (0, s1)
        else do {
          s2 \<leftarrow> vm_add_to_list i (s1\<lparr>vm_infos := set_range_size (vm_infos s1) i sz\<rparr>);
          s3 \<leftarrow> vmalloc_map (base (vm_infos s2 i)) sz 0 s2;
          Some (base (vm_infos s2 i), s3)
        }
      })"

partial_function (option) vfree_unmap :: "u64 \<Rightarrow> u64 \<Rightarrow> u32 \<Rightarrow> 'a pmm_scheme \<Rightarrow> 'a pmm_scheme option" where
  "vfree_unmap va sz i s =
     (if u64_of_int32 i < sz then
        let (paddr, s1) = vmm_unmap_page (read_cr3 s) (va + u64_of_int32 i) s
        in vfree_unmap va sz (i + 0x1000) (pmm_free_page paddr s1)
      else Some s)"

definition vfree :: "u64 \<Rightarrow> 'a vmstate_scheme \<Rightarrow> 'a vmstate_scheme option" where
  "vfree ptr s =
     (if vmalloc_list_head s = 0 then Some s
      else do {
        current \<leftarrow> range_find ptr (vmalloc_list_head s) (vm_infos s);
        if current = 0 then Some s
        else do {
          s1 \<leftarrow> vfree_unmap (base (vm_infos s current)) (range_size (vm_infos s current)) 0 s;
          Some (vm_remove_from_list current s1)
        }
      })"

section \<open>The ranges\<close>

definition vm_before :: "range_info \<Rightarrow> range_info \<Rightarrow> bool" where
  "vm_before a b \<longleftrightarrow> unat (base a) + unat (range_size a) \<le> unat (base b)"

definition vm_room :: "range_info \<Rightarrow> range_info \<Rightarrow> bool" where
  "vm_room c n \<longleftrightarrow> unat (base c) + unat (range_size c) + unat (range_size n) < 2 ^ 64"

lemma unat_add3: "unat a + unat b + unat c < 2 ^ 64 \<Longrightarrow> unat (a + b + c) = unat a + unat b + unat c" for a b c :: u64
  by (simp add: unat_word_ariths)

interpretation vmr: ranges vm_fits vm_place vm_before vm_room
proof
  show "vm_before a b \<Longrightarrow> vm_before b c \<Longrightarrow> vm_before a c" for a b c by (simp add: vm_before_def)
  show "vm_room c n \<Longrightarrow> vm_before c (n\<lparr>base := vm_place c\<rparr>)" for c n
    using unat_add3 [of "base c" "range_size c" 0] by (simp add: vm_room_def vm_before_def vm_place_def)
  show "vm_before (n\<lparr>base := vm_place c\<rparr>) x" if r: "vm_room c n" and f: "vm_fits c n x" for c n x
    using f unat_add3 [of "base c" "range_size c" 0] unat_add3 [of "base c" "range_size c" "range_size n"] r
    by (simp add: vm_room_def vm_before_def vm_place_def vm_fits_def word_le_nat_alt)
qed (simp_all add: same_range_def vm_before_def)

section \<open>The pages\<close>

text \<open>Address \<^verbatim>\<open>j\<close> pages behind \<^verbatim>\<open>va\<close>, and addresses that no page of the range covers.\<close>

definition page_at :: "u64 \<Rightarrow> nat \<Rightarrow> u64" where
  "page_at va j = va + of_nat (j * 4096)"

lemma vmm_path_bits: "vmm_path v = vmm_path w \<longleftrightarrow> (\<forall>n. 12 \<le> n \<and> n < 48 \<longrightarrow> bit v n = bit w n)"
proof
  assume "vmm_path v = vmm_path w"
  then have *: "vmm_index 39 v = vmm_index 39 w" "vmm_index 30 v = vmm_index 30 w" "vmm_index 21 v = vmm_index 21 w"
    "vmm_index 12 v = vmm_index 12 w"
    by (simp_all add: vmm_path_def)
  show "\<forall>n. 12 \<le> n \<and> n < 48 \<longrightarrow> bit v n = bit w n"
  proof (intro allI impI)
    fix n :: nat assume "12 \<le> n \<and> n < 48"
    then consider "n = 39 + (n - 39)" "n - 39 < 9" | "n = 30 + (n - 30)" "n - 30 < 9"
      | "n = 21 + (n - 21)" "n - 21 < 9" | "n = 12 + (n - 12)" "n - 12 < 9"
      by linarith
    then show "bit v n = bit w n" using * unfolding vmm_index_bits by cases metis+
  qed
next
  assume "\<forall>n. 12 \<le> n \<and> n < 48 \<longrightarrow> bit v n = bit w n"
  then show "vmm_path v = vmm_path w" by (simp add: vmm_path_def vmm_index_bits)
qed


lemma take_bit_plus: "m \<le> 64 \<Longrightarrow> unat (take_bit m (va + of_nat k :: u64)) = (unat va + k) mod 2 ^ m"
proof -
  assume "m \<le> 64"
  then have d: "(2 :: nat) ^ m dvd 2 ^ 64" by (rule le_imp_power_dvd)
  have "unat (take_bit m (va + of_nat k)) = unat (va + of_nat k) mod 2 ^ m"
    by (simp add: unsigned_take_bit_eq take_bit_nat_def)
  also have "unat (va + of_nat k) = (unat va + k) mod 2 ^ 64"
    by (simp add: unat_word_ariths unat_of_nat mod_add_right_eq)
  also have "(unat va + k) mod 2 ^ 64 mod 2 ^ m = (unat va + k) mod 2 ^ m" by (rule mod_mod_cancel [OF d])
  finally show ?thesis .
qed

lemma page_at_path:
  assumes "i < 2 ^ 36" "j < 2 ^ 36" "vmm_path (page_at va i) = vmm_path (page_at va j)"
  shows "i = j"
proof -
  let ?v = "page_at va i" and ?w = "page_at va j"
  have "unat (take_bit 12 ?v) = unat (take_bit 12 ?w)" unfolding page_at_def by (simp only: take_bit_plus) simp
  then have low: "take_bit 12 ?v = take_bit 12 ?w" by (simp only: word_unat_eq_iff)
  have "take_bit 48 ?v = take_bit 48 ?w"
  proof (rule bit_word_eqI)
    fix n
    show "bit (take_bit 48 ?v) n = bit (take_bit 48 ?w) n"
    proof (cases "n < 12")
      case True
      then show ?thesis using arg_cong [OF low, of "\<lambda>x. bit x n"] by (simp add: bit_simps)
    next
      case False
      then show ?thesis using assms(3) unfolding vmm_path_bits by (auto simp: bit_simps)
    qed
  qed
  then have "(unat va + i * 4096) mod 2 ^ 48 = (unat va + j * 4096) mod 2 ^ 48"
    using take_bit_plus [of 48 va "i * 4096"] take_bit_plus [of 48 va "j * 4096"] unfolding page_at_def by simp
  then obtain p q where "(unat va + i * 4096) + 2 ^ 48 * p = (unat va + j * 4096) + 2 ^ 48 * q"
    using nat_mod_eq_iff [THEN iffD1] by blast
  then have "i * 4096 + 2 ^ 48 * p = j * 4096 + 2 ^ 48 * q" by simp
  then have "i + 2 ^ 36 * p = j + 2 ^ 36 * q" by simp
  then have "(i + 2 ^ 36 * p) mod 2 ^ 36 = (j + 2 ^ 36 * q) mod 2 ^ 36" by simp
  then show ?thesis using assms(1,2) by (simp only: mod_mult_self2 mod_less)
qed


text \<open>Only the bitmap, physical memory and the TLB log change.\<close>

definition vm_only :: "'a pmm_scheme \<Rightarrow> 'a pmm_scheme \<Rightarrow> bool" where
  "vm_only s s' \<longleftrightarrow> s' = s\<lparr>bitmap := bitmap s', pmem := pmem s', tlb_invalidated := tlb_invalidated s'\<rparr>"

lemma vm_only_refl [simp]: "vm_only s s"
  by (simp add: vm_only_def)

lemma vm_only_trans: "vm_only s t \<Longrightarrow> vm_only t u \<Longrightarrow> vm_only s u"
  by (cases s; cases t; cases u) (simp add: vm_only_def)

lemma vm_only_step: "pt_step root s t \<Longrightarrow> vm_only s (invalidate v t)"
  by (cases s; cases t) (simp add: vm_only_def pt_step_def invalidate_def)

lemma vm_only_bitmap: "vm_only s (s\<lparr>bitmap := b\<rparr>)"
  by (simp add: vm_only_def)

lemma vm_only_cr3: "vm_only s s' \<Longrightarrow> cpu_cr3 s' = cpu_cr3 s"
  by (cases s; cases s') (simp add: vm_only_def)

lemma pt_inv_bitmap: "pt_inv s root \<Longrightarrow> (\<And>b. frame_used s b \<Longrightarrow> frame_used (s\<lparr>bitmap := bm\<rparr>) b) \<Longrightarrow> pt_inv (s\<lparr>bitmap := bm\<rparr>) root"
  unfolding pt_inv_def by simp

lemma frames_left_invalidate [simp]: "frames_left (invalidate v s) n = frames_left (s :: 'a pmm_scheme) n"
  by (simp add: frames_left_def invalidate_def pmm_ok_def free_frames_def)

lemma pt_step_used: "pt_step root s s' \<Longrightarrow> frame_used s b \<Longrightarrow> frame_used s' b"
  by (simp add: pt_step_def)

text \<open>Each page gets a frame of its own that was free; addresses of other pages keep their translation.\<close>

definition fresh_pages :: "u64 \<Rightarrow> nat \<Rightarrow> nat \<Rightarrow> u64 \<Rightarrow> 'a pmm_scheme \<Rightarrow> 'a pmm_scheme \<Rightarrow> (nat \<Rightarrow> u64) \<Rightarrow> bool" where
  "fresh_pages va j m fl s s' F \<longleftrightarrow> inj_on F {j..<j + m} \<and>
     (\<forall>i. j \<le> i \<longrightarrow> i < j + m \<longrightarrow> \<not> frame_used s (F i) \<and> frame_used s' (F i) \<and> page_aligned (F i) \<and>
        vmm_walk s' (cpu_cr3 s) (page_at va i) = Some (F i OR (PTE_PRESENT OR fl), 0)) \<and>
     (\<forall>w. (\<forall>i. j \<le> i \<longrightarrow> i < j + m \<longrightarrow> vmm_path w \<noteq> vmm_path (page_at va i)) \<longrightarrow>
        vmm_walk s' (cpu_cr3 s) w = vmm_walk s (cpu_cr3 s) w)"

lemma map_fresh_page:
  assumes inv: "pt_inv s root" and left: "frames_left s (Suc (Suc (Suc (Suc k))))"
    and small: "\<And>e l. vmm_walk s root v = Some (e, l) \<Longrightarrow> l = 0"
  shows "\<exists>f s1 s2. pmm_alloc_page s = Some (f, s1) \<and> cpu_cr3 s1 = cpu_cr3 s \<and> vmm_map_page root f v PAGE_SIZE_4KB fl s1 = Some s2 \<and>
    page_aligned f \<and> \<not> frame_used s f \<and> frame_used s2 f \<and> pt_inv s2 root \<and> vm_only s s2 \<and> frames_left s2 k \<and>
    (\<forall>b. frame_used s b \<longrightarrow> frame_used s2 b) \<and> vmm_walk s2 root v = Some (f OR (PTE_PRESENT OR fl), 0) \<and>
    (\<forall>w. vmm_path w \<noteq> vmm_path v \<longrightarrow> vmm_walk s2 root w = vmm_walk s root w)"
proof -
  obtain f bm where f: "pmm_alloc_page s = Some (f, s\<lparr>bitmap := bm\<rparr>)" "page_aligned f" "\<not> frame_used s f"
    "frames_left (s\<lparr>bitmap := bm\<rparr>) (Suc (Suc (Suc k)))" "\<And>b. frame_used (s\<lparr>bitmap := bm\<rparr>) b \<longleftrightarrow> b = f \<or> frame_used s b"
    using pmm_alloc_left [OF left] by blast
  let ?s1 = "s\<lparr>bitmap := bm\<rparr>"
  have inv1: "pt_inv ?s1 root" by (rule pt_inv_bitmap [OF inv]) (simp add: f(5))
  have w1: "vmm_walk ?s1 root w = vmm_walk s root w" for w by (simp add: vmm_walk_def)
  obtain s2 where s2: "vmm_map_page root f v PAGE_SIZE_4KB fl ?s1 = Some (invalidate v s2)" "pt_inv s2 root" "pt_step root ?s1 s2"
    "frames_left s2 k" "vmm_walk s2 root v = Some (f OR (PTE_PRESENT OR fl), 0)"
    "\<forall>w. vmm_path w \<noteq> vmm_path v \<longrightarrow> vmm_walk s2 root w = vmm_walk ?s1 root w"
    using vmm_map_4k [OF inv1 f(4), of v f fl] small unfolding w1 by blast
  have "frame_used ?s1 f" "\<And>b. frame_used s b \<Longrightarrow> frame_used ?s1 b" by (simp_all add: f(5))
  then have u: "frame_used s2 f" "\<And>b. frame_used s b \<Longrightarrow> frame_used s2 b" using pt_step_used [OF s2(3)] by blast+
  have vo: "vm_only s (invalidate v s2)" by (rule vm_only_trans [OF vm_only_bitmap vm_only_step [OF s2(3)]])
  show ?thesis
    by (rule exI [of _ f], rule exI [of _ ?s1], rule exI [of _ "invalidate v s2"])
      (use f(1-3) s2 u vo w1 in simp)
qed

lemma unat_off: "k < 2 ^ 31 \<Longrightarrow> unat (of_nat k :: u64) = k"
  by (simp only: unat_of_nat) simp

lemma vmalloc_map_ok:
  assumes "pt_inv s (cpu_cr3 s)" "frames_left s (4 * m + k)" "(j + m) * 4096 < 2 ^ 31"
    and "\<And>i. j \<le> i \<Longrightarrow> i < j + m \<Longrightarrow> i * 4096 < unat sz" "unat sz \<le> (j + m) * 4096"
    and "\<And>i e l. j \<le> i \<Longrightarrow> i < j + m \<Longrightarrow> vmm_walk s (cpu_cr3 s) (page_at va i) = Some (e, l) \<Longrightarrow> l = 0"
  shows "\<exists>s' F. vmalloc_map va sz (of_nat (j * 4096)) s = Some s' \<and> pt_inv s' (cpu_cr3 s) \<and> vm_only s s' \<and> frames_left s' k \<and>
    (\<forall>b. frame_used s b \<longrightarrow> frame_used s' b) \<and> fresh_pages va j m PTE_WRITABLE s s' F"
  using assms
proof (induction m arbitrary: j s)
  case 0
  have j: "u64_of_int32 (of_nat (j * 4096)) = of_nat (j * 4096)" using 0 by (intro u64_of_int32_nat) simp
  have "unat (of_nat (j * 4096) :: u64) = j * 4096" using 0 by (intro unat_off) simp
  then have "\<not> (of_nat (j * 4096) :: u64) < sz" using 0 by (simp add: word_less_nat_alt)
  then have "vmalloc_map va sz (of_nat (j * 4096)) s = Some s" by (subst vmalloc_map.simps) (simp only: j if_False)
  with 0 show ?case by (intro exI [of _ s]) (simp add: fresh_pages_def)
next
  case (Suc m)
  let ?r = "cpu_cr3 s" and ?v = "page_at va j"
  have j: "u64_of_int32 (of_nat (j * 4096)) = of_nat (j * 4096)" using Suc.prems(3) by (intro u64_of_int32_nat) simp
  have "unat (of_nat (j * 4096) :: u64) = j * 4096" using Suc.prems(3) by (intro unat_off) simp
  then have lt: "(of_nat (j * 4096) :: u64) < sz" using Suc.prems(4) [of j] by (simp add: word_less_nat_alt)
  have "4 * Suc m + k = Suc (Suc (Suc (Suc (4 * m + k))))" by simp
  with Suc.prems(2) have left: "frames_left s (Suc (Suc (Suc (Suc (4 * m + k)))))" by (simp only:)
  obtain f s1 s2 where f: "pmm_alloc_page s = Some (f, s1)" "cpu_cr3 s1 = ?r" "vmm_map_page ?r f ?v PAGE_SIZE_4KB PTE_WRITABLE s1 = Some s2"
    "page_aligned f" "\<not> frame_used s f" "frame_used s2 f" "pt_inv s2 ?r" "vm_only s s2" "frames_left s2 (4 * m + k)"
    "\<forall>b. frame_used s b \<longrightarrow> frame_used s2 b" "vmm_walk s2 ?r ?v = Some (f OR (PTE_PRESENT OR PTE_WRITABLE), 0)"
    "\<forall>w. vmm_path w \<noteq> vmm_path ?v \<longrightarrow> vmm_walk s2 ?r w = vmm_walk s ?r w"
    using map_fresh_page [OF Suc.prems(1) left, of ?v PTE_WRITABLE] Suc.prems(6) [of j] by auto
  note r2 = vm_only_cr3 [OF f(8)]
  have apart: "vmm_path (page_at va i) \<noteq> vmm_path (page_at va i')" if "i \<noteq> i'" "i \<le> j + m" "i' \<le> j + m" for i i'
    using page_at_path [of i i' va] that Suc.prems(3) by auto
  have "vmm_walk s2 (cpu_cr3 s2) (page_at va i) = Some (e, l) \<Longrightarrow> l = 0" if "Suc j \<le> i" "i < Suc j + m" for i e l
  proof -
    have "vmm_walk s2 ?r (page_at va i) = vmm_walk s ?r (page_at va i)" using f(12) apart [of i j] that by simp
    then show "vmm_walk s2 (cpu_cr3 s2) (page_at va i) = Some (e, l) \<Longrightarrow> l = 0" using Suc.prems(6) [of i e l] that r2 by simp
  qed
  then obtain s' F where r: "vmalloc_map va sz (of_nat (Suc j * 4096)) s2 = Some s'" "pt_inv s' ?r" "vm_only s2 s'" "frames_left s' k"
    "\<forall>b. frame_used s2 b \<longrightarrow> frame_used s' b" "fresh_pages va (Suc j) m PTE_WRITABLE s2 s' F"
    using Suc.IH [of s2 "Suc j"] Suc.prems f(7,9) r2 by auto
  have step: "vmalloc_map va sz (of_nat (j * 4096)) s = Some s'"
  proof -
    have "(of_nat (j * 4096) + 0x1000 :: u32) = of_nat (Suc j * 4096)" by simp
    then show ?thesis
      using f(1,2,3) r(1) lt unfolding page_at_def
      by (subst vmalloc_map.simps) (simp add: j read_cr3_def add.commute del: of_nat_mult of_nat_Suc)
  qed
  have "fresh_pages va j (Suc m) PTE_WRITABLE s s' (F(j := f))"
    unfolding fresh_pages_def
  proof (intro conjI allI impI)
    have fr: "\<not> frame_used s2 (F i) \<and> frame_used s' (F i) \<and> page_aligned (F i) \<and>
        vmm_walk s' ?r (page_at va i) = Some (F i OR (PTE_PRESENT OR PTE_WRITABLE), 0)" if "Suc j \<le> i" "i < Suc j + m" for i
      using r(6) that r2 unfolding fresh_pages_def by simp
    have other: "vmm_walk s' ?r w = vmm_walk s2 ?r w" if "\<forall>i. Suc j \<le> i \<longrightarrow> i < Suc j + m \<longrightarrow> vmm_path w \<noteq> vmm_path (page_at va i)" for w
      using r(6) that r2 unfolding fresh_pages_def by simp
    have "inj_on F {Suc j..<Suc j + m}" using r(6) by (simp add: fresh_pages_def)
    moreover have "f \<notin> F ` {Suc j..<Suc j + m}" using fr f(6) by auto
    moreover have "{j..<j + Suc m} = insert j {Suc j..<Suc j + m}" by auto
    ultimately show "inj_on (F(j := f)) {j..<j + Suc m}" by (auto simp: inj_on_def)
    fix i assume i: "j \<le> i" "i < j + Suc m"
    have "vmm_walk s' ?r ?v = vmm_walk s2 ?r ?v" by (rule other) (use apart [of j] in auto)
    then show "\<not> frame_used s ((F(j := f)) i)" "frame_used s' ((F(j := f)) i)" "page_aligned ((F(j := f)) i)"
      "vmm_walk s' (cpu_cr3 s) (page_at va i) = Some ((F(j := f)) i OR (PTE_PRESENT OR PTE_WRITABLE), 0)"
      using f(4-6,10,11) fr [of i] r(5) i by (cases "i = j"; auto)+
  next
    fix w assume w: "\<forall>i. j \<le> i \<longrightarrow> i < j + Suc m \<longrightarrow> vmm_path w \<noteq> vmm_path (page_at va i)"
    have "vmm_walk s' ?r w = vmm_walk s2 ?r w"
      using r(6) w r2 unfolding fresh_pages_def by auto
    also have "\<dots> = vmm_walk s ?r w" using f(12) w by auto
    finally show "vmm_walk s' (cpu_cr3 s) w = vmm_walk s (cpu_cr3 s) w" .
  qed
  with step r(2,4) vm_only_trans [OF f(8) r(3)] f(10) r(5) show ?case by blast
qed

section \<open>Properties\<close>

text \<open>The addresses of a range.\<close>

definition span :: "range_info \<Rightarrow> nat set" where
  "span r = {unat (base r) ..< unat (base r) + unat (range_size r)}"

definition vm_list :: "'a vmstate_scheme \<Rightarrow> u64 list \<Rightarrow> bool" where
  "vm_list s xs \<longleftrightarrow> range_list vm_before (vmalloc_list_head s) (vm_infos s) xs"

lemma vm_before_disjoint: "vm_before a b \<Longrightarrow> span a \<inter> span b = {}"
  by (auto simp: vm_before_def span_def)

lemma span_cong: "same_range a b \<Longrightarrow> span a = span b"
  by (simp add: same_range_def span_def)

lemma vm_list_disjoint:
  assumes "vm_list s (us @ i # vs)" "a \<in> set (us @ vs)"
  shows "span (vm_infos s i) \<inter> span (vm_infos s a) = {}"
proof -
  have "sorted_wrt vm_before (map (vm_infos s) (us @ i # vs))" using assms(1) by (simp add: vm_list_def range_list_def)
  with assms(2) have "vm_before (vm_infos s i) (vm_infos s a) \<or> vm_before (vm_infos s a) (vm_infos s i)"
    by (auto simp: sorted_wrt_append)
  then show ?thesis using vm_before_disjoint by blast
qed

lemma vm_add_ok:
  assumes l: "vm_list s xs" and i: "i \<notin> set xs" "i \<noteq> 0" and r: "\<forall>a \<in> set xs. vm_room (vm_infos s a) (vm_infos s i)"
  shows "\<exists>h st us vs. vm_add_to_list i s = Some (s\<lparr>vmalloc_list_head := h, vm_infos := st\<rparr>) \<and> xs = us @ vs \<and>
    (us = [] \<longrightarrow> xs = []) \<and> range_list vm_before h st (us @ i # vs) \<and> (\<forall>b. b \<noteq> i \<longrightarrow> same_range (st b) (vm_infos s b)) \<and>
    base (st i) = (if us = [] then VMALLOC_START else vm_place (vm_infos s (last us))) \<and> range_size (st i) = range_size (vm_infos s i)"
proof -
  obtain h st us vs where a: "range_add vm_fits vm_place VMALLOC_START i (vmalloc_list_head s) (vm_infos s) = Some (h, st)"
    "xs = us @ vs" "us = [] \<longrightarrow> xs = []" "range_list vm_before h st (us @ i # vs)"
    "\<forall>b. b \<noteq> i \<longrightarrow> same_range (st b) (vm_infos s b)"
    "base (st i) = (if us = [] then VMALLOC_START else vm_place (vm_infos s (last us)))" "range_size (st i) = range_size (vm_infos s i)"
    using vmr.add_ok [OF l [unfolded vm_list_def] i, of VMALLOC_START] r by auto
  then have "vm_add_to_list i s = Some (s\<lparr>vmalloc_list_head := h, vm_infos := st\<rparr>)" by (simp add: vm_add_to_list_def)
  with a(2-7) show ?thesis by blast
qed

text \<open>
  C35: \<^verbatim>\<open>vm_add_to_list\<close> returns, links the new node into the list, and gives it a range of the requested
  size that overlaps no other; the other ranges stay what they are, in order. The sums of address and
  size must not wrap, which holds for anything that fits between \<^verbatim>\<open>VMALLOC_START\<close> and the heap.
\<close>

theorem vm_add_disjoint:
  assumes "vm_list s xs" "i \<notin> set xs" "i \<noteq> 0" "\<forall>a \<in> set xs. vm_room (vm_infos s a) (vm_infos s i)"
  shows "\<exists>s' us vs. vm_add_to_list i s = Some s' \<and> xs = us @ vs \<and> vm_list s' (us @ i # vs) \<and>
    (\<forall>a \<in> set xs. span (vm_infos s' a) = span (vm_infos s a) \<and> span (vm_infos s' i) \<inter> span (vm_infos s' a) = {}) \<and>
    range_size (vm_infos s' i) = range_size (vm_infos s i)"
proof -
  obtain h st us vs where r: "vm_add_to_list i s = Some (s\<lparr>vmalloc_list_head := h, vm_infos := st\<rparr>)" "xs = us @ vs"
    "range_list vm_before h st (us @ i # vs)" "\<forall>b. b \<noteq> i \<longrightarrow> same_range (st b) (vm_infos s b)"
    "range_size (st i) = range_size (vm_infos s i)"
    using vm_add_ok [OF assms] by blast
  let ?s' = "s\<lparr>vmalloc_list_head := h, vm_infos := st\<rparr>"
  have l: "vm_list ?s' (us @ i # vs)" using r(3) by (simp add: vm_list_def)
  have "span (st a) = span (vm_infos s a)" if "a \<in> set xs" for a
    using r(4) that assms(2) by (cases "a = i") (auto intro!: span_cong)
  moreover have "span (st i) \<inter> span (st a) = {}" if "a \<in> set xs" for a
    using vm_list_disjoint [OF l, of a] that r(2) by simp
  ultimately show ?thesis using r(1,2,5) l
    by (intro exI [of _ ?s'] exI [of _ us] exI [of _ vs]) simp
qed

definition vm_example :: vmstate where
  "vm_example = kmstate.extend kmalloc_example
     \<lparr>vm_infos = (\<lambda>_. \<lparr>base = 0, range_size = 0, range_next = 0, range_prev = 0\<rparr>)
        (0x10 := \<lparr>base = VMALLOC_START, range_size = 100, range_next = 0x30, range_prev = 0\<rparr>,
         0x30 := \<lparr>base = VMALLOC_START + 0x2000, range_size = 0x1000, range_next = 0, range_prev = 0x10\<rparr>,
         0x50 := \<lparr>base = 0, range_size = 0x1000, range_next = 0, range_prev = 0\<rparr>),
      vmalloc_list_head = 0x10\<rparr>"

lemma vm_example_list: "vm_list vm_example [0x10, 0x30]"
  by (simp add: vm_list_def range_list_def vm_example_def kmstate.defs vm_before_def)

theorem vm_add_disjoint_witness:
  "\<exists>s'. vm_add_to_list 0x50 vm_example = Some s' \<and> span (vm_infos s' 0x50) \<inter> span (vm_infos s' 0x10) = {}"
proof -
  have "\<forall>a \<in> set [0x10, 0x30]. vm_room (vm_infos vm_example a) (vm_infos vm_example 0x50)"
    by (simp add: vm_room_def vm_example_def kmstate.defs)
  from vm_add_disjoint [OF vm_example_list _ _ this] show ?thesis by (auto; blast)
qed

text \<open>
  C36: \<^verbatim>\<open>vm_remove_from_list\<close> undoes \<^verbatim>\<open>vm_add_to_list\<close>: the list holds the same nodes with the same
  ranges again, correctly linked.
\<close>

theorem vm_add_remove:
  assumes "vm_list s xs" "i \<notin> set xs" "i \<noteq> 0" "\<forall>a \<in> set xs. vm_room (vm_infos s a) (vm_infos s i)"
  shows "\<exists>s'. vm_add_to_list i s = Some s' \<and> vm_list (vm_remove_from_list i s') xs \<and>
    (\<forall>a \<in> set xs. span (vm_infos (vm_remove_from_list i s') a) = span (vm_infos s a))"
proof -
  obtain h st us vs where r: "vm_add_to_list i s = Some (s\<lparr>vmalloc_list_head := h, vm_infos := st\<rparr>)" "xs = us @ vs"
    "range_list vm_before h st (us @ i # vs)" "\<forall>b. b \<noteq> i \<longrightarrow> same_range (st b) (vm_infos s b)"
    using vm_add_ok [OF assms] by blast
  obtain h' st' where q: "range_remove i h st = (h', st')" "range_list vm_before h' st' (us @ vs)" "\<forall>b. same_range (st' b) (st b)"
    using vmr.remove_ok [OF r(3)] by blast
  have "span (st' a) = span (vm_infos s a)" if "a \<in> set xs" for a
    using span_cong [of "st' a" "st a"] span_cong [of "st a" "vm_infos s a"] q(3) r(4) that assms(2)
    by (cases "a = i") simp_all
  with r(1,2) q(1,2) show ?thesis by (auto simp: vm_remove_from_list_def vm_list_def)
qed

theorem vm_add_remove_witness:
  "\<exists>s'. vm_add_to_list 0x50 vm_example = Some s' \<and> vm_list (vm_remove_from_list 0x50 s') [0x10, 0x30]"
proof -
  have "\<forall>a \<in> set [0x10, 0x30]. vm_room (vm_infos vm_example a) (vm_infos vm_example 0x50)"
    by (simp add: vm_room_def vm_example_def kmstate.defs)
  from vm_add_remove [OF vm_example_list _ _ this] show ?thesis by (auto; blast)
qed

lemma kheap_use_only:
  fixes s s' :: "'a kmstate_scheme"
  assumes "kheap_use s R" "kmem s' = kmem s" "free_areas s' = free_areas s" "metadata s' = metadata s"
    "kernel_caches s' = kernel_caches s" "kernel_caches_addr s' = kernel_caches_addr s"
    "kmalloc_lock s' = kmalloc_lock s" "scheduler s' = scheduler s"
  shows "kheap_use s' R"
  by (rule kheap_use.client [OF assms(1)])
    (use assms kheap_use_heap_ready [OF assms(1)] in \<open>simp_all add: same_outside_def heap_ready_def\<close>)

lemma vm_only_fields:
  assumes "vm_only s (s' :: 'a vmstate_scheme)"
  shows "kmem s' = kmem s" "free_areas s' = free_areas s" "metadata s' = metadata s" "kernel_caches s' = kernel_caches s"
    "kernel_caches_addr s' = kernel_caches_addr s" "kmalloc_lock s' = kmalloc_lock s" "scheduler s' = scheduler s"
    "vm_infos s' = vm_infos s" "vmalloc_list_head s' = vmalloc_list_head s"
  using assms by (cases s; cases s'; simp add: vm_only_def)+

lemma frame_used_cong: "total_pages s' = total_pages s \<Longrightarrow> bitmap s' = bitmap s \<Longrightarrow> frame_used s' b = frame_used s b"
  by (simp add: frame_used_def)

lemma pt_inv_cong:
  assumes "pmem s' = pmem s" "total_pages s' = total_pages s" "bitmap s' = bitmap s"
  shows "pt_inv s' root = pt_inv s root"
  unfolding pt_inv_def assms(1,2) frame_used_cong [OF assms(2,3)] ..

lemma frames_left_cong:
  "pmm_lock s' = pmm_lock s \<Longrightarrow> total_pages s' = total_pages s \<Longrightarrow> bitmap s' = bitmap s \<Longrightarrow> frames_left s' n = frames_left s n"
  by (simp add: frames_left_def pmm_ok_def free_frames_def)

lemma fresh_pages_cong:
  assumes "pmem s1 = pmem s" "total_pages s1 = total_pages s" "bitmap s1 = bitmap s" "cpu_cr3 s1 = cpu_cr3 s"
  shows "fresh_pages va j m fl s1 s' F = fresh_pages va j m fl s s' F"
  unfolding fresh_pages_def frame_used_cong [OF assms(2,3)] vmm_walk_def assms(1,4) ..

text \<open>
  The state \<^verbatim>\<open>vmalloc\<close> works on: the heap, the range list, the page tables of the current
  address space, and enough free frames.
\<close>

definition vm_ready :: "'a vmstate_scheme \<Rightarrow> (u64 \<times> nat) set \<Rightarrow> u64 list \<Rightarrow> nat \<Rightarrow> bool" where
  "vm_ready s R xs n \<longleftrightarrow> kheap_use s R \<and> vm_list s xs \<and> pt_inv s (cpu_cr3 s) \<and> frames_left s n"

text \<open>
  The addresses \<^verbatim>\<open>vmalloc\<close> has to give: from \<^verbatim>\<open>VMALLOC_START\<close> to the heap, which is mapped at \<^verbatim>\<open>HEAP_START\<close>.
  There are no huge pages there: those of the kernel and of the frame buffer are above the heap, those of the
  direct map below \<^verbatim>\<open>VMALLOC_START\<close>.
\<close>

definition no_huge :: "'a pmm_scheme \<Rightarrow> bool" where
  "no_huge s \<longleftrightarrow> (\<forall>v e l. vmm_walk s (cpu_cr3 s) v = Some (e, l) \<longrightarrow> VMALLOC_START \<le> v \<longrightarrow> v < HEAP_START \<longrightarrow> l = 0)"

definition below_heap :: "'a vmstate_scheme \<Rightarrow> u64 list \<Rightarrow> u64 \<Rightarrow> bool" where
  "below_heap s xs sz \<longleftrightarrow> (\<forall>a \<in> set xs. VMALLOC_START \<le> base (vm_infos s a) \<and>
     unat (base (vm_infos s a)) + unat (range_size (vm_infos s a)) + unat sz \<le> unat HEAP_START)"

lemma below_heap_room:
  "below_heap s xs sz \<Longrightarrow> a \<in> set xs \<Longrightarrow> unat (base (vm_infos s a)) + unat (range_size (vm_infos s a)) + unat sz < 2 ^ 64"
  unfolding below_heap_def by fastforce

lemma kmalloc_diverges: "2 ^ 63 < unat sz \<Longrightarrow> kmalloc sz s = None"
  using kmalloc_order_diverges [of sz 12 0]
  by (auto simp: kmalloc_def push_bit_eq_mult word_less_nat_alt bind_eq_None_conv)

lemma kmalloc_fresh:
  assumes use: "kheap_use s R" and km: "kmalloc sz s = Some (p, s')" "p \<noteq> 0"
  shows "kheap_use s' (insert (p, unat sz) R)" "p \<notin> fst ` R" "heap_only s s'"
proof -
  have sz: "sz \<noteq> 0" "unat sz \<le> 2 ^ 63"
    using km kmalloc_diverges [of sz s] by (auto simp: kmalloc_def not_less [symmetric])
  obtain Q g where h: "heap_ready s" "heap_objs s Q" "backs g R Q" using kheap_use_ok [OF use] by (auto simp: kheap_ok_def)
  from kmalloc_result [OF h(2,1) sz] km obtain k where k: "heap_only s s'" "(p, k) \<notin> Q" "heap_objs s' (insert (p, k) Q)"
    by auto
  have "p \<notin> fst ` Q" by (rule heap_objs_new_addr [OF k(3,2)])
  then show "p \<notin> fst ` R" using backs_bytes [OF h(3)] by force
  show "kheap_use s' (insert (p, unat sz) R)" by (rule kheap_use.alloc [OF use km])
  show "heap_only s s'" by (rule k(1))
qed

text \<open>The parts of the state that \<^verbatim>\<open>vmalloc\<close> writes.\<close>

definition vmalloc_only :: "'a vmstate_scheme \<Rightarrow> 'a vmstate_scheme \<Rightarrow> bool" where
  "vmalloc_only s s' \<longleftrightarrow> s' = s\<lparr>bitmap := bitmap s', pmem := pmem s', tlb_invalidated := tlb_invalidated s', kmem := kmem s',
     free_areas := free_areas s', metadata := metadata s', kernel_caches := kernel_caches s',
     vm_infos := vm_infos s', vmalloc_list_head := vmalloc_list_head s'\<rparr>"

lemma vmalloc_only_parts:
  "heap_only s t \<Longrightarrow> vm_only (t\<lparr>vmalloc_list_head := h, vm_infos := i\<rparr>) s' \<Longrightarrow> vmalloc_only s s'"
  by (cases s; cases t; cases s') (simp add: vmalloc_only_def heap_only_def vm_only_def)

lemma vmalloc_ok:
  assumes rd: "vm_ready s R xs (4 * m + k)" and sz: "sz \<noteq> 0" "m = (unat sz + 4095) div 4096" "unat sz < 2 ^ 30"
    and km: "kmalloc SIZEOF_VM_INFO s = Some (i, s0)" "i \<noteq> 0" and ix: "i \<notin> set xs"
    and room: "below_heap s xs sz" and small: "no_huge s"
  shows "\<exists>s' us vs F. vmalloc sz s = Some (base (vm_infos s' i), s') \<and> xs = us @ vs \<and> (us = [] \<longrightarrow> xs = []) \<and>
    vm_ready s' (insert (i, 32) R) (us @ i # vs) k \<and> range_size (vm_infos s' i) = sz \<and>
    base (vm_infos s' i) = (if us = [] then VMALLOC_START else vm_place (vm_infos s (last us))) \<and>
    (\<forall>a \<in> set xs. span (vm_infos s' a) = span (vm_infos s a)) \<and> cpu_cr3 s' = cpu_cr3 s \<and>
    (\<forall>b. frame_used s b \<longrightarrow> frame_used s' b) \<and> fresh_pages (base (vm_infos s' i)) 0 m PTE_WRITABLE s s' F \<and>
    vmalloc_only s s'"
proof -
  have u: "kheap_use s R" and l: "vm_list s xs" and pt: "pt_inv s (cpu_cr3 s)"
    and fl: "frames_left s (4 * m + k)"
    using rd by (simp_all add: vm_ready_def)
  note fr = kmalloc_fresh [OF u km]
  note ho = heap_onlyD [OF fr(3)]
  have more: "vm_infos s0 = vm_infos s" "vmalloc_list_head s0 = vmalloc_list_head s"
    using fr(3) by (cases s; cases s0; simp add: heap_only_def)+
  let ?s1 = "s0\<lparr>vm_infos := set_range_size (vm_infos s0) i sz\<rparr>"
  have same: "vm_infos ?s1 a = vm_infos s a" if "a \<in> set xs" for a
    using that ix more by (auto simp: set_range_size_def)
  have l1: "vm_list ?s1 xs"
  proof -
    have "dll (\<lambda>a. range_next (vm_infos ?s1 a)) (\<lambda>a. range_prev (vm_infos ?s1 a)) 0 (vmalloc_list_head s) xs
        = dll (\<lambda>a. range_next (vm_infos s a)) (\<lambda>a. range_prev (vm_infos s a)) 0 (vmalloc_list_head s) xs"
      by (intro dll_cong) (use same in simp)
    moreover have "map (vm_infos ?s1) xs = map (vm_infos s) xs" using same by simp
    moreover have "vmalloc_list_head ?s1 = vmalloc_list_head s" using more by simp
    ultimately show ?thesis using l unfolding vm_list_def range_list_def by (simp only:)
  qed
  have szi: "range_size (vm_infos ?s1 i) = sz" by (simp add: set_range_size_def)
  have "\<forall>a \<in> set xs. vm_room (vm_infos ?s1 a) (vm_infos ?s1 i)"
    using below_heap_room [OF room] same unfolding vm_room_def szi by simp
  from vm_add_ok [OF l1 ix km(2) this] obtain h st us vs where ad:
    "vm_add_to_list i ?s1 = Some (?s1\<lparr>vmalloc_list_head := h, vm_infos := st\<rparr>)" "xs = us @ vs" "us = [] \<longrightarrow> xs = []"
    "range_list vm_before h st (us @ i # vs)" "\<forall>b. b \<noteq> i \<longrightarrow> same_range (st b) (vm_infos ?s1 b)"
    "base (st i) = (if us = [] then VMALLOC_START else vm_place (vm_infos ?s1 (last us)))" "range_size (st i) = sz"
    unfolding szi by blast
  let ?s2 = "?s1\<lparr>vmalloc_list_head := h, vm_infos := st\<rparr>" and ?p = "base (st i)"
  have f2: "pmem ?s2 = pmem s" "total_pages ?s2 = total_pages s" "bitmap ?s2 = bitmap s" "cpu_cr3 ?s2 = cpu_cr3 s"
    "pmm_lock ?s2 = pmm_lock s" using ho by simp_all
  have pt2: "pt_inv ?s2 (cpu_cr3 ?s2)" unfolding f2(4) pt_inv_cong [OF f2(1-3)] by (rule pt)
  have fl2: "frames_left ?s2 (4 * m + k)" unfolding frames_left_cong [OF f2(5,2,3)] by (rule fl)
  have m: "m * 4096 < unat sz + 4096" "unat sz \<le> m * 4096" "m * 4096 < 2 ^ 31" using sz(2,3) by auto
  have pl: "VMALLOC_START \<le> ?p \<and> unat ?p + unat sz \<le> unat HEAP_START"
  proof (cases us)
    case Nil
    then show ?thesis using ad(6) sz(3) by simp
  next
    case (Cons a as)
    then have lu: "last us \<in> set xs" using ad(2) by simp
    then have "?p = base (vm_infos s (last us)) + range_size (vm_infos s (last us))"
      using ad(6) Cons same by (simp add: vm_place_def)
    moreover have "unat (base (vm_infos s (last us))) + unat (range_size (vm_infos s (last us))) + unat sz \<le> unat HEAP_START"
      "VMALLOC_START \<le> base (vm_infos s (last us))" using room lu unfolding below_heap_def by blast+
    ultimately show ?thesis
      using unat_add3 [of "base (vm_infos s (last us))" "range_size (vm_infos s (last us))" 0] by (simp add: word_le_nat_alt)
  qed
  have sm: "l = 0" if "i' < m" "vmm_walk ?s2 (cpu_cr3 ?s2) (page_at ?p i') = Some (e, l)" for i' e l
  proof -
    have o: "i' * 4096 < unat sz" "i' * 4096 < 2 ^ 31" using that(1) m(1,3) by linarith+
    then have "unat (page_at ?p i') = unat ?p + i' * 4096"
      using pl unat_off [OF o(2)] unfolding page_at_def by (simp add: unat_word_ariths)
    then have "VMALLOC_START \<le> page_at ?p i' \<and> page_at ?p i' < HEAP_START"
      using pl o(1) by (simp add: word_le_nat_alt word_less_nat_alt)
    moreover have "vmm_walk s (cpu_cr3 s) (page_at ?p i') = Some (e, l)" using that(2) f2 by (simp add: vmm_walk_def)
    ultimately show ?thesis using small unfolding no_huge_def by blast
  qed
  obtain s' F where mp: "vmalloc_map ?p sz (of_nat (0 * 4096)) ?s2 = Some s'" "pt_inv s' (cpu_cr3 ?s2)" "vm_only ?s2 s'" "frames_left s' k"
    "\<forall>b. frame_used ?s2 b \<longrightarrow> frame_used s' b" "fresh_pages ?p 0 m PTE_WRITABLE ?s2 s' F"
    using vmalloc_map_ok [OF pt2 fl2, of 0 sz ?p] m sm by auto
  note vf = vm_only_fields [OF mp(3)]
  have "vmalloc sz s = Some (?p, s')"
    using sz(1) km ad(1) mp(1) by (simp add: vmalloc_def)
  moreover have st': "vm_infos s' = st" "vmalloc_list_head s' = h" using vf(8,9) by simp_all
  moreover have use2: "kheap_use s' (insert (i, 32) R)"
    by (rule kheap_use_only [OF fr(1) [simplified]]) (use vf in simp_all)
  moreover have "vm_list s' (us @ i # vs)" using ad(4) st' by (simp add: vm_list_def)
  moreover have "cpu_cr3 s' = cpu_cr3 s" using vm_only_cr3 [OF mp(3)] f2(4) by simp
  moreover have "span (st a) = span (vm_infos s a)" if "a \<in> set xs" for a
  proof -
    have "a \<noteq> i" using that ix by blast
    then have "same_range (st a) (vm_infos ?s1 a)" using ad(5) by blast
    then show ?thesis unfolding same [OF that] by (rule span_cong)
  qed
  moreover have "fresh_pages ?p 0 m PTE_WRITABLE s s' F" using mp(6) unfolding fresh_pages_cong [OF f2(1-4)] .
  moreover have "frame_used s b \<longrightarrow> frame_used s' b" for b using mp(5) frame_used_cong [OF f2(2,3)] by blast
  moreover have "?p = (if us = [] then VMALLOC_START else vm_place (vm_infos s (last us)))"
    using ad(2,6) same by (auto simp: vm_place_def)
  moreover have "vmalloc_only s s'" by (rule vmalloc_only_parts [OF fr(3)]) (use mp(3) in simp)
  ultimately show ?thesis
    using mp(2,4) f2(4) ad(2,3,7) unfolding vm_ready_def
    by (intro exI [of _ s'] exI [of _ us] exI [of _ vs] exI [of _ F]) simp
qed



definition vm_start :: vmstate where
  "vm_start = kmstate.extend (kheap.extend (heap_example\<lparr>pmem := boot_tables, bitmap := bitmap vmm_example, cpu_cr3 := 0x3000\<rparr>)
     \<lparr>kernel_caches_addr = 0xFFFFFFFF80010000, kernel_caches = (\<lambda>_. \<lparr>obj_size = 0, slabs_partial = 0, slabs_full = 0\<rparr>),
      kmalloc_lock = \<lparr>lock = False\<rparr>, scheduler = True\<rparr>)
     \<lparr>vm_infos = (\<lambda>_. \<lparr>base = 0, range_size = 0, range_next = 0, range_prev = 0\<rparr>)
        (0x10 := \<lparr>base = VMALLOC_START, range_size = 100, range_next = 0, range_prev = 0\<rparr>),
      vmalloc_list_head = 0\<rparr>"

definition vmalloc_example :: vmstate where
  "vmalloc_example = init_slab (init_buddy vm_start)"

lemma init_heap_only: "heap_only s (init_slab (init_buddy s))" for s :: "'a kmstate_scheme"
proof -
  have "heap_only t (init_caches i zs t)" for i zs and t :: "'a kmstate_scheme"
    by (induction i zs t rule: init_caches.induct) (auto intro: heap_only_trans [rotated] simp: heap_only_def)
  moreover have "heap_only s (init_buddy s)" by (simp add: init_buddy_def heap_only_buddy_list)
  ultimately show ?thesis unfolding init_slab_def using heap_only_trans by blast
qed

lemma vmalloc_example_fields:
  "pmem vmalloc_example = pmem boot_example" "total_pages vmalloc_example = total_pages boot_example"
  "bitmap vmalloc_example = bitmap boot_example" "cpu_cr3 vmalloc_example = 0x3000" "\<not> lock (pmm_lock vmalloc_example)"
  "vmalloc_list_head vmalloc_example = 0" "vm_infos vmalloc_example = vm_infos vm_start"
proof -
  note ho = heap_onlyD [OF init_heap_only [of vm_start]]
  have h: "total_pages heap_example = 16" "\<not> lock (pmm_lock heap_example)"
    by (simp_all add: heap_example_def init_buddy_def buddy_list_add_def pmm.defs pmm_example_def Let_def)
  show "pmem vmalloc_example = pmem boot_example" "total_pages vmalloc_example = total_pages boot_example"
    "bitmap vmalloc_example = bitmap boot_example" "cpu_cr3 vmalloc_example = 0x3000" "\<not> lock (pmm_lock vmalloc_example)"
    unfolding vmalloc_example_def ho using h by (simp_all add: vm_start_def kheap.defs kmstate.defs boot_example_def vmm_example_def pmm_example_def)
  have more: "vmalloc_list_head t = vmalloc_list_head u \<and> vm_infos t = vm_infos u" if "kmstate.more t = kmstate.more u" for t u :: vmstate
    by (cases t; cases u) (use that in simp)
  have "vmalloc_list_head vmalloc_example = vmalloc_list_head vm_start \<and> vm_infos vmalloc_example = vm_infos vm_start"
    unfolding vmalloc_example_def by (rule more [OF ho(3)])
  then show "vmalloc_list_head vmalloc_example = 0" "vm_infos vmalloc_example = vm_infos vm_start"
    by (simp_all add: vm_start_def kheap.defs kmstate.defs)
qed

lemma vmalloc_area_index: "VMALLOC_START \<le> v \<Longrightarrow> v < HEAP_START \<Longrightarrow> vmm_index 39 v \<noteq> 511"
proof
  assume v: "VMALLOC_START \<le> v" "v < HEAP_START" and i: "vmm_index 39 v = 511"
  have "vmm_index 39 v = take_bit 9 (drop_bit 39 v)"
    by (simp add: vmm_index_def take_bit_eq_mask mask_eq_exp_minus_1)
  also have "\<dots> = v div 2 ^ 39 mod 2 ^ 9" by (simp only: take_bit_eq_mod drop_bit_eq_div)
  finally have "v div 2 ^ 39 mod 2 ^ 9 = 511" using i by simp
  from arg_cong [OF this, of unat] have m: "unat v div 2 ^ 39 mod 512 = 511" by (simp add: unat_div unat_mod)
  have "0xFFFFC00000000000 \<le> unat v" "unat v < 0xFFFFE00000000000"
    using v by (simp_all add: word_le_nat_alt word_less_nat_alt)
  then have x: "33554304 \<le> unat v div 2 ^ 39" "unat v div 2 ^ 39 < 33554368" by simp_all
  then obtain r where r: "unat v div 2 ^ 39 = r + 512 * 65535" "r < 448" using le_Suc_ex [OF x(1)] by (auto simp: add.commute)
  then have "r mod 512 = 511" using m by (simp only: mod_mult_self2)
  then show False using r(2) by simp
qed

lemma vmalloc_example_ready:
  "vm_ready vmalloc_example {} [] (4 * 1 + 0)" "kheap_use vmalloc_example {}" "frames_left vmalloc_example (4 * 1 + 0)"
  "pt_inv vmalloc_example 0x3000" "no_huge vmalloc_example"
  "vmm_walk vmalloc_example 0x3000 0xFFFFFFFF80200000 = Some (0x200083, 1)"
proof -
  show use: "kheap_use vmalloc_example {}"
    unfolding vmalloc_example_def
  proof (rule kheap_use.start)
    fix c :: nat assume "c < NUM_CACHES"
    then have "c \<in> {0, 1, 2, 3, 4, 5, 6, 7}" by auto
    then show "cache_at vm_start c \<noteq> 0" by (auto simp: vm_start_def cache_at_def kheap.defs kmstate.defs)
  qed (simp add: heap_ready_def vm_start_def kheap.defs kmstate.defs)
  have "{4, 5, 6, 8} \<subseteq> free_frames vmalloc_example"
    unfolding free_frames_def vmalloc_example_fields by (auto simp: boot_example_def vmm_example_def pmm_example_def BITMAP_TEST_def)
  then have "card {4 :: u64, 5, 6, 8} \<le> card (free_frames vmalloc_example)" by (rule card_mono [rotated]) simp
  moreover have "0 \<notin> free_frames vmalloc_example" 
    unfolding free_frames_def vmalloc_example_fields by (auto simp: boot_example_def vmm_example_def pmm_example_def BITMAP_TEST_def)
  ultimately show fr: "frames_left vmalloc_example (4 * 1 + 0)"
    by (simp add: vmalloc_example_fields frames_left_def pmm_ok_def boot_example_def vmm_example_def pmm_example_def)
  show pt: "pt_inv vmalloc_example 0x3000"
    unfolding pt_inv_cong [OF vmalloc_example_fields(1-3)] by (rule boot_example_pt)
  have w: "vmm_walk vmalloc_example 0x3000 v = vmm_walk boot_example 0x3000 v" for v
    by (simp add: vmm_walk_def vmalloc_example_fields)
  show "vmm_walk vmalloc_example 0x3000 0xFFFFFFFF80200000 = Some (0x200083, 1)"
    unfolding w boot_example_walk by (simp add: vmm_index_def)
  show "no_huge vmalloc_example"
    unfolding no_huge_def vmalloc_example_fields w boot_example_walk using vmalloc_area_index by (auto split: if_splits)
  show "vm_ready vmalloc_example {} [] (4 * 1 + 0)"
    using use fr pt by (simp add: vm_ready_def vm_list_def range_list_def vmalloc_example_fields)
qed



lemma vmm_path_pred:
  assumes "unat p mod 4096 \<noteq> 0"
  shows "vmm_path (p - 1) = vmm_path p"
proof -
  have "p \<noteq> 0" using assms by auto
  then have "unat (p - 1) = unat p - 1" by (simp add: unat_minus_one)
  moreover have "(unat p - 1) div 4096 = unat p div 4096"
  proof -
    have "unat p = 4096 * (unat p div 4096) + unat p mod 4096" by simp
    then have "unat p - 1 = 4096 * (unat p div 4096) + (unat p mod 4096 - 1)" using assms by linarith
    then show ?thesis by (metis add.commute div_mult_self2 div_less add_0 less_imp_diff_less mod_less_divisor zero_less_numeral zero_neq_numeral)
  qed
  ultimately have "unat (p - 1) div 4096 = unat p div 4096" by simp
  then have eq: "drop_bit 12 (p - 1) = drop_bit 12 p"
    by (simp add: word_unat_eq_iff drop_bit_eq_div unat_div)
  have "bit (p - 1) n = bit p n" if "12 \<le> n" for n
    using arg_cong [OF eq, of "\<lambda>x. bit x (n - 12)"] that by (simp add: bit_drop_bit_eq)
  then show ?thesis unfolding vmm_path_bits by blast
qed

text \<open>
  C37: the bases are not rounded to pages. When the size of the first range is no multiple of the page
  size, a second \<^verbatim>\<open>vmalloc\<close> returns an address in the middle of the last page of the first, and maps that
  page to a new frame: what the first owner stored there is lost.
\<close>

theorem vmalloc_shares_page:
  assumes rd: "vm_ready s R [a] (4 * m + k)" and sz: "sz \<noteq> 0" "m = (unat sz + 4095) div 4096" "unat sz < 2 ^ 30"
    and km: "kmalloc SIZEOF_VM_INFO s = Some (i, s0)" "i \<noteq> 0" "i \<noteq> a"
    and room: "below_heap s [a] sz" and small: "no_huge s"
    and odd: "page_aligned (base (vm_infos s a))" "unat (range_size (vm_infos s a)) mod 4096 \<noteq> 0"
  shows "\<exists>s' f. vmalloc sz s = Some (base (vm_infos s a) + range_size (vm_infos s a), s') \<and> \<not> frame_used s f \<and>
    vmm_walk s' (cpu_cr3 s) (base (vm_infos s a) + range_size (vm_infos s a) - 1) = Some (f OR 3, 0)"
proof -
  let ?p = "base (vm_infos s a) + range_size (vm_infos s a)"
  have "0 < unat sz" using sz(1) by (simp add: unat_gt_0)
  then have m: "0 < m" using sz(2) by linarith
  have "base (vm_infos s a) mod 0x1000 = 0"
    using div_mult_mod_eq [of "base (vm_infos s a)" "0x1000"] page_aligned_mult [OF odd(1)] by (simp only: add_cancel_left_right)
  then have "unat (base (vm_infos s a) mod 0x1000) = 0" by (simp only: unat_0)
  then have "unat (base (vm_infos s a)) mod 4096 = 0" by (simp add: unat_mod)
  moreover have "unat ?p = unat (base (vm_infos s a)) + unat (range_size (vm_infos s a))"
    using unat_add3 [of "base (vm_infos s a)" "range_size (vm_infos s a)" 0] below_heap_room [OF room, of a] by simp
  ultimately have "unat ?p mod 4096 \<noteq> 0" using odd(2) by (metis mod_add_left_eq add_0)
  then have path: "vmm_path (?p - 1) = vmm_path ?p" by (rule vmm_path_pred)
  have ia: "i \<notin> set [a]" using km(3) by simp
  from vmalloc_ok [OF rd sz km(1,2) ia room small] show ?thesis
  proof (elim exE conjE, goal_cases)
    case (1 s' us vs F)
    have "us = [a]" using 1(2,3) by (cases us) auto
    then have p: "base (vm_infos s' i) = ?p" using 1(6) by (simp add: vm_place_def)
    have "\<not> frame_used s (F 0) \<and> vmm_walk s' (cpu_cr3 s) ?p = Some (F 0 OR 3, 0)"
      using 1(10) m unfolding p fresh_pages_def page_at_def by force
    moreover have "vmm_walk s' (cpu_cr3 s) (?p - 1) = vmm_walk s' (cpu_cr3 s) ?p" by (simp only: vmm_walk_def path)
    ultimately show ?case using 1(1) p by (intro exI [of _ s'] exI [of _ "F 0"]) simp
  qed
qed

definition vmalloc_shared :: vmstate where
  "vmalloc_shared = vmalloc_example\<lparr>vmalloc_list_head := 0x10\<rparr>"

theorem vmalloc_shares_page_witness:
  "vmm_walk vmalloc_shared 0x3000 0xFFFFFFFF80200000 = Some (0x200083, 1) \<and>
   (\<exists>s' f. vmalloc 50 vmalloc_shared = Some (VMALLOC_START + 100, s') \<and> \<not> frame_used vmalloc_shared f \<and>
    vmm_walk s' 0x3000 (VMALLOC_START + 99) = Some (f OR 3, 0))"
proof -
  note rd = vmalloc_example_ready
  have f: "pmem vmalloc_shared = pmem vmalloc_example" "total_pages vmalloc_shared = total_pages vmalloc_example"
    "bitmap vmalloc_shared = bitmap vmalloc_example" "cpu_cr3 vmalloc_shared = 0x3000" "pmm_lock vmalloc_shared = pmm_lock vmalloc_example"
    "vm_infos vmalloc_shared = vm_infos vm_start"
    by (simp_all add: vmalloc_shared_def vmalloc_example_fields)
  have use: "kheap_use vmalloc_shared {}" by (rule kheap_use_only [OF rd(2)]) (simp_all add: vmalloc_shared_def)
  have info: "vm_infos vmalloc_shared 0x10 = \<lparr>base = VMALLOC_START, range_size = 100, range_next = 0, range_prev = 0\<rparr>"
    unfolding f(6) by (simp add: vm_start_def kheap.defs kmstate.defs)
  have ready: "vm_ready vmalloc_shared {} [0x10] (4 * 1 + 0)"
    unfolding vm_ready_def f(4) pt_inv_cong [OF f(1-3)] frames_left_cong [OF f(5,2,3)] vm_list_def range_list_def
    using use rd(3,4) info by (simp add: vmalloc_shared_def)
  have walk: "vmm_walk vmalloc_shared 0x3000 v = vmm_walk vmalloc_example 0x3000 v" for v using f(1) by (simp add: vmm_walk_def)
  have small: "no_huge vmalloc_shared" using rd(5) unfolding no_huge_def f(4) vmalloc_example_fields(4) walk .
  have room: "below_heap vmalloc_shared [0x10] 50" by (simp add: below_heap_def info)
  obtain i s0 where km: "kmalloc SIZEOF_VM_INFO vmalloc_shared = Some (i, s0)" "HEAP_START \<le> i" "i \<noteq> 0"
    using empty_heap_alloc [OF use, of SIZEOF_VM_INFO] by auto
  have "i \<noteq> 0x10" using km(2) by auto
  note th = vmalloc_shares_page [OF ready _ _ _ km(1,3) this room small]
  have "\<exists>s' f. vmalloc 50 vmalloc_shared = Some (base (vm_infos vmalloc_shared 0x10) + range_size (vm_infos vmalloc_shared 0x10), s') \<and>
    \<not> frame_used vmalloc_shared f \<and> vmm_walk s' (cpu_cr3 vmalloc_shared)
      (base (vm_infos vmalloc_shared 0x10) + range_size (vm_infos vmalloc_shared 0x10) - 1) = Some (f OR 3, 0)"
    by (rule th) (simp_all add: info f(4) page_aligned_def)
  then show ?thesis using rd(6) by (simp add: info f(4) walk)
qed

end
