(* ===== verification/Stack.thy ===== *)
theory Stack
  imports Vmalloc
begin

text \<open>
  Stacks, \<^verbatim>\<open>mm/stack.c\<close>: kernel stacks come from \<^verbatim>\<open>vmalloc\<close>, user stacks from a list of ranges that
  grows downwards from \<^verbatim>\<open>USER_STACK_MAX\<close>, of which only the top page is mapped at once. The head of
  the list is that of the current process; \<^verbatim>\<open>create_user_thread\<close> and the scheduler exchange it.
\<close>

section \<open>State and operations\<close>

abbreviation USER_STACK_MAX :: u64 where "USER_STACK_MAX \<equiv> 0x00007FFFFFFFF000"
abbreviation DEFAULT_STACK_SIZE :: u64 where "DEFAULT_STACK_SIZE \<equiv> 0x100000"
abbreviation SIZEOF_US_INFO :: u64 where "SIZEOF_US_INFO \<equiv> 32"

record stack_desc =
  stack_top :: u64
  stack_bottom :: u64
  stack_size :: u64

record usstate = vmstate +
  us_infos :: range_store
  us_list_head :: u64
  user_next_top :: u64

definition us_fits :: "range_info \<Rightarrow> range_info \<Rightarrow> range_info \<Rightarrow> bool" where
  "us_fits current i nxt \<longleftrightarrow> base nxt \<le> base current - range_size current - range_size i"

definition us_place :: "range_info \<Rightarrow> u64" where
  "us_place current = base current - range_size current"

definition us_add_to_list :: "u64 \<Rightarrow> 'a usstate_scheme \<Rightarrow> 'a usstate_scheme option" where
  "us_add_to_list i s = do {
     (h, st) \<leftarrow> range_add us_fits us_place USER_STACK_MAX i (us_list_head s) (us_infos s);
     Some (s\<lparr>us_list_head := h, us_infos := st\<rparr>)
   }"

definition us_remove_from_list :: "u64 \<Rightarrow> 'a usstate_scheme \<Rightarrow> 'a usstate_scheme" where
  "us_remove_from_list i s =
     (let (h, st) = range_remove i (us_list_head s) (us_infos s)
      in s\<lparr>us_list_head := h, us_infos := st\<rparr>)"

definition kernel_alloc_stack :: "u64 \<Rightarrow> 'a usstate_scheme \<Rightarrow> (u64 \<times> 'a usstate_scheme) option" where
  "kernel_alloc_stack sz s =
     (if sz = 0 then Some (0, s)
      else do {
        (bottom, s1) \<leftarrow> vmalloc sz s;
        if bottom = 0 then Some (0, s1) else Some (bottom, s1)
      })"

definition user_alloc_stack :: "u64 \<Rightarrow> 'a usstate_scheme \<Rightarrow> (u64 \<times> 'a usstate_scheme) option" where
  "user_alloc_stack sz s =
     (if sz = 0 then Some (0, s)
      else do {
        (i, s1) \<leftarrow> kmalloc SIZEOF_US_INFO s;
        if i = 0 then Some (0, s1)
        else do {
          s2 \<leftarrow> us_add_to_list i (s1\<lparr>us_infos := set_range_size (us_infos s1) i sz\<rparr>);
          (paddr, s3) \<leftarrow> pmm_alloc_page s2;
          s4 \<leftarrow> vmm_map_page (read_cr3 s3) paddr (base (us_infos s3 i) - PAGE_SIZE_4KB) PAGE_SIZE_4KB (PTE_WRITABLE OR PTE_USER) s3;
          Some (base (us_infos s4 i), s4)
        }
      })"

text \<open>The loop unmaps \<^verbatim>\<open>base - i\<close>, starting with the page at \<^verbatim>\<open>base\<close> itself, which lies above the stack.\<close>

partial_function (option) user_free_unmap :: "u64 \<Rightarrow> u64 \<Rightarrow> u32 \<Rightarrow> 'a pmm_scheme \<Rightarrow> 'a pmm_scheme option" where
  "user_free_unmap va sz i s =
     (if u64_of_int32 i < sz then
        let (paddr, s1) = vmm_unmap_page (read_cr3 s) (va - u64_of_int32 i) s
        in user_free_unmap va sz (i + 0x1000) (pmm_free_page paddr s1)
      else Some s)"

definition user_free_stack :: "u64 \<Rightarrow> 'a usstate_scheme \<Rightarrow> 'a usstate_scheme option" where
  "user_free_stack ptr s =
     (if us_list_head s = 0 then Some s
      else do {
        current \<leftarrow> range_find ptr (us_list_head s) (us_infos s);
        if current = 0 then Some s
        else do {
          s1 \<leftarrow> user_free_unmap (base (us_infos s current)) (range_size (us_infos s current)) 0 s;
          Some (us_remove_from_list current s1)
        }
      })"

section \<open>The ranges\<close>

definition us_before :: "range_info \<Rightarrow> range_info \<Rightarrow> bool" where
  "us_before a b \<longleftrightarrow> unat (base b) + unat (range_size a) \<le> unat (base a)"

definition us_room :: "range_info \<Rightarrow> range_info \<Rightarrow> bool" where
  "us_room c n \<longleftrightarrow> unat (range_size c) + unat (range_size n) \<le> unat (base c)"

lemma unat_sub: "unat b \<le> unat a \<Longrightarrow> unat (a - b) = unat a - unat b" for a b :: u64
  by (simp add: unat_sub word_le_nat_alt)

interpretation usr: ranges us_fits us_place us_before us_room
proof
  show "us_before a b \<Longrightarrow> us_before b c \<Longrightarrow> us_before a c" for a b c by (simp add: us_before_def)
  show "us_room c n \<Longrightarrow> us_before c (n\<lparr>base := us_place c\<rparr>)" for c n
    using unat_sub [of "range_size c" "base c"] by (simp add: us_room_def us_before_def us_place_def)
  show "us_before (n\<lparr>base := us_place c\<rparr>) x" if r: "us_room c n" and f: "us_fits c n x" for c n x
    using f r unat_sub [of "range_size c" "base c"] unat_sub [of "range_size n" "base c - range_size c"]
    by (simp add: us_room_def us_before_def us_place_def us_fits_def word_le_nat_alt)
qed (simp_all add: same_range_def us_before_def)

definition us_list :: "'a usstate_scheme \<Rightarrow> u64 list \<Rightarrow> bool" where
  "us_list s xs \<longleftrightarrow> range_list us_before (us_list_head s) (us_infos s) xs"

text \<open>The addresses of a stack: \<^verbatim>\<open>base\<close> is its upper end.\<close>

definition stack_span :: "range_info \<Rightarrow> nat set" where
  "stack_span r = {unat (base r) - unat (range_size r) ..< unat (base r)}"

lemma us_before_disjoint: "us_before a b \<Longrightarrow> stack_span a \<inter> stack_span b = {}"
  by (auto simp: us_before_def stack_span_def)

section \<open>Properties\<close>

text \<open>
  C38: \<^verbatim>\<open>us_add_to_list\<close> returns and gives the new stack a range of the requested size, below or between
  the others, that overlaps none of them; the others stay as they are. The condition is that the
  stacks stay above address 0.
\<close>

theorem us_add_disjoint:
  assumes "us_list s xs" "i \<notin> set xs" "i \<noteq> 0" "\<forall>a \<in> set xs. us_room (us_infos s a) (us_infos s i)"
  shows "\<exists>s' us vs. us_add_to_list i s = Some s' \<and> xs = us @ vs \<and> us_list s' (us @ i # vs) \<and>
    (\<forall>a \<in> set xs. stack_span (us_infos s' a) = stack_span (us_infos s a) \<and>
       stack_span (us_infos s' i) \<inter> stack_span (us_infos s' a) = {}) \<and>
    range_size (us_infos s' i) = range_size (us_infos s i)"
proof -
  obtain h st us vs where r: "range_add us_fits us_place USER_STACK_MAX i (us_list_head s) (us_infos s) = Some (h, st)"
    "xs = us @ vs" "range_list us_before h st (us @ i # vs)" "\<forall>b. b \<noteq> i \<longrightarrow> same_range (st b) (us_infos s b)"
    "range_size (st i) = range_size (us_infos s i)"
    using usr.add_ok [OF assms(1) [unfolded us_list_def] assms(2,3), of USER_STACK_MAX] assms(4) by auto
  let ?s' = "s\<lparr>us_list_head := h, us_infos := st\<rparr>"
  have "stack_span (st a) = stack_span (us_infos s a)" if "a \<in> set xs" for a
    using r(4) that assms(2) by (cases "a = i") (auto simp: same_range_def stack_span_def)
  moreover have "stack_span (st i) \<inter> stack_span (st a) = {}" if a: "a \<in> set xs" for a
  proof -
    have "sorted_wrt us_before (map st (us @ i # vs))" using r(3) by (simp add: range_list_def)
    with a have "us_before (st i) (st a) \<or> us_before (st a) (st i)" unfolding r(2) by (auto simp: sorted_wrt_append)
    then show ?thesis using us_before_disjoint by blast
  qed
  moreover have "us_add_to_list i s = Some ?s'" using r(1) by (simp add: us_add_to_list_def)
  moreover have "us_list ?s' (us @ i # vs)" using r(3) by (simp add: us_list_def)
  ultimately show ?thesis using r(2,5) by (intro exI [of _ ?s'] exI [of _ us] exI [of _ vs]) simp
qed

definition us_example :: usstate where
  "us_example = vmstate.extend vmalloc_example
     \<lparr>us_infos = (\<lambda>_. \<lparr>base = 0, range_size = 0x1000, range_next = 0, range_prev = 0\<rparr>)
        (0x10 := \<lparr>base = USER_STACK_MAX, range_size = 0x1000, range_next = 0, range_prev = 0\<rparr>),
      us_list_head = 0x10, user_next_top = USER_STACK_MAX\<rparr>"

lemma us_example_list: "us_list us_example [0x10]"
  by (simp add: us_list_def range_list_def us_example_def vmstate.defs)

theorem us_add_disjoint_witness:
  "\<exists>s'. us_add_to_list 0x30 us_example = Some s' \<and> stack_span (us_infos s' 0x30) \<inter> stack_span (us_infos s' 0x10) = {}"
proof -
  have "\<forall>a \<in> set [0x10]. us_room (us_infos us_example a) (us_infos us_example 0x30)"
    by (simp add: us_room_def us_example_def vmstate.defs)
  from us_add_disjoint [OF us_example_list _ _ this] show ?thesis by (auto; blast)
qed

lemma unmap_nothing:
  assumes "\<forall>e l. vmm_get_entry root v s = Some (e, l) \<longrightarrow> ld64 (pmem s) e = 0"
  shows "\<exists>t. vmm_unmap_page root v s = (0, s\<lparr>tlb_invalidated := t\<rparr>)"
proof (cases "vmm_get_entry root v s")
  case None
  then have "vmm_unmap_page root v s = (0, s\<lparr>tlb_invalidated := tlb_invalidated s\<rparr>)" by (simp add: vmm_unmap_page_def)
  then show ?thesis by blast
next
  case (Some q)
  obtain e l where e: "vmm_get_entry root v s = Some (e, l)" using Some by (cases q) simp
  then have "ld64 (pmem s) e = 0" using assms by blast
  then have "vmm_unmap_page root v s = (0, s\<lparr>tlb_invalidated := tlb_invalidated s @ [v]\<rparr>)"
    using e by (simp add: vmm_unmap_page_def st64_zero invalidate_def)
  then show ?thesis by blast
qed

text \<open>
  C39: \<^verbatim>\<open>user_free_stack\<close> frees the wrong page. A stack of one page has its page below its base, but
  the loop starts at the base: when nothing is mapped there, no translation of the address space
  changes, so the stack stays mapped and its frame is lost, and the 0 that the failed unmapping
  returns is handed to \<^verbatim>\<open>pmm_free_page\<close>, which gives the reserved frame 0 to the allocator.
\<close>

theorem user_free_stack_wrong_page:
  assumes l: "us_list s (us @ i # vs)" and other: "\<forall>a \<in> set us. base (us_infos s a) \<noteq> base (us_infos s i)"
    and sz: "0 < range_size (us_infos s i)" "range_size (us_infos s i) \<le> 0x1000"
    and top: "\<forall>e l. vmm_get_entry (cpu_cr3 s) (base (us_infos s i)) s = Some (e, l) \<longrightarrow> ld64 (pmem s) e = 0"
    and pm: "0 < total_pages s" "BITMAP_TEST (bitmap s) 0"
  shows "\<exists>s'. user_free_stack (base (us_infos s i)) s = Some s' \<and> us_list s' (us @ vs) \<and>
    (\<forall>w. vmm_walk s' (cpu_cr3 s') w = vmm_walk s (cpu_cr3 s) w) \<and> 0 \<in> free_frames s' \<and> (\<forall>b. frame_used s b \<longrightarrow> b \<noteq> 0 \<longrightarrow> frame_used s' b)"
proof -
  let ?p = "base (us_infos s i)" and ?sz = "range_size (us_infos s i)"
  have d: "dll (\<lambda>a. range_next (us_infos s a)) (\<lambda>a. range_prev (us_infos s a)) 0 (us_list_head s) (us @ i # vs)"
    using l by (simp add: us_list_def range_list_def)
  have i0: "i \<noteq> 0" using dll_zero_notin [OF d] by auto
  have h: "us_list_head s \<noteq> 0" using d by (cases us) auto
  have "find (\<lambda>a. base (us_infos s a) = ?p) (us @ i # vs) = Some i"
    using other by (induction us) auto
  then have f: "range_find ?p (us_list_head s) (us_infos s) = Some i"
    using range_find_ok [OF d, of ?p] by simp
  obtain t where t: "vmm_unmap_page (cpu_cr3 s) ?p s = (0, s\<lparr>tlb_invalidated := t\<rparr>)" using unmap_nothing [OF top] by blast
  let ?s1 = "s\<lparr>tlb_invalidated := t, bitmap := BITMAP_CLR (bitmap s) 0\<rparr>"
  have fr: "pmm_free_page 0 (s\<lparr>tlb_invalidated := t\<rparr>) = ?s1" using pm by (simp add: pmm_free_page_def)
  have z: "u64_of_int32 0 = 0" "u64_of_int32 0x1000 = 0x1000" using u64_of_int32_nat [of 0] u64_of_int32_nat [of "4096"] by simp_all
  have "user_free_unmap ?p ?sz 0 s = user_free_unmap ?p ?sz 0x1000 ?s1"
    using sz(1) t fr by (subst user_free_unmap.simps) (simp add: z read_cr3_def)
  also have "\<dots> = Some ?s1"
  proof -
    have "\<not> u64_of_int32 0x1000 < ?sz" using sz(2) unfolding z(2) by (simp only: not_less)
    then show ?thesis by (subst user_free_unmap.simps) (simp only: if_False)
  qed
  finally have un: "user_free_unmap ?p ?sz 0 s = Some ?s1" .
  obtain h' st' where r: "range_remove i (us_list_head s) (us_infos s) = (h', st')" "range_list us_before h' st' (us @ vs)"
    using usr.remove_ok [OF l [unfolded us_list_def]] by blast
  let ?s' = "?s1\<lparr>us_list_head := h', us_infos := st'\<rparr>"
  have "user_free_stack ?p s = Some ?s'"
    using h f i0 un r(1) by (simp add: user_free_stack_def us_remove_from_list_def)
  moreover have "us_list ?s' (us @ vs)" using r(2) by (simp add: us_list_def)
  moreover have "vmm_walk ?s' (cpu_cr3 ?s') w = vmm_walk s (cpu_cr3 s) w" for w by (simp add: vmm_walk_def)
  moreover have "0 \<in> free_frames ?s'" using pm by (simp add: free_frames_def)
  moreover have "frame_used ?s' b" if "frame_used s b" "b \<noteq> 0" for b
  proof -
    have "b div PAGE_SIZE_4KB \<noteq> 0" using page_aligned_mult [of b] that by (auto simp: frame_used_def)
    then show ?thesis using that by (simp add: frame_used_def)
  qed
  ultimately show ?thesis by blast
qed

theorem user_free_stack_wrong_page_witness:
  "\<exists>s'. user_free_stack USER_STACK_MAX us_example = Some s' \<and> us_list s' [] \<and> 0 \<in> free_frames s'"
proof -
  have b: "base (us_infos us_example 0x10) = USER_STACK_MAX" "range_size (us_infos us_example 0x10) = 0x1000"
    by (simp_all add: us_example_def vmstate.defs)
  have p: "pmem us_example = boot_tables" "total_pages us_example = 16" "BITMAP_TEST (bitmap us_example) 0"
    "cpu_cr3 us_example = 0x3000"
    unfolding us_example_def vmstate.defs
    using vmalloc_example_fields by (simp_all add: boot_example_def vmm_example_def pmm_example_def BITMAP_TEST_def)
  have "page_aligned 0x3000" by (simp add: page_aligned_def)
  moreover have "vmm_index 39 USER_STACK_MAX < 512" "vmm_index 39 USER_STACK_MAX \<noteq> 511" by (simp_all add: vmm_index_def)
  ultimately have "pte boot_tables 0x3000 (vmm_index 39 USER_STACK_MAX) = 0" by (simp add: boot_pte)
  then have "vmm_get_entry 0x3000 USER_STACK_MAX us_example = None" by (simp add: vmm_get_entry_def p(1) Let_def)
  then have top: "\<forall>e l. vmm_get_entry (cpu_cr3 us_example) (base (us_infos us_example 0x10)) us_example = Some (e, l) \<longrightarrow> ld64 (pmem us_example) e = 0"
    unfolding b(1) p(4) by simp
  have "\<exists>s'. user_free_stack (base (us_infos us_example 0x10)) us_example = Some s' \<and> us_list s' ([] @ []) \<and>
    (\<forall>w. vmm_walk s' (cpu_cr3 s') w = vmm_walk us_example (cpu_cr3 us_example) w) \<and> 0 \<in> free_frames s' \<and>
    (\<forall>b. frame_used us_example b \<longrightarrow> b \<noteq> 0 \<longrightarrow> frame_used s' b)"
    by (rule user_free_stack_wrong_page) (use us_example_list top p in \<open>simp_all add: b\<close>)
  then show ?thesis unfolding b by auto
qed

end
