(* ===== verification/Multiboot.thy ===== *)
theory Multiboot
  imports Vmm
begin

text \<open>
  The boot information: the tag list that the multiboot2 loader leaves in memory
  (\<^verbatim>\<open>include/multiboot2.h\<close>), and the two initialisers that read the memory map from it,
  \<^verbatim>\<open>init_PMM\<close> and \<^verbatim>\<open>init_VMM\<close>. The structures are packed, so a field is a load at its offset.
\<close>

section \<open>Tags\<close>

abbreviation MULTIBOOT_TAG_TYPE_END :: u32 where "MULTIBOOT_TAG_TYPE_END \<equiv> 0"
abbreviation MULTIBOOT_TAG_TYPE_MODULE :: u32 where "MULTIBOOT_TAG_TYPE_MODULE \<equiv> 3"
abbreviation MULTIBOOT_TAG_TYPE_MMAP :: u32 where "MULTIBOOT_TAG_TYPE_MMAP \<equiv> 6"
abbreviation MULTIBOOT_TAG_TYPE_FRAMEBUFFER :: u32 where "MULTIBOOT_TAG_TYPE_FRAMEBUFFER \<equiv> 8"
abbreviation MULTIBOOT_TAG_TYPE_ACPI_OLD :: u32 where "MULTIBOOT_TAG_TYPE_ACPI_OLD \<equiv> 14"
abbreviation MULTIBOOT_TAG_TYPE_ACPI_NEW :: u32 where "MULTIBOOT_TAG_TYPE_ACPI_NEW \<equiv> 15"
abbreviation MULTIBOOT_MEMORY_AVAILABLE :: u32 where "MULTIBOOT_MEMORY_AVAILABLE \<equiv> 1"

record multiboot_tag =
  tag_type :: u32
  tag_size :: u32

definition read_tag :: "mem \<Rightarrow> u64 \<Rightarrow> multiboot_tag" where
  "read_tag m p = \<lparr>tag_type = ld32 m p, tag_size = ld32 m (p + 4)\<rparr>"

definition next_tag :: "mem \<Rightarrow> u64 \<Rightarrow> u64" where
  "next_tag m p = (p + ucast (tag_size (read_tag m p)) + 7) AND NOT 7"

definition first_tag :: "u32 \<Rightarrow> u64" where
  "first_tag physBootInfo = ucast physBootInfo + KERNEL_OFFSET + 8"

record mmap_entry =
  mm_addr :: u64
  mm_len :: u64
  mm_type :: u32

text \<open>\<^verbatim>\<open>entries[i]\<close> strides by the size of the structure, 24, and not by the tag's \<^verbatim>\<open>entry_size\<close>.\<close>

definition mmap_entry_at :: "mem \<Rightarrow> u64 \<Rightarrow> nat \<Rightarrow> mmap_entry" where
  "mmap_entry_at m tag i =
     (let p = tag + 16 + of_nat (24 * i)
      in \<lparr>mm_addr = ld64 m p, mm_len = ld64 m (p + 8), mm_type = ld32 m (p + 16)\<rparr>)"

text \<open>None: the division by an \<^verbatim>\<open>entry_size\<close> of zero traps.\<close>

definition mmap_count :: "mem \<Rightarrow> u64 \<Rightarrow> u64 option" where
  "mmap_count m tag =
     (if ld32 m (tag + 8) = 0 then None
      else Some ((ucast (tag_size (read_tag m tag)) - 16) div ucast (ld32 m (tag + 8))))"

text \<open>
  The loop over the tags, which does not end when no tag of type 0 is ever reached, and the loop
  over the entries of a memory map, with the statement they run as an argument.
\<close>

partial_function (option) tag_loop :: "mem \<Rightarrow> (u64 \<Rightarrow> 's \<Rightarrow> 's option) \<Rightarrow> u64 \<Rightarrow> 's \<Rightarrow> 's option" where
  "tag_loop m f p s =
     (if tag_type (read_tag m p) = MULTIBOOT_TAG_TYPE_END then Some s
      else do { s1 \<leftarrow> f p s; tag_loop m f (next_tag m p) s1 })"

primrec loop_over :: "('x \<Rightarrow> 's \<Rightarrow> 's option) \<Rightarrow> 'x list \<Rightarrow> 's \<Rightarrow> 's option" where
  "loop_over f [] s = Some s"
| "loop_over f (x # xs) s = do { s1 \<leftarrow> f x s; loop_over f xs s1 }"

definition mmap_loop :: "mem \<Rightarrow> (mmap_entry \<Rightarrow> 's \<Rightarrow> 's option) \<Rightarrow> u64 \<Rightarrow> 's \<Rightarrow> 's option" where
  "mmap_loop m f tag s =
     (if tag_type (read_tag m tag) = MULTIBOOT_TAG_TYPE_MMAP then do {
        n \<leftarrow> mmap_count m tag;
        loop_over f (map (mmap_entry_at m tag) [0..<unat n]) s
      }
      else Some s)"

section \<open>init_PMM and init_VMM\<close>

definition entry_end :: "mmap_entry \<Rightarrow> u64" where
  "entry_end e = mm_addr e + mm_len e"

definition max_available :: "mmap_entry \<Rightarrow> u64 \<Rightarrow> u64 option" where
  "max_available e maxAddr =
     Some (if mm_type e = MULTIBOOT_MEMORY_AVAILABLE \<and> maxAddr < entry_end e then entry_end e else maxAddr)"

definition max_any :: "mmap_entry \<Rightarrow> u64 \<Rightarrow> u64 option" where
  "max_any e maxAddr = Some (if maxAddr < entry_end e then entry_end e else maxAddr)"

partial_function (option) bitmap_clear_range :: "u64 \<Rightarrow> u64 \<Rightarrow> (u64 \<Rightarrow> u8) \<Rightarrow> (u64 \<Rightarrow> u8) option" where
  "bitmap_clear_range addr stop bm =
     (if addr < stop then bitmap_clear_range (addr + PAGE_SIZE_4KB) stop (BITMAP_CLR bm (addr div PAGE_SIZE_4KB))
      else Some bm)"

partial_function (option) bitmap_set_range :: "u64 \<Rightarrow> u64 \<Rightarrow> (u64 \<Rightarrow> u8) \<Rightarrow> (u64 \<Rightarrow> u8) option" where
  "bitmap_set_range addr stop bm =
     (if addr < stop then bitmap_set_range (addr + PAGE_SIZE_4KB) stop (BITMAP_SET bm (addr div PAGE_SIZE_4KB))
      else Some bm)"

definition free_available :: "mmap_entry \<Rightarrow> (u64 \<Rightarrow> u8) \<Rightarrow> (u64 \<Rightarrow> u8) option" where
  "free_available e bm =
     (if mm_type e = MULTIBOOT_MEMORY_AVAILABLE \<and> 0x100000 \<le> mm_addr e
      then bitmap_clear_range (mm_addr e) (entry_end e) bm else Some bm)"

text \<open>
  \<^verbatim>\<open>kernel_start\<close> and \<^verbatim>\<open>kernel_end\<close> are the linker's symbols; the bitmap is placed at the second.
\<close>

definition init_PMM :: "u64 \<Rightarrow> u64 \<Rightarrow> u32 \<Rightarrow> 'a pmm_scheme \<Rightarrow> 'a pmm_scheme option" where
  "init_PMM kernel_start kernel_end bootInfoAddr s = do {
     let tag = first_tag bootInfoAddr;
     maxAddr \<leftarrow> tag_loop (kmem s) (mmap_loop (kmem s) max_available) tag 0;
     let pages = maxAddr div PAGE_SIZE_4KB;
     let bitmap_size = (pages + 7) div 8;
     let bm = (\<lambda>k. if k < bitmap_size then 0xFF else bitmap s k);
     bm1 \<leftarrow> tag_loop (kmem s) (mmap_loop (kmem s) free_available) tag bm;
     bm2 \<leftarrow> bitmap_set_range (kernel_start - KERNEL_OFFSET) (kernel_end + bitmap_size - KERNEL_OFFSET) bm1;
     Some (s\<lparr>total_pages := pages, bitmap := bm2\<rparr>)
   }"

definition init_VMM :: "u32 \<Rightarrow> 'a pmm_scheme \<Rightarrow> 'a pmm_scheme option" where
  "init_VMM bootInfoAddr s = do {
     maxAddr \<leftarrow> tag_loop (kmem s) (mmap_loop (kmem s) max_any) (first_tag bootInfoAddr) 0;
     s1 \<leftarrow> vmm_init_direct_mapping maxAddr s;
     Some (init_pat s1)
   }"

section \<open>A well-formed tag list\<close>

fun tags :: "mem \<Rightarrow> u64 \<Rightarrow> u64 list \<Rightarrow> bool" where
  "tags m p [] \<longleftrightarrow> tag_type (read_tag m p) = MULTIBOOT_TAG_TYPE_END"
| "tags m p (t # ts) \<longleftrightarrow> p = t \<and> tag_type (read_tag m p) \<noteq> MULTIBOOT_TAG_TYPE_END \<and> tags m (next_tag m p) ts"

lemma tag_loop_tags: "tags m p ts \<Longrightarrow> tag_loop m f p s = loop_over f ts s"
proof (induction ts arbitrary: p s)
  case Nil
  then show ?case by (simp add: tag_loop.simps [of m f p])
next
  case (Cons t ts)
  then show ?case by (subst tag_loop.simps) (auto cong: Option.bind_cong)
qed

lemma loop_over_append: "loop_over f (xs @ ys) s = do { s1 \<leftarrow> loop_over f xs s; loop_over f ys s1 }"
  by (induction xs arbitrary: s) simp_all

text \<open>The memory maps among the tags, and all their entries.\<close>

definition entries_of :: "mem \<Rightarrow> u64 \<Rightarrow> mmap_entry list" where
  "entries_of m t =
     (if tag_type (read_tag m t) = MULTIBOOT_TAG_TYPE_MMAP
      then map (mmap_entry_at m t) [0..<unat (the (mmap_count m t))] else [])"

definition memory_map :: "mem \<Rightarrow> u64 list \<Rightarrow> mmap_entry list" where
  "memory_map m ts = concat (map (entries_of m) ts)"

definition mmaps_ok :: "mem \<Rightarrow> u64 list \<Rightarrow> bool" where
  "mmaps_ok m ts \<longleftrightarrow>
     (\<forall>t \<in> set ts. tag_type (read_tag m t) = MULTIBOOT_TAG_TYPE_MMAP \<longrightarrow> ld32 m (t + 8) \<noteq> 0)"

lemma mmap_loops:
  assumes "mmaps_ok m ts"
  shows "loop_over (mmap_loop m f) ts s = loop_over f (memory_map m ts) s"
  using assms
proof (induction ts arbitrary: s)
  case (Cons t ts)
  then have IH: "loop_over (mmap_loop m f) ts s1 = loop_over f (memory_map m ts) s1" for s1
    by (simp add: mmaps_ok_def)
  have "mmap_loop m f t s = loop_over f (entries_of m t) s"
    using Cons.prems by (auto simp: mmap_loop_def entries_of_def mmap_count_def mmaps_ok_def)
  then show ?case by (simp add: IH memory_map_def loop_over_append)
qed (simp add: memory_map_def)

lemma loop_over_Some:
  "(\<And>x s. f x s = Some (g x s)) \<Longrightarrow> loop_over f xs s = Some (fold g xs s)"
  by (induction xs arbitrary: s) simp_all

definition available_end :: "mmap_entry \<Rightarrow> u64" where
  "available_end e = (if mm_type e = MULTIBOOT_MEMORY_AVAILABLE then entry_end e else 0)"

lemma max_available_loop: "loop_over max_available es a = Some (fold max (map available_end es) a)"
  unfolding fold_map
  by (rule loop_over_Some) (auto simp: max_available_def available_end_def max_def)

lemma max_any_loop: "loop_over max_any es a = Some (fold max (map entry_end es) a)"
  unfolding fold_map by (rule loop_over_Some) (auto simp: max_any_def max_def)

section \<open>The frames of a range\<close>

text \<open>The frame numbers that the loop from \<^verbatim>\<open>addr\<close> in steps of a page to \<^verbatim>\<open>stop\<close> touches.\<close>

definition frames_between :: "u64 \<Rightarrow> u64 \<Rightarrow> u64 set" where
  "frames_between addr stop =
     {k. \<exists>j. unat addr + 4096 * j < unat stop \<and> unat k = (unat addr + 4096 * j) div 4096}"

lemma frames_between_step:
  assumes "addr < stop" "unat stop + 4096 \<le> 2 ^ 64"
  shows "frames_between addr stop = insert (addr div 0x1000) (frames_between (addr + 0x1000) stop)"
proof -
  have u: "unat (addr + 0x1000) = unat addr + 4096"
    using assms by (simp add: unat_word_ariths word_less_nat_alt)
  show ?thesis
  proof (intro set_eqI iffI)
    fix k assume "k \<in> frames_between addr stop"
    then obtain j where j: "unat addr + 4096 * j < unat stop" "unat k = (unat addr + 4096 * j) div 4096"
      by (auto simp: frames_between_def)
    show "k \<in> insert (addr div 0x1000) (frames_between (addr + 0x1000) stop)"
    proof (cases j)
      case 0
      with j show ?thesis by (simp add: word_unat_eq_iff unat_div)
    next
      case (Suc i)
      with j show ?thesis by (auto simp: frames_between_def u intro!: exI [of _ i])
    qed
  next
    fix k assume "k \<in> insert (addr div 0x1000) (frames_between (addr + 0x1000) stop)"
    then consider "k = addr div 0x1000" | i where "unat (addr + 0x1000) + 4096 * i < unat stop"
      "unat k = (unat (addr + 0x1000) + 4096 * i) div 4096" by (auto simp: frames_between_def)
    then show "k \<in> frames_between addr stop"
    proof cases
      case 1
      with assms(1) show ?thesis by (auto simp: frames_between_def word_less_nat_alt unat_div intro!: exI [of _ 0])
    next
      case 2
      then show ?thesis by (auto simp: frames_between_def u intro!: exI [of _ "Suc i"])
    qed
  qed
qed

lemma frames_between_empty: "\<not> addr < stop \<Longrightarrow> frames_between addr stop = {}"
  by (auto simp: frames_between_def word_less_nat_alt)

lemma range_loop_induct [consumes 1, case_names stop step]:
  assumes "unat stop + 4096 \<le> 2 ^ 64"
    and "\<And>addr. \<not> addr < stop \<Longrightarrow> P addr"
    and "\<And>addr. addr < stop \<Longrightarrow> P (addr + 0x1000) \<Longrightarrow> P addr"
  shows "P (addr :: u64)"
proof (induction "unat stop - unat addr" arbitrary: addr rule: less_induct)
  case less
  show ?case
  proof (cases "addr < stop")
    case True
    have "unat (addr + 0x1000) = unat addr + 4096"
      using assms(1) True by (simp add: unat_word_ariths word_less_nat_alt)
    with True have "unat stop - unat (addr + 0x1000) < unat stop - unat addr" by (simp add: word_less_nat_alt)
    with less True assms(3) show ?thesis by blast
  qed (rule assms(2))
qed

lemma bitmap_clear_range_ok:
  assumes "unat stop + 4096 \<le> 2 ^ 64"
  shows "\<exists>bm'. bitmap_clear_range addr stop bm = Some bm' \<and>
    (\<forall>k. BITMAP_TEST bm' k \<longleftrightarrow> BITMAP_TEST bm k \<and> k \<notin> frames_between addr stop)"
  using assms
proof (induction addr arbitrary: bm rule: range_loop_induct)
  case (stop addr)
  then show ?case by (simp add: bitmap_clear_range.simps [of addr] frames_between_empty)
next
  case (step addr)
  then show ?case
    using step.IH [of "BITMAP_CLR bm (addr div 0x1000)"] frames_between_step [OF step.hyps assms]
    by (auto simp: bitmap_clear_range.simps [of addr])
qed

lemma bitmap_set_range_ok:
  assumes "unat stop + 4096 \<le> 2 ^ 64"
  shows "\<exists>bm'. bitmap_set_range addr stop bm = Some bm' \<and>
    (\<forall>k. BITMAP_TEST bm' k \<longleftrightarrow> BITMAP_TEST bm k \<or> k \<in> frames_between addr stop)"
  using assms
proof (induction addr arbitrary: bm rule: range_loop_induct)
  case (stop addr)
  then show ?case by (simp add: bitmap_set_range.simps [of addr] frames_between_empty)
next
  case (step addr)
  then show ?case
    using step.IH [of "BITMAP_SET bm (addr div 0x1000)"] frames_between_step [OF step.hyps assms]
    by (auto simp: bitmap_set_range.simps [of addr])
qed

lemma free_available_loop:
  assumes "\<forall>e \<in> set es. unat (entry_end e) + 4096 \<le> 2 ^ 64"
  shows "\<exists>bm'. loop_over free_available es bm = Some bm' \<and>
    (\<forall>k. BITMAP_TEST bm' k \<longleftrightarrow> BITMAP_TEST bm k \<and>
      k \<notin> (\<Union>e \<in> {e \<in> set es. mm_type e = MULTIBOOT_MEMORY_AVAILABLE \<and> 0x100000 \<le> mm_addr e}.
             frames_between (mm_addr e) (entry_end e)))"
  using assms
proof (induction es arbitrary: bm)
  case (Cons e es)
  have "\<exists>bm1. free_available e bm = Some bm1 \<and> (\<forall>k. BITMAP_TEST bm1 k \<longleftrightarrow> BITMAP_TEST bm k \<and>
    (mm_type e = MULTIBOOT_MEMORY_AVAILABLE \<and> 0x100000 \<le> mm_addr e \<longrightarrow> k \<notin> frames_between (mm_addr e) (entry_end e)))"
    using bitmap_clear_range_ok [of "entry_end e" "mm_addr e" bm] Cons.prems by (auto simp: free_available_def)
  then obtain bm1 where bm1: "free_available e bm = Some bm1" "\<forall>k. BITMAP_TEST bm1 k \<longleftrightarrow> BITMAP_TEST bm k \<and>
    (mm_type e = MULTIBOOT_MEMORY_AVAILABLE \<and> 0x100000 \<le> mm_addr e \<longrightarrow> k \<notin> frames_between (mm_addr e) (entry_end e))"
    by blast
  from Cons.IH [of bm1] Cons.prems obtain bm' where "loop_over free_available es bm1 = Some bm'"
    "\<forall>k. BITMAP_TEST bm' k \<longleftrightarrow> BITMAP_TEST bm1 k \<and>
      k \<notin> (\<Union>e \<in> {e \<in> set es. mm_type e = MULTIBOOT_MEMORY_AVAILABLE \<and> 0x100000 \<le> mm_addr e}.
             frames_between (mm_addr e) (entry_end e))" by auto
  with bm1 show ?case by (intro exI [of _ bm']) auto
qed simp

text \<open>Before anything is freed, the bitmap is full.\<close>

lemma bitmap_full:
  assumes "k < x div 0x1000"
  shows "BITMAP_TEST (\<lambda>k. if k < (x div 0x1000 + 7) div 8 then 0xFF else bm k) k"
proof -
  let ?p = "x div 0x1000"
  have "unat ?p < 2 ^ 52" using unsigned_less [where 'a = nat and w = x] by (simp add: unat_div less_mult_imp_div_less)
  then have "unat (?p + 7) = unat ?p + 7" by (simp add: unat_word_ariths)
  moreover have "unat k < unat ?p" using assms by (simp add: word_less_nat_alt)
  ultimately have "k div 8 < (?p + 7) div 8" by (simp add: word_less_nat_alt unat_div [of _ 8])
  moreover have "unat (k mod 8) < 8" by (simp add: unat_mod)
  moreover have "bit (0xFF :: u8) n" if "n < 8" for n
  proof -
    have "(0xFF :: u8) = mask 8" by (simp add: mask_eq_exp_minus_1)
    with that show ?thesis by (simp only: bit_mask_iff) simp
  qed
  ultimately show ?thesis by (simp add: BITMAP_TEST_bit)
qed

section \<open>Properties\<close>

text \<open>
  C10: \<^verbatim>\<open>init_PMM\<close> counts the frames up to the highest end of an available region and leaves free exactly
  those frames that the loop over an available region from 1 MiB up touches, less the frames of the
  kernel image and the bitmap behind it.
\<close>

theorem init_PMM_frees:
  fixes kernel_start kernel_end :: u64 and s :: "'a pmm_scheme"
  defines "es \<equiv> memory_map (kmem s)"
  assumes "tags (kmem s) (first_tag b) ts" "mmaps_ok (kmem s) ts"
    and "\<forall>e \<in> set (es ts). unat (entry_end e) + 4096 \<le> 2 ^ 64"
    and p: "pages = fold max (map available_end (es ts)) 0 div PAGE_SIZE_4KB"
    and st: "stop = kernel_end + (pages + 7) div 8 - KERNEL_OFFSET" "unat stop + 4096 \<le> 2 ^ 64"
  shows "\<exists>s'. init_PMM kernel_start kernel_end b s = Some s' \<and> total_pages s' = pages \<and>
    free_frames s' = {k. k < pages} \<inter>
      (\<Union>e \<in> {e \<in> set (es ts). mm_type e = MULTIBOOT_MEMORY_AVAILABLE \<and> 0x100000 \<le> mm_addr e}.
         frames_between (mm_addr e) (entry_end e)) -
      frames_between (kernel_start - KERNEL_OFFSET) stop"
proof -
  let ?m = "kmem s" and ?bm = "\<lambda>k. if k < (pages + 7) div 8 then 0xFF else bitmap s k"
  obtain bm1 where bm1: "loop_over free_available (es ts) ?bm = Some bm1"
    "\<forall>k. BITMAP_TEST bm1 k \<longleftrightarrow> BITMAP_TEST ?bm k \<and>
      k \<notin> (\<Union>e \<in> {e \<in> set (es ts). mm_type e = MULTIBOOT_MEMORY_AVAILABLE \<and> 0x100000 \<le> mm_addr e}.
             frames_between (mm_addr e) (entry_end e))"
    using free_available_loop [OF assms(4)] by blast
  obtain bm2 where bm2: "bitmap_set_range (kernel_start - KERNEL_OFFSET) stop bm1 = Some bm2"
    "\<forall>k. BITMAP_TEST bm2 k \<longleftrightarrow> BITMAP_TEST bm1 k \<or> k \<in> frames_between (kernel_start - KERNEL_OFFSET) stop"
    using bitmap_set_range_ok [OF st(2)] by blast
  let ?s' = "s\<lparr>total_pages := pages, bitmap := bm2\<rparr>"
  have "init_PMM kernel_start kernel_end b s = Some ?s'"
    using bm1(1) bm2(1) assms(2,3)
    by (simp add: init_PMM_def tag_loop_tags mmap_loops max_available_loop flip: es_def p st(1))
  moreover have "free_frames ?s' = {k. k < pages} \<inter>
      (\<Union>e \<in> {e \<in> set (es ts). mm_type e = MULTIBOOT_MEMORY_AVAILABLE \<and> 0x100000 \<le> mm_addr e}.
         frames_between (mm_addr e) (entry_end e)) -
      frames_between (kernel_start - KERNEL_OFFSET) stop"
    using bitmap_full [of _ "fold max (map available_end (es ts)) 0", folded p]
    by (auto simp: free_frames_def bm1(2) bm2(2))
  ultimately show ?thesis by simp
qed

text \<open>Loads with their bytes written out, to evaluate concrete memories.\<close>

lemma load_bytes_4: "load_bytes 4 m a = ucast (m a) OR push_bit 8 (ucast (m (a + 1)) OR
    push_bit 8 (ucast (m (a + 1 + 1)) OR push_bit 8 (ucast (m (a + 1 + 1 + 1)))))"
  by (simp add: eval_nat_numeral)

lemma load_bytes_8: "load_bytes 8 m a = ucast (m a) OR push_bit 8 (ucast (m (a + 1)) OR
    push_bit 8 (ucast (m (a + 1 + 1)) OR push_bit 8 (ucast (m (a + 1 + 1 + 1)) OR
    push_bit 8 (load_bytes 4 m (a + 1 + 1 + 1 + 1)))))"
  using load_bytes.simps(2) [of 7 m a] load_bytes.simps(2) [of 6 m "a + 1"] load_bytes.simps(2) [of 5 m "a + 1 + 1"]
    load_bytes.simps(2) [of 4 m "a + 1 + 1 + 1"]
  by (simp only: Suc_numeral Num.add_num_simps)

text \<open>A boot information block at 0x1000 with one region, 1 MiB to 3 MiB.\<close>

definition boot_bytes :: mem where
  "boot_bytes = (\<lambda>_. 0)(0xFFFFFFFF80001008 := 6, 0xFFFFFFFF8000100C := 40, 0xFFFFFFFF80001010 := 24,
     0xFFFFFFFF8000101A := 0x10, 0xFFFFFFFF80001022 := 0x20, 0xFFFFFFFF80001028 := 1)"

lemma boot_tags: "tags boot_bytes (first_tag 0x1000) [0xFFFFFFFF80001008]"
proof -
  have "first_tag 0x1000 = 0xFFFFFFFF80001008" by (simp add: first_tag_def)
  then show ?thesis by (simp add: next_tag_def read_tag_def ld32_def boot_bytes_def load_bytes_4)
qed

lemma boot_map: "memory_map boot_bytes [0xFFFFFFFF80001008] = [\<lparr>mm_addr = 0x100000, mm_len = 0x200000, mm_type = 1\<rparr>]"
  "mmaps_ok boot_bytes [0xFFFFFFFF80001008]"
  by (simp_all add: memory_map_def entries_of_def mmap_count_def mmap_entry_at_def mmaps_ok_def
      read_tag_def ld32_def ld64_def boot_bytes_def load_bytes_4 load_bytes_8)

theorem init_PMM_frees_witness:
  "\<exists>s'. init_PMM 0xFFFFFFFF80100000 0xFFFFFFFF80200000 0x1000 (pmm_example\<lparr>kmem := boot_bytes\<rparr>) = Some s' \<and>
     total_pages s' = 0x300 \<and> 0x201 \<in> free_frames s' \<and> 0x200 \<notin> free_frames s'"
proof -
  let ?s = "pmm_example\<lparr>kmem := boot_bytes\<rparr>"
  have ne: "\<not> (\<forall>x. mm_type x = MULTIBOOT_MEMORY_AVAILABLE \<longrightarrow>
      x \<noteq> \<lparr>mm_addr = 0x100000, mm_len = 0x200000, mm_type = 1\<rparr>)" by auto
  from init_PMM_frees [OF _ _ _ refl refl, where b = "0x1000" and s = ?s and ts = "[0xFFFFFFFF80001008]" and
      kernel_start = "0xFFFFFFFF80100000" and kernel_end = "0xFFFFFFFF80200000"]
  have "\<exists>s'. init_PMM 0xFFFFFFFF80100000 0xFFFFFFFF80200000 0x1000 ?s = Some s' \<and> total_pages s' = 0x300 \<and>
    free_frames s' = {k. k < 0x300} \<inter> frames_between 0x100000 0x300000 - frames_between 0x100000 0x200060"
    using boot_tags boot_map(2) by (simp add: boot_map(1) entry_end_def available_end_def ne del: tags.simps)
  moreover have "0x201 \<in> frames_between 0x100000 0x300000" "0x201 \<notin> frames_between 0x100000 0x200060"
    "0x200 \<in> frames_between 0x100000 0x200060"
    by (auto simp: frames_between_def intro: exI [of _ "0x101"] exI [of _ "0x100"])
  ultimately show ?thesis by (auto simp: boot_map entry_end_def)
qed

end
