(* ===== verification/Lfb.thy ===== *)
theory Lfb
  imports Stack Multiboot Font Cstring Format
begin

text \<open>
  The framebuffer console, \<^verbatim>\<open>drivers/lfb/lfb.c\<close>: characters are drawn with the built-in font into a
  back buffer, which \<^verbatim>\<open>lfb_swap\<close> copies to the video memory. The refinement shows that the back
  buffer always displays the state of a text terminal, scrolling included.
\<close>

section \<open>State\<close>

record framebuffer_struct =
  fb_vram :: u64
  fb_buffer :: u64
  fb_paddr :: u32
  fb_width :: u32
  fb_height :: u32
  fb_pitch :: u32
  fb_size :: u32
  fb_font :: u64
  fb_char_width :: u8
  fb_char_height :: u8
  fb_cursor_x :: u32
  fb_cursor_y :: u32

record lfbstate = usstate +
  lfb :: framebuffer_struct

abbreviation LFB_ADDR :: u64 where "LFB_ADDR \<equiv> 0xFFFFFFFFC0000000"

section \<open>Operations\<close>

definition lfb_swap :: "'a lfbstate_scheme \<Rightarrow> 'a lfbstate_scheme" where
  "lfb_swap s = s\<lparr>kmem := memcpy (kmem s) (fb_vram (lfb s)) (fb_buffer (lfb s)) (ucast (fb_size (lfb s)))\<rparr>"

definition lfb_scroll :: "'a lfbstate_scheme \<Rightarrow> 'a lfbstate_scheme" where
  "lfb_scroll s =
     (let f = lfb s;
          line_size = fb_pitch f * ucast (fb_char_height f);
          move_size = fb_size f - line_size;
          m = memcpy (kmem s) (fb_buffer f) (fb_buffer f + ucast line_size) (ucast move_size)
      in s\<lparr>kmem := memset m (fb_buffer f + ucast move_size) 0 (ucast line_size)\<rparr>)"

text \<open>The \<^verbatim>\<open>int\<close> coordinates are compared with the unsigned width and height, hence unsigned.\<close>

definition putpixel :: "u32 \<Rightarrow> u32 \<Rightarrow> u32 \<Rightarrow> 'a lfbstate_scheme \<Rightarrow> 'a lfbstate_scheme" where
  "putpixel x y color s =
     (let f = lfb s in
      if fb_width f \<le> x \<or> fb_height f \<le> y then s
      else s\<lparr>kmem := st32 (kmem s) (fb_buffer f + 4 * ucast (y * (fb_pitch f div 4) + x)) color\<rparr>)"

text \<open>
  The shift \<^verbatim>\<open>glyph[i] >> (7 - j)\<close> is undefined when \<^verbatim>\<open>j\<close> is more than 7: None.
\<close>

definition draw_char_at :: "u32 \<Rightarrow> u32 \<Rightarrow> u8 \<Rightarrow> u32 \<Rightarrow> u32 \<Rightarrow> 'a lfbstate_scheme \<Rightarrow> 'a lfbstate_scheme option" where
  "draw_char_at x y c fg bg s =
     (let glyph = fb_font (lfb s) + ucast c * ucast (fb_char_height (lfb s)) in
      loop_over (\<lambda>i. loop_over (\<lambda>j s.
          if 7 < j then None
          else if drop_bit (7 - j) (ld8 (kmem s) (glyph + of_nat i)) AND 1 \<noteq> 0
          then Some (putpixel (x + of_nat j) (y + of_nat i) fg s)
          else Some (putpixel (x + of_nat j) (y + of_nat i) bg s))
        [0..<unat (fb_char_width (lfb s))]) [0..<unat (fb_char_height (lfb s))] s)"

definition set_cursor :: "u32 \<Rightarrow> u32 \<Rightarrow> 'a lfbstate_scheme \<Rightarrow> 'a lfbstate_scheme" where
  "set_cursor x y s = s\<lparr>lfb := (lfb s)\<lparr>fb_cursor_x := x, fb_cursor_y := y\<rparr>\<rparr>"

text \<open>The end of \<^verbatim>\<open>kputchar_direct\<close>: wrap at the right edge, scroll at the lower one.\<close>

definition kputchar_wrap :: "'a lfbstate_scheme \<Rightarrow> 'a lfbstate_scheme" where
  "kputchar_wrap s =
     (let s1 = (if fb_width (lfb s) < fb_cursor_x (lfb s) + ucast (fb_char_width (lfb s))
                then set_cursor 0 (fb_cursor_y (lfb s) + ucast (fb_char_height (lfb s))) s else s)
      in if fb_height (lfb s1) < fb_cursor_y (lfb s1) + ucast (fb_char_height (lfb s1))
         then let s2 = lfb_scroll s1
              in set_cursor (fb_cursor_x (lfb s2)) (fb_cursor_y (lfb s2) - ucast (fb_char_height (lfb s2))) s2
         else s1)"

definition kputchar_direct :: "u8 \<Rightarrow> 'a lfbstate_scheme \<Rightarrow> 'a lfbstate_scheme option" where
  "kputchar_direct c s =
     (if c = 0x0A
      then Some (kputchar_wrap (set_cursor 0 (fb_cursor_y (lfb s) + ucast (fb_char_height (lfb s))) s))
      else do {
        s1 \<leftarrow> draw_char_at (fb_cursor_x (lfb s)) (fb_cursor_y (lfb s)) c 0xFFFFFFFF 0 s;
        Some (kputchar_wrap (set_cursor (fb_cursor_x (lfb s1) + ucast (fb_char_width (lfb s1))) (fb_cursor_y (lfb s1)) s1))
      })"

definition kputchar :: "u8 \<Rightarrow> 'a lfbstate_scheme \<Rightarrow> 'a lfbstate_scheme option" where
  "kputchar c s = do { s1 \<leftarrow> kputchar_direct c s; Some (lfb_swap s1) }"

definition kputnum_direct :: "u32 \<Rightarrow> u32 \<Rightarrow> 'a lfbstate_scheme \<Rightarrow> 'a lfbstate_scheme option" where
  "kputnum_direct num radix s =
     (if num = 0 then kputchar_direct (of_char (CHR ''0'')) s
      else do { buf \<leftarrow> num_loop radix num []; loop_over (\<lambda>d. kputchar_direct (of_char d)) (rev buf) s })"

text \<open>The part of \<^verbatim>\<open>init_LFB\<close> that reads the framebuffer tag and maps the video memory.\<close>

definition read_fb_tag :: "mem \<Rightarrow> u64 \<Rightarrow> framebuffer_struct \<Rightarrow> framebuffer_struct option" where
  "read_fb_tag m p f =
     Some (if tag_type (read_tag m p) = MULTIBOOT_TAG_TYPE_FRAMEBUFFER
       then let w = ld32 m (p + 20); h = ld32 m (p + 24); pitch = ld32 m (p + 16)
            in f\<lparr>fb_paddr := ucast (ld64 m (p + 8)), fb_width := w, fb_height := h, fb_pitch := pitch,
                 fb_size := pitch * h\<rparr>
       else f)"

abbreviation PTE_WC_HUGE :: u64 where "PTE_WC_HUGE \<equiv> 0x1000"

partial_function (option) lfb_map :: "u32 \<Rightarrow> 'a lfbstate_scheme \<Rightarrow> 'a lfbstate_scheme option" where
  "lfb_map sz s =
     (if sz < fb_size (lfb s) then do {
        s1 \<leftarrow> vmm_map_page (read_cr3 s) (ucast (fb_paddr (lfb s) + sz)) (u64_of_int32 sz + LFB_ADDR)
          PAGE_SIZE_2MB (PTE_WRITABLE OR PTE_WC_HUGE) s;
        lfb_map (sz + 0x200000) s1
      }
      else Some s)"

section \<open>The display\<close>

text \<open>
  \<^verbatim>\<open>lfb_ok\<close>: the back buffer holds \<^verbatim>\<open>height\<close> lines of \<^verbatim>\<open>pitch\<close> bytes without wrapping around the address
  space, a line has room for \<^verbatim>\<open>width\<close> pixels, the screen for one character, and the font lies outside
  the buffer.
\<close>

definition font_at :: "mem \<Rightarrow> u64 \<Rightarrow> bool" where
  "font_at m a \<longleftrightarrow> (\<forall>i < 4096. m (a + of_nat i) = font8x16 ! i)"

abbreviation lfb_row :: "framebuffer_struct \<Rightarrow> nat" where "lfb_row f \<equiv> unat (fb_pitch f div 4)"

definition geometry :: "framebuffer_struct \<Rightarrow> bool" where
  "geometry f \<longleftrightarrow> fb_char_width f = 8 \<and> fb_char_height f = 16 \<and>
     unat (fb_pitch f) mod 4 = 0 \<and> unat (fb_width f) \<le> lfb_row f \<and> 8 \<le> unat (fb_width f) \<and> 16 \<le> unat (fb_height f) \<and>
     unat (fb_pitch f) * unat (fb_height f) < 2 ^ 32 \<and> fb_size f = fb_pitch f * fb_height f \<and>
     unat (fb_buffer f) + unat (fb_size f) \<le> 2 ^ 64 \<and>
     (\<forall>i < 4096. \<not> fb_font f + of_nat i - fb_buffer f < ucast (fb_size f))"

definition lfb_ok :: "'a lfbstate_scheme \<Rightarrow> bool" where
  "lfb_ok s \<longleftrightarrow> geometry (lfb s) \<and> font_at (kmem s) (fb_font (lfb s))"

definition pixel :: "framebuffer_struct \<Rightarrow> mem \<Rightarrow> nat \<Rightarrow> nat \<Rightarrow> u32" where
  "pixel f m x y = ld32 m (fb_buffer f + 4 * of_nat (y * lfb_row f + x))"

text \<open>Only the bytes of the back buffer differ.\<close>

definition only_buffer :: "framebuffer_struct \<Rightarrow> mem \<Rightarrow> mem \<Rightarrow> bool" where
  "only_buffer f m m' \<longleftrightarrow> (\<forall>a. \<not> a - fb_buffer f < ucast (fb_size f) \<longrightarrow> m' a = m a)"

section \<open>Pixels\<close>

lemma geometry_size:
  assumes "geometry f"
  shows "unat (fb_pitch f) = 4 * lfb_row f" "unat (fb_size f) = 4 * (unat (fb_height f) * lfb_row f)"
    "4 * (unat (fb_height f) * lfb_row f) < 2 ^ 32"
    "unat (fb_buffer f) + 4 * (unat (fb_height f) * lfb_row f) \<le> 2 ^ 64"
proof -
  have "unat (fb_pitch f) mod 4 = 0" using assms by (simp add: geometry_def)
  then show p: "unat (fb_pitch f) = 4 * lfb_row f" by (simp add: unat_div) presburger
  have "unat (fb_pitch f * fb_height f) = unat (fb_pitch f) * unat (fb_height f)"
    using assms by (simp add: geometry_def unat_word_ariths)
  then show sz: "unat (fb_size f) = 4 * (unat (fb_height f) * lfb_row f)"
    using assms by (simp add: geometry_def p)
  show "4 * (unat (fb_height f) * lfb_row f) < 2 ^ 32" using unsigned_less [where w = "fb_size f" and 'a = nat] sz by simp
  show "unat (fb_buffer f) + 4 * (unat (fb_height f) * lfb_row f) \<le> 2 ^ 64"
    using assms sz by (simp add: geometry_def)
qed

lemma unat_ucast_32: "unat (ucast (x :: u32) :: u64) = unat x"
proof -
  have "unat x < 2 ^ 64" using unsigned_less [where w = x and 'a = nat] by simp
  then show ?thesis by (simp add: unsigned_ucast_eq take_bit_nat_eq_self_iff)
qed

text \<open>The index of a pixel in the back buffer.\<close>

lemma pixel_index:
  assumes "geometry f" "x < unat (fb_width f)" "y < unat (fb_height f)"
  shows "y * lfb_row f + x < unat (fb_height f) * lfb_row f"
proof -
  have "x < lfb_row f" using assms by (simp add: geometry_def)
  moreover have "Suc y * lfb_row f \<le> unat (fb_height f) * lfb_row f" using assms(3) by (intro mult_le_mono1) simp
  ultimately show ?thesis by simp
qed

lemma pixel_index_inj:
  assumes "geometry f" "x < unat (fb_width f)" "x' < unat (fb_width f)"
  shows "y * lfb_row f + x = y' * lfb_row f + x' \<longleftrightarrow> x = x' \<and> y = y'"
proof
  assume eq: "y * lfb_row f + x = y' * lfb_row f + x'"
  have x: "x < lfb_row f" "x' < lfb_row f" using assms by (simp_all add: geometry_def)
  then have "(y * lfb_row f + x) div lfb_row f = y" "(y' * lfb_row f + x') div lfb_row f = y'" by simp_all
  with eq have "y = y'" by simp
  with eq show "x = x' \<and> y = y'" by simp
qed simp

lemma offset_ne: "i < 2 ^ 64 \<Longrightarrow> j < 2 ^ 64 \<Longrightarrow> (a :: u64) + of_nat i = a + of_nat j \<longleftrightarrow> i = j"
  using of_nat_inverse [where 'a = 64] by (auto simp: unat_of_nat dest: arg_cong [where f = unat])

lemma ld32_st32_word:
  assumes "i < 2 ^ 32" "j < 2 ^ 32" "i \<noteq> j"
  shows "ld32 (st32 m (a + 4 * of_nat i) v) (a + 4 * of_nat j) = ld32 m (a + 4 * of_nat j)"
proof -
  have "load_bytes 4 (store_bytes 4 m (a + 4 * of_nat i) (ucast v)) (a + 4 * of_nat j) = load_bytes 4 m (a + 4 * of_nat j)"
  proof (rule load_store_disjoint)
    fix k l :: nat assume kl: "k < 4" "l < 4"
    have "a + of_nat (4 * j + l) \<noteq> a + of_nat (4 * i + k)"
      using assms kl by (subst offset_ne) auto
    then show "a + 4 * of_nat j + of_nat l \<noteq> a + 4 * of_nat i + of_nat k" by (simp add: ac_simps)
  qed
  then show ?thesis by (simp add: ld32_def st32_def)
qed

lemma pixel_store:
  assumes g: "geometry f" and "x < unat (fb_width f)" "y < unat (fb_height f)"
    "x' < unat (fb_width f)" "y' < unat (fb_height f)"
  shows "pixel f (st32 m (fb_buffer f + 4 * of_nat (y * lfb_row f + x)) v) x' y' =
    (if x' = x \<and> y' = y then v else pixel f m x' y')"
proof -
  have lt: "y * lfb_row f + x < 2 ^ 32" "y' * lfb_row f + x' < 2 ^ 32"
    using pixel_index [OF g] assms geometry_size(3) [OF g] by fastforce+
  show ?thesis
    unfolding pixel_def using pixel_index_inj [OF g, of x x' y y'] assms ld32_st32_word [OF lt]
    by (cases "x' = x \<and> y' = y") auto
qed

lemma store_only_buffer:
  assumes g: "geometry f" and "k < unat (fb_height f) * lfb_row f"
  shows "only_buffer f m (st32 m (fb_buffer f + 4 * of_nat k) v)"
  unfolding only_buffer_def
proof (intro allI impI)
  fix a assume a: "\<not> a - fb_buffer f < ucast (fb_size f)"
  show "st32 m (fb_buffer f + 4 * of_nat k) v a = m a"
  proof (rule st32_other)
    fix j :: nat assume "j < 4"
    then have "4 * k + j < unat (fb_size f)" using assms(2) geometry_size(2) [OF g] by simp
    then have "unat (of_nat (4 * k + j) :: u64) < unat (fb_size f)"
      using unsigned_less [where w = "fb_size f" and 'a = nat] by (simp add: unat_of_nat del: of_nat_add of_nat_mult)
    moreover have "unat (ucast (fb_size f) :: u64) = unat (fb_size f)" by (rule unat_ucast_32)
    ultimately have "(of_nat (4 * k + j) :: u64) < ucast (fb_size f)"
      by (simp only: word_less_nat_alt)
    with a show "a \<noteq> fb_buffer f + 4 * of_nat k + of_nat j" by (auto simp: ac_simps)
  qed
qed

lemma only_buffer_refl [simp]: "only_buffer f m m"
  by (simp add: only_buffer_def)

lemma only_buffer_trans: "only_buffer f m m1 \<Longrightarrow> only_buffer f m1 m2 \<Longrightarrow> only_buffer f m m2"
  by (simp add: only_buffer_def)

lemma only_buffer_font: "geometry f \<Longrightarrow> only_buffer f m m' \<Longrightarrow> font_at m (fb_font f) \<Longrightarrow> font_at m' (fb_font f)"
  unfolding only_buffer_def geometry_def font_at_def by metis

text \<open>\<^verbatim>\<open>painted f m m' P C\<close>: the pixels in \<^verbatim>\<open>P\<close> got the colour \<^verbatim>\<open>C\<close>, and nothing else changed.\<close>

definition painted :: "framebuffer_struct \<Rightarrow> mem \<Rightarrow> mem \<Rightarrow> (nat \<Rightarrow> nat \<Rightarrow> bool) \<Rightarrow> (nat \<Rightarrow> nat \<Rightarrow> u32) \<Rightarrow> bool" where
  "painted f m m' P C \<longleftrightarrow> only_buffer f m m' \<and>
     (\<forall>x y. x < unat (fb_width f) \<and> y < unat (fb_height f) \<longrightarrow>
        pixel f m' x y = (if P x y then C x y else pixel f m x y))"

lemma putpixel_ok:
  assumes g: "geometry (lfb s)" and "unat x < unat (fb_width (lfb s))" "unat y < unat (fb_height (lfb s))"
  shows "\<exists>m. putpixel x y v s = s\<lparr>kmem := m\<rparr> \<and>
    painted (lfb s) (kmem s) m (\<lambda>px py. px = unat x \<and> py = unat y) (\<lambda>_ _. v)"
proof -
  let ?f = "lfb s" let ?k = "unat y * lfb_row ?f + unat x"
  have k: "?k < unat (fb_height ?f) * lfb_row ?f" by (rule pixel_index [OF g assms(2,3)])
  then have "unat (y * (fb_pitch ?f div 4) + x) = ?k"
    using geometry_size(3) [OF g] by (simp add: unat_word_ariths)
  then have "(of_nat (unat (y * (fb_pitch ?f div 4) + x)) :: u64) = of_nat ?k" by (simp only:)
  then have "(ucast (y * (fb_pitch ?f div 4) + x) :: u64) = of_nat ?k" by (simp only: of_nat_unat)
  then have "putpixel x y v s = s\<lparr>kmem := st32 (kmem s) (fb_buffer ?f + 4 * of_nat ?k) v\<rparr>"
    using assms(2,3) by (simp add: putpixel_def Let_def word_le_nat_alt)
  moreover have "painted ?f (kmem s) (st32 (kmem s) (fb_buffer ?f + 4 * of_nat ?k) v)
      (\<lambda>px py. px = unat x \<and> py = unat y) (\<lambda>_ _. v)"
    using pixel_store [OF g assms(2,3)] store_only_buffer [OF g k] by (auto simp: painted_def)
  ultimately show ?thesis by blast
qed

lemma painted_refl: "(\<And>x y. \<not> P x y) \<Longrightarrow> painted f m m P C"
  by (simp add: painted_def)

lemma painted_trans:
  assumes "painted f m m1 P C" "painted f m1 m2 Q D"
    "\<And>x y. R x y \<longleftrightarrow> P x y \<or> Q x y" "\<And>x y. Q x y \<Longrightarrow> E x y = D x y" "\<And>x y. P x y \<Longrightarrow> \<not> Q x y \<Longrightarrow> E x y = C x y"
  shows "painted f m m2 R E"
  using assms unfolding painted_def by (auto intro: only_buffer_trans)

section \<open>Drawing a character\<close>

definition glyph_bit :: "u8 \<Rightarrow> nat \<Rightarrow> nat \<Rightarrow> bool" where
  "glyph_bit c i j \<longleftrightarrow> bit (font8x16 ! (16 * unat c + i)) (7 - j)"

definition glyph_color :: "u8 \<Rightarrow> u32 \<Rightarrow> u32 \<Rightarrow> nat \<Rightarrow> nat \<Rightarrow> u32" where
  "glyph_color c fg bg i j = (if glyph_bit c i j then fg else bg)"

lemma glyph_read:
  fixes c :: u8
  assumes "font_at m a" "i < 16"
  shows "drop_bit (7 - j) (ld8 m (a + ucast c * 16 + of_nat i)) AND 1 \<noteq> 0 \<longleftrightarrow> glyph_bit c i j"
proof -
  have lt: "16 * unat c + i < 4096" using assms(2) unsigned_less [where w = c and 'a = nat] by simp
  have "a + ucast c * 16 + of_nat i = a + of_nat (16 * unat c + i)" by (simp add: ac_simps)
  then have "ld8 m (a + ucast c * 16 + of_nat i) = font8x16 ! (16 * unat c + i)"
    using assms(1) lt by (simp only: font_at_def ld8_def)
  then show ?thesis by (simp add: glyph_bit_def and_one_eq mod_2_eq_odd bit_iff_odd_drop_bit)
qed

lemma draw_row_ok:
  assumes g: "geometry (lfb s)" and font: "font_at (kmem s) (fb_font (lfb s))"
    and b: "n \<le> 8" "i < 16" "unat x + 8 \<le> unat (fb_width (lfb s))" "unat y < unat (fb_height (lfb s))"
    and f0: "fb_font (lfb s0) = fb_font (lfb s)"
  shows "\<exists>m. loop_over (\<lambda>j s.
        if 7 < j then None
        else if drop_bit (7 - j) (ld8 (kmem s) (fb_font (lfb s0) + ucast c * 16 + of_nat i)) AND 1 \<noteq> 0
        then Some (putpixel (x + of_nat j) y fg s)
        else Some (putpixel (x + of_nat j) y bg s)) [0..<n] s = Some (s\<lparr>kmem := m\<rparr>) \<and>
    painted (lfb s) (kmem s) m (\<lambda>px py. unat x \<le> px \<and> px < unat x + n \<and> py = unat y)
      (\<lambda>px py. glyph_color c fg bg i (px - unat x))"
  using b(1)
proof (induction n)
  case 0
  then show ?case by (auto intro!: exI [of _ "kmem s"] painted_refl)
next
  case (Suc n)
  then obtain m where m: "loop_over (\<lambda>j s.
        if 7 < j then None
        else if drop_bit (7 - j) (ld8 (kmem s) (fb_font (lfb s0) + ucast c * 16 + of_nat i)) AND 1 \<noteq> 0
        then Some (putpixel (x + of_nat j) y fg s)
        else Some (putpixel (x + of_nat j) y bg s)) [0..<n] s = Some (s\<lparr>kmem := m\<rparr>)"
    "painted (lfb s) (kmem s) m (\<lambda>px py. unat x \<le> px \<and> px < unat x + n \<and> py = unat y)
      (\<lambda>px py. glyph_color c fg bg i (px - unat x))" by auto
  have font1: "font_at m (fb_font (lfb s))"
    using only_buffer_font [OF g _ font] m(2) by (simp add: painted_def)
  have ux: "unat (x + of_nat n) = unat x + n"
  proof -
    have "unat x + n < 2 ^ 32" using b(3) Suc.prems unsigned_less [where w = "fb_width (lfb s)" and 'a = nat] by simp
    then show ?thesis by (simp add: unat_word_ariths unat_of_nat)
  qed
  obtain m' where m': "putpixel (x + of_nat n) y (if glyph_bit c i n then fg else bg) (s\<lparr>kmem := m\<rparr>) = s\<lparr>kmem := m'\<rparr>"
    "painted (lfb s) m m' (\<lambda>px py. px = unat x + n \<and> py = unat y) (\<lambda>_ _. glyph_color c fg bg i n)"
    using putpixel_ok [of "s\<lparr>kmem := m\<rparr>" "x + of_nat n" y "if glyph_bit c i n then fg else bg"] g b Suc.prems
    by (auto simp: ux glyph_color_def)
  have "painted (lfb s) (kmem s) m' (\<lambda>px py. unat x \<le> px \<and> px < unat x + Suc n \<and> py = unat y)
      (\<lambda>px py. glyph_color c fg bg i (px - unat x))"
    by (rule painted_trans [OF m(2) m'(2)]) auto
  moreover have "(if drop_bit (7 - n) (ld8 m (fb_font (lfb s0) + ucast c * 16 + of_nat i)) AND 1 \<noteq> 0
        then Some (putpixel (x + of_nat n) y fg (s\<lparr>kmem := m\<rparr>))
        else Some (putpixel (x + of_nat n) y bg (s\<lparr>kmem := m\<rparr>))) = Some (s\<lparr>kmem := m'\<rparr>)"
    using m'(1) glyph_read [OF font1 b(2), of n c] f0 by (auto split: if_splits)
  ultimately show ?case
    using m(1) Suc.prems by (intro exI [of _ m']) (simp add: loop_over_append)
qed

definition in_cell :: "nat \<Rightarrow> nat \<Rightarrow> nat \<Rightarrow> nat \<Rightarrow> bool" where
  "in_cell x y px py \<longleftrightarrow> x \<le> px \<and> px < x + 8 \<and> y \<le> py \<and> py < y + 16"

lemma draw_char_at_ok:
  assumes ok: "lfb_ok s" and b: "unat x + 8 \<le> unat (fb_width (lfb s))" "unat y + 16 \<le> unat (fb_height (lfb s))"
  shows "\<exists>m. draw_char_at x y c fg bg s = Some (s\<lparr>kmem := m\<rparr>) \<and>
    painted (lfb s) (kmem s) m (in_cell (unat x) (unat y)) (\<lambda>px py. glyph_color c fg bg (py - unat y) (px - unat x))"
proof -
  let ?f = "lfb s"
  have g: "geometry ?f" and font: "font_at (kmem s) (fb_font ?f)" using ok by (simp_all add: lfb_ok_def)
  have dims: "unat (fb_char_width ?f) = 8" "unat (fb_char_height ?f) = 16" "ucast (fb_char_height ?f) = (16 :: u64)" using g by (simp_all add: geometry_def)
  define row where "row = (\<lambda>i. loop_over (\<lambda>j (s :: 'a lfbstate_scheme).
        if 7 < j then None
        else if drop_bit (7 - j) (ld8 (kmem s) (fb_font ?f + ucast c * 16 + of_nat i)) AND 1 \<noteq> 0
        then Some (putpixel (x + of_nat j) (y + of_nat i) fg s)
        else Some (putpixel (x + of_nat j) (y + of_nat i) bg s)) [0..<8])"
  have rows: "\<exists>m. loop_over row [0..<n] s = Some (s\<lparr>kmem := m\<rparr>) \<and>
    painted ?f (kmem s) m (\<lambda>px py. unat x \<le> px \<and> px < unat x + 8 \<and> unat y \<le> py \<and> py < unat y + n)
      (\<lambda>px py. glyph_color c fg bg (py - unat y) (px - unat x))" if "n \<le> 16" for n
    using that
  proof (induction n)
    case 0
    then show ?case by (auto intro!: exI [of _ "kmem s"] painted_refl)
  next
    case (Suc n)
    then obtain m where m: "loop_over row [0..<n] s = Some (s\<lparr>kmem := m\<rparr>)"
      "painted ?f (kmem s) m (\<lambda>px py. unat x \<le> px \<and> px < unat x + 8 \<and> unat y \<le> py \<and> py < unat y + n)
        (\<lambda>px py. glyph_color c fg bg (py - unat y) (px - unat x))" by auto
    have font1: "font_at m (fb_font ?f)" using only_buffer_font [OF g _ font] m(2) by (simp add: painted_def)
    have uy: "unat (y + of_nat n) = unat y + n"
    proof -
      have "unat y + n < 2 ^ 32" using b(2) Suc.prems unsigned_less [where w = "fb_height ?f" and 'a = nat] by simp
      then show ?thesis by (simp add: unat_word_ariths unat_of_nat)
    qed
    let ?t = "s\<lparr>kmem := m\<rparr>"
    have "\<exists>m'. row n ?t = Some (?t\<lparr>kmem := m'\<rparr>) \<and> painted (lfb ?t) (kmem ?t) m'
        (\<lambda>px py. unat x \<le> px \<and> px < unat x + 8 \<and> py = unat (y + of_nat n))
        (\<lambda>px py. glyph_color c fg bg n (px - unat x))"
      unfolding row_def by (rule draw_row_ok) (use g font1 b Suc.prems in \<open>simp_all add: uy\<close>)
    then obtain m' where "row n ?t = Some (?t\<lparr>kmem := m'\<rparr>)" "painted (lfb ?t) (kmem ?t) m'
        (\<lambda>px py. unat x \<le> px \<and> px < unat x + 8 \<and> py = unat (y + of_nat n))
        (\<lambda>px py. glyph_color c fg bg n (px - unat x))" by blast
    then have m': "row n ?t = Some (s\<lparr>kmem := m'\<rparr>)"
      "painted ?f m m' (\<lambda>px py. unat x \<le> px \<and> px < unat x + 8 \<and> py = unat y + n)
        (\<lambda>px py. glyph_color c fg bg n (px - unat x))" by (simp_all add: uy)
    have "painted ?f (kmem s) m' (\<lambda>px py. unat x \<le> px \<and> px < unat x + 8 \<and> unat y \<le> py \<and> py < unat y + Suc n)
        (\<lambda>px py. glyph_color c fg bg (py - unat y) (px - unat x))"
      by (rule painted_trans [OF m(2) m'(2)]) auto
    with m(1) m'(1) show ?case by (intro exI [of _ m']) (simp add: loop_over_append)
  qed
  have "draw_char_at x y c fg bg s = loop_over row [0..<16] s"
    by (simp only: draw_char_at_def Let_def row_def dims)
  with rows [of 16] show ?thesis unfolding in_cell_def by (simp only: conj_assoc)
qed

section \<open>Scrolling\<close>

lemma memcpy_down:
  assumes "0 < unat l" "unat b + unat l + unat n \<le> 2 ^ 64"
  shows "i < unat n \<Longrightarrow> memcpy m b (b + l) n (b + of_nat i) = m (b + l + of_nat i)"
    "(\<And>i. i < unat n \<Longrightarrow> a \<noteq> b + of_nat i) \<Longrightarrow> memcpy m b (b + l) n a = m a"
proof -
  have ne: "b + of_nat i \<noteq> b + l + of_nat j" if "i < j" "j < unat n" for i j
  proof -
    have "b + of_nat i \<noteq> b + of_nat (unat l + j)"
      using that assms by (subst offset_ne) auto
    then show ?thesis by (simp add: ac_simps)
  qed
  have "unat n \<le> 2 ^ 64" using unsigned_less [where w = n and 'a = nat] by simp
  with ne show "i < unat n \<Longrightarrow> memcpy m b (b + l) n (b + of_nat i) = m (b + l + of_nat i)"
    "(\<And>i. i < unat n \<Longrightarrow> a \<noteq> b + of_nat i) \<Longrightarrow> memcpy m b (b + l) n a = m a"
    unfolding memcpy_def by (intro memcpy_n_get; simp)+
qed

lemma offset_less: "i < 2 ^ 64 \<Longrightarrow> (b :: u64) + of_nat i - b < n \<longleftrightarrow> i < unat n"
  by (simp add: word_less_nat_alt unat_of_nat)

lemma unat_add_64: "unat a + unat b < 2 ^ 64 \<Longrightarrow> unat (a + b) = unat a + unat b" for a b :: u64
  by (simp add: unat_word_ariths)

lemma offset_outside:
  assumes "i < unat mv" "unat mv + unat ln \<le> 2 ^ 64"
  shows "\<not> (b :: u64) + of_nat i - (b + mv) < ln"
proof
  let ?d = "b + of_nat i - (b + mv)"
  assume "?d < ln"
  then have "unat mv + unat ?d < 2 ^ 64" using assms(2) by (simp add: word_less_nat_alt)
  then have "unat (mv + ?d) = unat mv + unat ?d" by (rule unat_add_64)
  moreover have "mv + ?d = of_nat i" by simp
  moreover have "unat (of_nat i :: u64) = i"
    using assms(1) unsigned_less [where w = mv and 'a = nat] by (simp add: unat_of_nat)
  ultimately show False using assms(1) by simp
qed

lemma ld32_cong: "(\<And>k. k < 4 \<Longrightarrow> m (a + of_nat k) = m' (a' + of_nat k)) \<Longrightarrow> ld32 m a = ld32 m' a'"
proof -
  have "(\<And>k. k < n \<Longrightarrow> m (a + of_nat k) = m' (a' + of_nat k)) \<Longrightarrow> load_bytes n m a = load_bytes n m' a'" for n
  proof (induction n arbitrary: a a')
    case (Suc n)
    have "m (a + 1 + of_nat k) = m' (a' + 1 + of_nat k)" if "k < n" for k
      using Suc.prems [of "Suc k"] that by (simp add: ac_simps)
    with Suc.IH [of "a + 1" "a' + 1"] Suc.prems [of 0] show ?case by simp
  qed simp
  then show "(\<And>k. k < 4 \<Longrightarrow> m (a + of_nat k) = m' (a' + of_nat k)) \<Longrightarrow> ld32 m a = ld32 m' a'"
    unfolding ld32_def by metis
qed

lemma ld32_const_zero: "(\<And>k. k < 4 \<Longrightarrow> m (a + of_nat k) = 0) \<Longrightarrow> ld32 m a = 0"
  using ld32_cong [of m a "\<lambda>_. 0" 0] by (simp add: ld32_def load_bytes_4)

lemma lfb_scroll_ok:
  assumes ok: "lfb_ok s"
  shows "\<exists>m. lfb_scroll s = s\<lparr>kmem := m\<rparr> \<and> only_buffer (lfb s) (kmem s) m \<and>
    (\<forall>x y. x < unat (fb_width (lfb s)) \<and> y < unat (fb_height (lfb s)) \<longrightarrow>
      pixel (lfb s) m x y = (if y + 16 < unat (fb_height (lfb s)) then pixel (lfb s) (kmem s) x (y + 16) else 0))"
proof -
  let ?f = "lfb s" let ?P = "lfb_row ?f" and ?H = "unat (fb_height ?f)" and ?b = "fb_buffer ?f"
  let ?line = "fb_pitch ?f * ucast (fb_char_height ?f)" let ?move = "fb_size ?f - ?line"
  have g: "geometry ?f" using ok by (simp add: lfb_ok_def)
  note gs = geometry_size [OF g]
  have H: "16 \<le> ?H" and ch: "fb_char_height ?f = 16" and W: "unat (fb_width ?f) \<le> ?P" "8 \<le> unat (fb_width ?f)"
    using g by (simp_all add: geometry_def)
  have PH: "16 * ?P \<le> ?H * ?P" using H by simp
  have "unat (fb_pitch ?f) * 16 < 2 ^ 32" using gs(1,3) PH by linarith
  then have "unat ?line = unat (fb_pitch ?f) * 16" by (simp add: ch unat_word_ariths)
  then have line: "unat ?line = 4 * (16 * ?P)" using gs(1) by linarith
  then have le: "?line \<le> fb_size ?f" using gs PH by (simp add: word_le_nat_alt)
  then have move: "unat ?move = 4 * ((?H - 16) * ?P)"
    using line gs by (simp add: Word.unat_sub diff_mult_distrib)
  let ?m1 = "memcpy (kmem s) ?b (?b + ucast ?line) (ucast ?move)"
  let ?m = "memset ?m1 (?b + ucast ?move) 0 (ucast ?line)"
  have sum: "4 * ((?H - 16) * ?P) + 4 * (16 * ?P) = 4 * (?H * ?P)" using PH by (simp only: diff_mult_distrib)
  have fits: "0 < unat (ucast ?line :: u64)" "unat ?b + unat (ucast ?line :: u64) + unat (ucast ?move :: u64) \<le> 2 ^ 64"
    using line move sum gs(4) W by (simp_all add: unat_ucast_32)
  have ul: "(of_nat (4 * (16 * ?P)) :: u64) = ucast ?line" by (simp only: line [symmetric] of_nat_unat)
  have tot: "unat (ucast ?move :: u64) + unat (ucast ?line :: u64) \<le> 2 ^ 64" using fits(2) by linarith
  have lt: "4 * (?H * ?P) < 2 ^ 64" using gs(3) by simp
  have mem: "?m (?b + of_nat i) = (if i < 4 * ((?H - 16) * ?P) then kmem s (?b + of_nat (i + 4 * (16 * ?P))) else 0)"
    if i: "i < 4 * (?H * ?P)" for i
  proof (cases "i < 4 * ((?H - 16) * ?P)")
    case True
    have mv: "i < unat (ucast ?move :: u64)" using True by (simp only: unat_ucast_32 move)
    have "\<not> ?b + of_nat i - (?b + ucast ?move) < ucast ?line"
      by (rule offset_outside [OF mv tot])
    moreover have "?m1 (?b + of_nat i) = kmem s (?b + ucast ?line + of_nat i)" by (rule memcpy_down(1) [OF fits mv])
    moreover have "?b + ucast ?line + of_nat i = ?b + of_nat (i + 4 * (16 * ?P))" by (simp only: of_nat_add ul ac_simps)
    ultimately show ?thesis using True by (simp only: memset_get if_True if_False)
  next
    case False
    have "?b + of_nat i - (?b + ucast ?move) < ucast ?line"
    proof -
      have "?b + of_nat i - (?b + ucast ?move) = of_nat i - (ucast ?move :: u64)" by simp
      moreover have "unat (of_nat i - (ucast ?move :: u64)) = i - unat (ucast ?move :: u64)"
        using False lt i by (subst Word.unat_sub) (simp_all add: word_le_nat_alt unat_of_nat unat_ucast_32 move)
      ultimately show ?thesis using False i sum by (simp add: word_less_nat_alt unat_ucast_32 line move)
    qed
    with False show ?thesis by (simp add: memset_get)
  qed
  have pos: "4 * ((?H - 16) * ?P) = 4 * (?H * ?P) - 4 * (16 * ?P)" using sum by linarith
  have pix: "pixel ?f ?m x y = (if y + 16 < ?H then pixel ?f (kmem s) x (y + 16) else 0)"
    if xy: "x < unat (fb_width ?f)" "y < ?H" for x y
  proof -
    have ad: "?b + 4 * of_nat (y * ?P + x) + of_nat k = ?b + of_nat (4 * (y * ?P + x) + k)" for k by (simp add: ac_simps)
    have ad': "?b + 4 * of_nat ((y + 16) * ?P + x) + of_nat k = ?b + of_nat (4 * (y * ?P + x) + k + 4 * (16 * ?P))" for k
      by (simp add: algebra_simps)
    have i: "4 * (y * ?P + x) + k < 4 * (?H * ?P)" if "k < 4" for k using pixel_index [OF g xy] that by simp
    have row: "x < ?P" using xy(1) W(1) by simp
    show ?thesis
    proof (cases "y + 16 < ?H")
      case True
      then have "(y + 1) * ?P \<le> (?H - 16) * ?P" by (intro mult_le_mono1) simp
      then have "4 * (y * ?P + x) + k < 4 * ((?H - 16) * ?P)" if "k < 4" for k using row that by simp
      with True i show ?thesis unfolding pixel_def by (simp only: if_True) (rule ld32_cong, simp only: ad ad' mem if_True)
    next
      case False
      then have "(?H - 16) * ?P \<le> y * ?P" by (intro mult_le_mono1) simp
      moreover have "a \<le> b \<Longrightarrow> \<not> 4 * (b + x) + k < 4 * a" for a b k :: nat by arith
      ultimately have "\<not> 4 * (y * ?P + x) + k < 4 * ((?H - 16) * ?P)" for k by blast
      with False i show ?thesis unfolding pixel_def by (simp only: if_False) (rule ld32_const_zero, simp only: ad mem if_False)
    qed
  qed
  have "only_buffer ?f (kmem s) ?m"
    unfolding only_buffer_def
  proof (intro allI impI)
    fix a assume a: "\<not> a - ?b < ucast (fb_size ?f)"
    have ne: "a \<noteq> ?b + of_nat i" if "i < 4 * (?H * ?P)" for i
      using a that offset_less [of i ?b "ucast (fb_size ?f)"] lt gs(2) by (auto simp: unat_ucast_32)
    have "\<not> a - (?b + ucast ?move) < ucast ?line"
    proof
      assume l: "a - (?b + ucast ?move) < ucast ?line"
      let ?j = "unat (a - (?b + ucast ?move))"
      have "?j < 4 * (16 * ?P)" using l by (simp add: word_less_nat_alt unat_ucast_32 line)
      then have "unat (ucast ?move :: u64) + ?j < 4 * (?H * ?P)" using sum by (simp add: unat_ucast_32 move)
      moreover have "a = ?b + of_nat (unat (ucast ?move :: u64) + ?j)" by simp
      ultimately show False using ne by blast
    qed
    moreover have "?m1 a = kmem s a" by (rule memcpy_down(2) [OF fits]) (use ne sum in \<open>simp add: unat_ucast_32 move\<close>)
    ultimately show "?m a = kmem s a" by (simp add: memset_get)
  qed
  with pix show ?thesis by (intro exI [of _ ?m]) (simp add: lfb_scroll_def Let_def)
qed

section \<open>The text terminal\<close>

text \<open>The abstract console: a grid of character codes, where 0 is a blank, and the cursor.\<close>

record terminal =
  cells :: "nat \<Rightarrow> nat \<Rightarrow> u8"
  term_row :: nat
  term_col :: nat

definition term_wrap :: "nat \<Rightarrow> nat \<Rightarrow> terminal \<Rightarrow> terminal" where
  "term_wrap rows cols t =
     (let t1 = (if cols \<le> term_col t then t\<lparr>term_col := 0, term_row := Suc (term_row t)\<rparr> else t)
      in if rows \<le> term_row t1
         then t1\<lparr>cells := (\<lambda>r c. if Suc r < rows then cells t1 (Suc r) c else 0), term_row := term_row t1 - 1\<rparr>
         else t1)"

definition term_put :: "nat \<Rightarrow> nat \<Rightarrow> u8 \<Rightarrow> terminal \<Rightarrow> terminal" where
  "term_put rows cols c t =
     term_wrap rows cols
       (if c = 0x0A then t\<lparr>term_col := 0, term_row := Suc (term_row t)\<rparr>
        else t\<lparr>cells := (cells t)(term_row t := (cells t (term_row t))(term_col t := c)), term_col := Suc (term_col t)\<rparr>)"

abbreviation text_rows :: "framebuffer_struct \<Rightarrow> nat" where "text_rows f \<equiv> unat (fb_height f) div 16"
abbreviation text_cols :: "framebuffer_struct \<Rightarrow> nat" where "text_cols f \<equiv> unat (fb_width f) div 8"

text \<open>The pixels of the back buffer show the grid, white on black; beyond the grid they are black.\<close>

definition displays :: "framebuffer_struct \<Rightarrow> mem \<Rightarrow> (nat \<Rightarrow> nat \<Rightarrow> u8) \<Rightarrow> bool" where
  "displays f m g \<longleftrightarrow> (\<forall>x y. x < unat (fb_width f) \<and> y < unat (fb_height f) \<longrightarrow>
     pixel f m x y =
       (if y div 16 < text_rows f \<and> x div 8 < text_cols f
        then glyph_color (g (y div 16) (x div 8)) 0xFFFFFFFF 0 (y mod 16) (x mod 8) else 0))"

definition shows_term :: "'a lfbstate_scheme \<Rightarrow> terminal \<Rightarrow> bool" where
  "shows_term s t \<longleftrightarrow> lfb_ok s \<and> displays (lfb s) (kmem s) (cells t) \<and>
     term_row t < text_rows (lfb s) \<and> term_col t < text_cols (lfb s) \<and>
     unat (fb_cursor_x (lfb s)) = 8 * term_col t \<and> unat (fb_cursor_y (lfb s)) = 16 * term_row t"

text \<open>The cursor may be one cell beyond the grid between the steps of \<^verbatim>\<open>kputchar_direct\<close>.\<close>

definition shows_loose :: "'a lfbstate_scheme \<Rightarrow> terminal \<Rightarrow> bool" where
  "shows_loose s t \<longleftrightarrow> lfb_ok s \<and> displays (lfb s) (kmem s) (cells t) \<and>
     term_row t \<le> text_rows (lfb s) \<and> term_col t \<le> text_cols (lfb s) \<and>
     (term_row t = text_rows (lfb s) \<longrightarrow> term_col t < text_cols (lfb s)) \<and>
     unat (fb_cursor_x (lfb s)) = 8 * term_col t \<and> unat (fb_cursor_y (lfb s)) = 16 * term_row t"

lemma glyph_blank: "glyph_color 0 fg 0 i j = 0" if "i < 16"
proof -
  obtain gs where e: "font_rows = 0 # gs" by (simp add: font_rows_def)
  have f: "font8x16 = glyph_bytes 0 @ concat (map glyph_bytes (gs @ replicate 128 0))"
    by (simp only: font8x16_def e append_Cons list.map concat.simps)
  have len: "length (glyph_bytes 0) = 16" by (simp add: glyph_bytes_def del: upt_rec_numeral)
  have "font8x16 ! i = glyph_bytes 0 ! i" unfolding f using that by (simp only: nth_append len if_True)
  also have "\<dots> = 0" using that by (simp add: glyph_bytes_def del: upt_rec_numeral)
  finally show ?thesis by (simp add: glyph_color_def glyph_bit_def)
qed

lemma draw_displays:
  assumes p: "painted f m m' (in_cell (8 * c) (16 * r)) (\<lambda>px py. glyph_color ch 0xFFFFFFFF 0 (py - 16 * r) (px - 8 * c))"
    and d: "displays f m g" and rc: "r < text_rows f" "c < text_cols f"
  shows "displays f m' (g(r := (g r)(c := ch)))"
  unfolding displays_def
proof (intro allI impI)
  fix x y assume xy: "x < unat (fb_width f) \<and> y < unat (fb_height f)"
  have cell: "in_cell (8 * c) (16 * r) x y \<longleftrightarrow> y div 16 = r \<and> x div 8 = c"
  proof -
    have "8 * c \<le> x \<and> x < 8 * c + 8 \<longleftrightarrow> x div 8 = c" "16 * r \<le> y \<and> y < 16 * r + 16 \<longleftrightarrow> y div 16 = r" by arith+
    then show ?thesis unfolding in_cell_def by blast
  qed
  show "pixel f m' x y = (if y div 16 < text_rows f \<and> x div 8 < text_cols f
      then glyph_color ((g(r := (g r)(c := ch))) (y div 16) (x div 8)) 0xFFFFFFFF 0 (y mod 16) (x mod 8) else 0)"
  proof (cases "in_cell (8 * c) (16 * r) x y")
    case True
    then have "pixel f m' x y = glyph_color ch 0xFFFFFFFF 0 (y - 16 * r) (x - 8 * c)"
      using p xy unfolding painted_def by presburger
    moreover have "y - 16 * r = y mod 16" "x - 8 * c = x mod 8" "y div 16 = r" "x div 8 = c"
      using True unfolding cell by (simp_all only: minus_mult_div_eq_mod [of y 16, symmetric] minus_mult_div_eq_mod [of x 8, symmetric])
    ultimately show ?thesis using rc by (simp only: fun_upd_same if_True simp_thms)
  next
    case False
    then have "pixel f m' x y = pixel f m x y" using p xy unfolding painted_def by presburger
    moreover have "(g(r := (g r)(c := ch))) (y div 16) (x div 8) = g (y div 16) (x div 8)"
      using False unfolding cell by (auto simp only: fun_upd_apply split: if_split)
    ultimately show ?thesis using d xy unfolding displays_def by (simp only: simp_thms)
  qed
qed

lemma scroll_displays:
  assumes p: "\<forall>x y. x < unat (fb_width f) \<and> y < unat (fb_height f) \<longrightarrow>
      pixel f m' x y = (if y + 16 < unat (fb_height f) then pixel f m x (y + 16) else 0)"
    and d: "displays f m g"
  shows "displays f m' (\<lambda>r c. if Suc r < text_rows f then g (Suc r) c else 0)"
  unfolding displays_def
proof (intro allI impI)
  fix x y assume xy: "x < unat (fb_width f) \<and> y < unat (fb_height f)"
  have s: "(y + 16) div 16 = Suc (y div 16)" "(y + 16) mod 16 = y mod 16" by simp_all
  show "pixel f m' x y = (if y div 16 < text_rows f \<and> x div 8 < text_cols f
      then glyph_color (if Suc (y div 16) < text_rows f then g (Suc (y div 16)) (x div 8) else 0)
        0xFFFFFFFF 0 (y mod 16) (x mod 8) else 0)"
  proof (cases "y + 16 < unat (fb_height f)")
    case True
    then have "pixel f m' x y = pixel f m x (y + 16)" using p xy by simp
    also have "\<dots> = (if Suc (y div 16) < text_rows f \<and> x div 8 < text_cols f
        then glyph_color (g (Suc (y div 16)) (x div 8)) 0xFFFFFFFF 0 (y mod 16) (x mod 8) else 0)"
      using d xy True unfolding displays_def by (simp add: s)
    finally show ?thesis by (auto simp: glyph_blank)
  next
    case False
    then have "text_rows f \<le> (y + 16) div 16" by (intro div_le_mono) simp
    then have "\<not> Suc (y div 16) < text_rows f" by (simp only: s not_less)
    moreover have "pixel f m' x y = 0" using p xy False by simp
    ultimately show ?thesis by (simp add: glyph_blank)
  qed
qed

lemma lfb_ok_cursor [simp]: "lfb_ok (set_cursor x y s) = lfb_ok s"
  by (simp add: lfb_ok_def set_cursor_def geometry_def)

lemma set_cursor_fields [simp]:
  "kmem (set_cursor x y s) = kmem s" "lfb (set_cursor x y s) = (lfb s)\<lparr>fb_cursor_x := x, fb_cursor_y := y\<rparr>"
  by (simp_all add: set_cursor_def)

lemma displays_cursor [simp]:
  "displays (f\<lparr>fb_cursor_x := x\<rparr>) m g = displays f m g" "displays (f\<lparr>fb_cursor_y := y\<rparr>) m g = displays f m g"
  by (simp_all add: displays_def pixel_def)

lemma only_buffer_cursor [simp]: "only_buffer (f\<lparr>fb_cursor_x := x, fb_cursor_y := y\<rparr>) m m' = only_buffer f m m'"
  by (simp add: only_buffer_def)

text \<open>Only the console and the bytes of its buffer differ.\<close>

definition lfb_only :: "'a lfbstate_scheme \<Rightarrow> 'a lfbstate_scheme \<Rightarrow> bool" where
  "lfb_only s s' \<longleftrightarrow> only_buffer (lfb s) (kmem s) (kmem s') \<and>
     lfb s' = (lfb s)\<lparr>fb_cursor_x := fb_cursor_x (lfb s'), fb_cursor_y := fb_cursor_y (lfb s')\<rparr> \<and>
     s' = s\<lparr>kmem := kmem s', lfb := lfb s'\<rparr>"

lemma geometry_dims:
  assumes "geometry f"
  shows "unat (fb_width f) < 2 ^ 30" "unat (fb_height f) < 2 ^ 30"
proof -
  let ?W = "unat (fb_width f)" and ?H = "unat (fb_height f)" and ?P = "lfb_row f"
  have b: "8 \<le> ?W" "?W \<le> ?P" "16 \<le> ?H" and p: "4 * (?H * ?P) < 2 ^ 32"
    using assms geometry_size(3) [OF assms] by (simp_all add: geometry_def)
  have "1 \<le> ?H" "1 \<le> ?P" using b by simp_all
  from mult_le_mono1 [OF this(1), of ?P] mult_le_mono2 [OF this(2), of ?H]
  have le: "?P \<le> ?H * ?P" "?H \<le> ?H * ?P" by (simp_all only: mult_1 mult_1_right)
  have "?H * ?P < 2 ^ 30" using p by simp
  with le b(2) show "?W < 2 ^ 30" "?H < 2 ^ 30" by (blast intro: le_less_trans)+
qed

lemma lfb_only_refl [simp]: "lfb_only s s"
  by (simp add: lfb_only_def)

lemma lfb_only_cursor [simp]: "lfb_only s (set_cursor x y s)"
  by (simp add: lfb_only_def set_cursor_def)

lemma lfb_only_trans:
  assumes "lfb_only s s1" "lfb_only s1 s2"
  shows "lfb_only s s2"
proof -
  have l: "lfb s1 = (lfb s)\<lparr>fb_cursor_x := fb_cursor_x (lfb s1), fb_cursor_y := fb_cursor_y (lfb s1)\<rparr>"
    using assms(1) by (simp add: lfb_only_def)
  have "only_buffer (lfb s) (kmem s1) (kmem s2)"
    using assms(2) unfolding lfb_only_def by (subst (asm) l) simp
  moreover have "lfb s2 = (lfb s)\<lparr>fb_cursor_x := fb_cursor_x (lfb s2), fb_cursor_y := fb_cursor_y (lfb s2)\<rparr>"
  proof -
    have "lfb s2 = (lfb s1)\<lparr>fb_cursor_x := fb_cursor_x (lfb s2), fb_cursor_y := fb_cursor_y (lfb s2)\<rparr>"
      using assms(2) by (simp add: lfb_only_def)
    then show ?thesis by (subst (asm) l) simp
  qed
  moreover have "s2 = s\<lparr>kmem := kmem s2, lfb := lfb s2\<rparr>"
  proof -
    have "s1 = s\<lparr>kmem := kmem s1, lfb := lfb s1\<rparr>" "s2 = s1\<lparr>kmem := kmem s2, lfb := lfb s2\<rparr>"
      using assms by (simp_all add: lfb_only_def)
    then have "s2 = s\<lparr>kmem := kmem s1, lfb := lfb s1\<rparr>\<lparr>kmem := kmem s2, lfb := lfb s2\<rparr>" by metis
    then show ?thesis by simp
  qed
  ultimately show ?thesis using assms(1) by (auto simp: lfb_only_def intro: only_buffer_trans)
qed

lemma lfb_only_fields:
  assumes "lfb_only s s'"
  shows "fb_width (lfb s') = fb_width (lfb s)" "fb_height (lfb s') = fb_height (lfb s)"
    "fb_char_width (lfb s') = fb_char_width (lfb s)" "fb_char_height (lfb s') = fb_char_height (lfb s)"
    "fb_buffer (lfb s') = fb_buffer (lfb s)" "fb_size (lfb s') = fb_size (lfb s)" "fb_vram (lfb s') = fb_vram (lfb s)"
proof -
  have "lfb s' = (lfb s)\<lparr>fb_cursor_x := fb_cursor_x (lfb s'), fb_cursor_y := fb_cursor_y (lfb s')\<rparr>"
    using assms by (simp add: lfb_only_def)
  from arg_cong [OF this, of fb_width] arg_cong [OF this, of fb_height] arg_cong [OF this, of fb_char_width]
    arg_cong [OF this, of fb_char_height] arg_cong [OF this, of fb_buffer] arg_cong [OF this, of fb_size] arg_cong [OF this, of fb_vram]
  show "fb_width (lfb s') = fb_width (lfb s)" "fb_height (lfb s') = fb_height (lfb s)"
    "fb_char_width (lfb s') = fb_char_width (lfb s)" "fb_char_height (lfb s') = fb_char_height (lfb s)"
    "fb_buffer (lfb s') = fb_buffer (lfb s)" "fb_size (lfb s') = fb_size (lfb s)" "fb_vram (lfb s') = fb_vram (lfb s)"
    by simp_all
qed

lemma scroll_shows:
  assumes "shows_loose s t" "term_row t = text_rows (lfb s)"
  shows "\<exists>m. lfb_scroll s = s\<lparr>kmem := m\<rparr> \<and> only_buffer (lfb s) (kmem s) m \<and> lfb_ok (s\<lparr>kmem := m\<rparr>) \<and>
    displays (lfb s) m (\<lambda>r c. if Suc r < text_rows (lfb s) then cells t (Suc r) c else 0)"
proof -
  have ok: "lfb_ok s" using assms by (simp add: shows_loose_def)
  obtain m where m: "lfb_scroll s = s\<lparr>kmem := m\<rparr>" "only_buffer (lfb s) (kmem s) m"
    "\<forall>x y. x < unat (fb_width (lfb s)) \<and> y < unat (fb_height (lfb s)) \<longrightarrow>
      pixel (lfb s) m x y = (if y + 16 < unat (fb_height (lfb s)) then pixel (lfb s) (kmem s) x (y + 16) else 0)"
    using lfb_scroll_ok [OF ok] by blast
  have "displays (lfb s) (kmem s) (cells t)" using assms by (simp add: shows_loose_def)
  from scroll_displays [OF m(3) this] m(1,2) ok only_buffer_font [OF _ m(2)] show ?thesis
    by (intro exI [of _ m]) (simp add: lfb_ok_def)
qed

lemma kputchar_wrap_ok:
  assumes l: "shows_loose s t"
  shows "shows_term (kputchar_wrap s) (term_wrap (text_rows (lfb s)) (text_cols (lfb s)) t)" "lfb_only s (kputchar_wrap s)"
proof -
  let ?W = "unat (fb_width (lfb s))" and ?H = "unat (fb_height (lfb s))"
  have ok: "lfb_ok s" and g: "geometry (lfb s)" using l by (simp_all add: shows_loose_def lfb_ok_def)
  have cw: "ucast (fb_char_width (lfb s)) = (8 :: u32)" "ucast (fb_char_height (lfb s)) = (16 :: u32)"
    using g by (simp_all add: geometry_def)
  have b: "?W < 2 ^ 30" "?H < 2 ^ 30" "1 \<le> ?W div 8" "1 \<le> ?H div 16"
    using geometry_dims [OF g] g by (simp_all add: geometry_def Suc_le_eq div_greater_zero_iff)
  have cur: "unat (fb_cursor_x (lfb s)) = 8 * term_col t" "unat (fb_cursor_y (lfb s)) = 16 * term_row t"
    "term_col t \<le> ?W div 8" "term_row t \<le> ?H div 16"
    using l by (simp_all add: shows_loose_def)
  have "8 * (?W div 8) \<le> ?W" "16 * (?H div 16) \<le> ?H" by simp_all
  with cur b have small: "8 * term_col t + 8 < 2 ^ 32" "16 * term_row t + 32 < 2 ^ 32" by simp_all
  have x: "fb_width (lfb s) < fb_cursor_x (lfb s) + 8 \<longleftrightarrow> ?W div 8 \<le> term_col t"
  proof -
    have "unat (fb_cursor_x (lfb s) + 8) = 8 * term_col t + 8" using small cur by (simp add: unat_word_ariths)
    then have "fb_width (lfb s) < fb_cursor_x (lfb s) + 8 \<longleftrightarrow> ?W < 8 * term_col t + 8" by (simp only: word_less_nat_alt)
    also have "\<dots> \<longleftrightarrow> ?W div 8 \<le> term_col t" by arith
    finally show ?thesis .
  qed
  define s1 where "s1 = (if fb_width (lfb s) < fb_cursor_x (lfb s) + 8 then set_cursor 0 (fb_cursor_y (lfb s) + 16) s else s)"
  define t1 where "t1 = (if ?W div 8 \<le> term_col t then t\<lparr>term_col := 0, term_row := Suc (term_row t)\<rparr> else t)"
  have uy: "unat (fb_cursor_y (lfb s) + 16) = 16 * term_row t + 16" using small cur by (simp add: unat_word_ariths)
  have o1: "lfb_only s s1" by (simp add: s1_def)
  have s1: "shows_loose s1 t1"
  proof (cases "?W div 8 \<le> term_col t")
    case True
    then have "term_row t < ?H div 16" using l by (auto simp: shows_loose_def)
    with True l b show ?thesis by (simp add: shows_loose_def s1_def t1_def x uy)
  next
    case False
    with l show ?thesis by (simp add: s1_def t1_def x)
  qed
  have f1: "fb_width (lfb s1) = fb_width (lfb s)" "fb_height (lfb s1) = fb_height (lfb s)" "term_col t1 < ?W div 8"
    using b by (auto simp: s1_def t1_def)
  have cur1: "unat (fb_cursor_y (lfb s1)) = 16 * term_row t1" "term_row t1 \<le> ?H div 16"
    using s1 f1 by (simp_all add: shows_loose_def)
  have y: "fb_height (lfb s1) < fb_cursor_y (lfb s1) + 16 \<longleftrightarrow> ?H div 16 \<le> term_row t1"
  proof -
    have "16 * (?H div 16) \<le> ?H" by simp
    with cur1 b have "16 * term_row t1 + 16 < 2 ^ 32" by simp
    then have "unat (fb_cursor_y (lfb s1) + 16) = 16 * term_row t1 + 16" using cur1 by (simp add: unat_word_ariths)
    then have "fb_height (lfb s1) < fb_cursor_y (lfb s1) + 16 \<longleftrightarrow> ?H < 16 * term_row t1 + 16"
      by (simp only: word_less_nat_alt f1)
    also have "\<dots> \<longleftrightarrow> ?H div 16 \<le> term_row t1" by arith
    finally show ?thesis .
  qed
  have wrap: "kputchar_wrap s = (if ?H div 16 \<le> term_row t1 then let s2 = lfb_scroll s1
      in set_cursor (fb_cursor_x (lfb s2)) (fb_cursor_y (lfb s2) - ucast (fb_char_height (lfb s2))) s2 else s1)"
    unfolding kputchar_wrap_def Let_def cw using lfb_only_fields(4) [OF o1] cw(2)
    by (simp only: s1_def [symmetric] y)
  have tw: "term_wrap (?H div 16) (?W div 8) t = (if ?H div 16 \<le> term_row t1 then
      t1\<lparr>cells := (\<lambda>r c. if Suc r < ?H div 16 then cells t1 (Suc r) c else 0), term_row := term_row t1 - 1\<rparr> else t1)"
    by (simp only: term_wrap_def Let_def t1_def [symmetric])
  have "shows_term (kputchar_wrap s) (term_wrap (?H div 16) (?W div 8) t) \<and> lfb_only s (kputchar_wrap s)"
  proof (cases "?H div 16 \<le> term_row t1")
    case True
    then have "term_row t1 = text_rows (lfb s1)" using cur1(2) f1 by simp
    from scroll_shows [OF s1 this] obtain m where m: "lfb_scroll s1 = s1\<lparr>kmem := m\<rparr>"
      "only_buffer (lfb s1) (kmem s1) m" "lfb_ok (s1\<lparr>kmem := m\<rparr>)"
      "displays (lfb s1) m (\<lambda>r c. if Suc r < text_rows (lfb s1) then cells t1 (Suc r) c else 0)" by blast
    let ?s2 = "set_cursor (fb_cursor_x (lfb s1)) (fb_cursor_y (lfb s1) - 16) (s1\<lparr>kmem := m\<rparr>)"
    have k: "kputchar_wrap s = ?s2"
      using True m(1) wrap lfb_only_fields(4) [OF o1] cw(2) by simp
    have "unat (fb_cursor_y (lfb s1) - 16) = 16 * (term_row t1 - 1)"
      using cur1 True b by (subst Word.unat_sub) (simp_all add: word_le_nat_alt diff_mult_distrib2)
    moreover have "lfb_only s1 ?s2" using m(2) by (simp add: lfb_only_def set_cursor_def)
    ultimately show ?thesis
      using True m(3,4) s1 f1 b lfb_only_trans [OF o1, of ?s2] unfolding k tw
      by (simp add: shows_term_def shows_loose_def)
  next
    case False
    with s1 f1 o1 show ?thesis unfolding wrap tw by (simp add: shows_term_def shows_loose_def)
  qed
  then show "shows_term (kputchar_wrap s) (term_wrap (?H div 16) (?W div 8) t)" "lfb_only s (kputchar_wrap s)" by simp_all
qed

lemma kputchar_direct_shows:
  assumes t: "shows_term s t"
  shows "\<exists>s'. kputchar_direct c s = Some s' \<and> lfb_only s s' \<and>
    shows_term s' (term_put (text_rows (lfb s)) (text_cols (lfb s)) c t)"
proof -
  let ?W = "unat (fb_width (lfb s))" and ?H = "unat (fb_height (lfb s))"
  have ok: "lfb_ok s" and g: "geometry (lfb s)" using t by (simp_all add: shows_term_def lfb_ok_def)
  have cw: "ucast (fb_char_width (lfb s)) = (8 :: u32)" "ucast (fb_char_height (lfb s)) = (16 :: u32)"
    using g by (simp_all add: geometry_def)
  have cur: "unat (fb_cursor_x (lfb s)) = 8 * term_col t" "unat (fb_cursor_y (lfb s)) = 16 * term_row t"
    "term_col t < ?W div 8" "term_row t < ?H div 16"
    using t by (simp_all add: shows_term_def)
  have d: "displays (lfb s) (kmem s) (cells t)" using t by (simp add: shows_term_def)
  have "8 * (?W div 8) \<le> ?W" "16 * (?H div 16) \<le> ?H" by simp_all
  with cur geometry_dims [OF g] have in_screen: "8 * term_col t + 8 \<le> ?W" "16 * term_row t + 16 \<le> ?H"
    and small: "8 * term_col t + 8 < 2 ^ 32" "16 * term_row t + 16 < 2 ^ 32" by simp_all
  have ux: "unat (fb_cursor_x (lfb s) + 8) = 8 * term_col t + 8" and uy: "unat (fb_cursor_y (lfb s) + 16) = 16 * term_row t + 16"
    using small cur by (simp_all add: unat_word_ariths)
  show ?thesis
  proof (cases "c = 0x0A")
    case True
    let ?s1 = "set_cursor 0 (fb_cursor_y (lfb s) + 16) s" and ?t1 = "t\<lparr>term_col := 0, term_row := Suc (term_row t)\<rparr>"
    have "shows_loose ?s1 ?t1" using ok d cur uy by (auto simp: shows_loose_def)
    from kputchar_wrap_ok [OF this] True show ?thesis
      using lfb_only_trans [of s ?s1] by (simp add: kputchar_direct_def term_put_def cw)
  next
    case False
    obtain m where m: "draw_char_at (fb_cursor_x (lfb s)) (fb_cursor_y (lfb s)) c 0xFFFFFFFF 0 s = Some (s\<lparr>kmem := m\<rparr>)"
      "painted (lfb s) (kmem s) m (in_cell (8 * term_col t) (16 * term_row t))
        (\<lambda>px py. glyph_color c 0xFFFFFFFF 0 (py - 16 * term_row t) (px - 8 * term_col t))"
      using draw_char_at_ok [OF ok, of "fb_cursor_x (lfb s)" "fb_cursor_y (lfb s)" c "0xFFFFFFFF" 0] in_screen cur
      by (simp only:) blast
    let ?t1 = "t\<lparr>cells := (cells t)(term_row t := (cells t (term_row t))(term_col t := c)), term_col := Suc (term_col t)\<rparr>"
    let ?s1 = "set_cursor (fb_cursor_x (lfb s) + 8) (fb_cursor_y (lfb s)) (s\<lparr>kmem := m\<rparr>)"
    have ob: "only_buffer (lfb s) (kmem s) m" using m(2) by (simp add: painted_def)
    have ok1: "lfb_ok (s\<lparr>kmem := m\<rparr>)" using ok only_buffer_font [OF g ob] by (simp add: lfb_ok_def)
    have "displays (lfb s) m (cells ?t1)" using draw_displays [OF m(2) d cur(4,3)] by simp
    then have "shows_loose ?s1 ?t1" using ok1 cur ux by (simp add: shows_loose_def)
    from kputchar_wrap_ok [OF this] False m(1) ob show ?thesis
      using lfb_only_trans [of s ?s1] by (simp add: kputchar_direct_def term_put_def cw lfb_only_def set_cursor_def)
  qed
qed

section \<open>Character sinks\<close>

text \<open>
  What the printing code relies on: an operation that puts a character and advances an abstract
  terminal by \<^verbatim>\<open>step\<close>, changing nothing but what \<^verbatim>\<open>only\<close> allows.
\<close>

locale char_sink =
  fixes put :: "u8 \<Rightarrow> 's \<Rightarrow> 's option" and shown :: "'s \<Rightarrow> 't \<Rightarrow> bool" and step :: "u8 \<Rightarrow> 't \<Rightarrow> 't"
    and only :: "'s \<Rightarrow> 's \<Rightarrow> bool"
  assumes put_ok: "shown s t \<Longrightarrow> \<exists>s'. put c s = Some s' \<and> only s s' \<and> shown s' (step c t)"
    and only_refl: "only s s"
    and only_trans: "only s s1 \<Longrightarrow> only s1 s2 \<Longrightarrow> only s s2"
begin

lemma puts_ok:
  "shown s t \<Longrightarrow> \<exists>s'. loop_over (\<lambda>x. put (f x)) xs s = Some s' \<and> only s s' \<and> shown s' (fold step (map f xs) t)"
proof (induction xs arbitrary: s t)
  case Nil
  then show ?case using only_refl by simp
next
  case (Cons x xs)
  obtain s1 where s1: "put (f x) s = Some s1" "only s s1" "shown s1 (step (f x) t)" using put_ok [OF Cons.prems] by blast
  from Cons.IH [OF s1(3)] s1(1) only_trans [OF s1(2)] show ?case by auto
qed

end

definition shows_screen :: "nat \<Rightarrow> nat \<Rightarrow> 'a lfbstate_scheme \<Rightarrow> terminal \<Rightarrow> bool" where
  "shows_screen rows cols s t \<longleftrightarrow> shows_term s t \<and> text_rows (lfb s) = rows \<and> text_cols (lfb s) = cols"

interpretation console: char_sink kputchar_direct "shows_screen rows cols" "term_put rows cols" lfb_only
proof
  show "\<exists>s'. kputchar_direct c s = Some s' \<and> lfb_only s s' \<and> shows_screen rows cols s' (term_put rows cols c t)"
    if sh: "shows_screen rows cols s t" for s :: "'a lfbstate_scheme" and t c
  proof -
    obtain s' where s': "kputchar_direct c s = Some s'" "lfb_only s s'" "shows_term s' (term_put rows cols c t)"
      using kputchar_direct_shows [of s t c] sh unfolding shows_screen_def by blast
    moreover have "shows_screen rows cols s' (term_put rows cols c t)"
      using s'(3) sh unfolding shows_screen_def lfb_only_fields [OF s'(2)] by blast
    ultimately show ?thesis by blast
  qed
qed (simp_all add: lfb_only_trans [rotated])

text \<open>Copying the back buffer makes the video memory show the same pixels.\<close>

definition vram_apart :: "framebuffer_struct \<Rightarrow> bool" where
  "vram_apart f \<longleftrightarrow> unat (fb_buffer f) + unat (fb_size f) \<le> unat (fb_vram f) \<and> unat (fb_vram f) + unat (fb_size f) \<le> 2 ^ 64"

lemma vram_order:
  assumes "vram_apart f" "i < j" "j < unat (fb_size f)"
  shows "fb_vram f + of_nat i \<noteq> fb_buffer f + of_nat j"
proof
  have u: "unat (of_nat i :: u64) = i" "unat (of_nat j :: u64) = j"
    using assms unsigned_less [where w = "fb_size f" and 'a = nat] by (simp_all add: unat_of_nat)
  have "unat (fb_vram f + of_nat i) = unat (fb_vram f) + i" "unat (fb_buffer f + of_nat j) = unat (fb_buffer f) + j"
    using assms unsigned_less [where w = "fb_vram f" and 'a = nat]
    by (subst unat_add_64; simp only: u; simp add: vram_apart_def)+
  moreover assume "fb_vram f + of_nat i = fb_buffer f + of_nat j"
  ultimately show False using assms by (simp add: vram_apart_def)
qed

lemma lfb_swap_copies:
  assumes "vram_apart (lfb s)" "k < unat (fb_size (lfb s))"
  shows "kmem (lfb_swap s) (fb_vram (lfb s) + of_nat k) = kmem s (fb_buffer (lfb s) + of_nat k)"
  using vram_order [OF assms(1)] assms(2) unsigned_less [where w = "fb_size (lfb s)" and 'a = nat]
  by (simp add: lfb_swap_def memcpy_def unat_ucast_32 memcpy_n_get(1))

lemma lfb_swap_outside:
  assumes "vram_apart (lfb s)" "\<not> a - fb_vram (lfb s) < ucast (fb_size (lfb s))"
  shows "kmem (lfb_swap s) a = kmem s a"
proof -
  let ?f = "lfb s"
  have "a \<noteq> fb_vram ?f + of_nat i" if "i < unat (fb_size ?f)" for i
    using assms(2) that unsigned_less [where w = "fb_size ?f" and 'a = nat] offset_less [of i "fb_vram ?f" "ucast (fb_size ?f)"]
    by (auto simp: unat_ucast_32)
  then show ?thesis
    using vram_order [OF assms(1)] unsigned_less [where w = "fb_size ?f" and 'a = nat]
    by (simp add: lfb_swap_def memcpy_def unat_ucast_32 memcpy_n_get(2))
qed

lemma vram_not_buffer:
  assumes a: "vram_apart f" and b: "b - fb_buffer f < ucast (fb_size f)"
  shows "\<not> b - fb_vram f < ucast (fb_size f)"
proof
  assume v: "b - fb_vram f < ucast (fb_size f)"
  let ?x = "b - fb_buffer f" and ?y = "b - fb_vram f"
  have lt: "unat ?x < unat (fb_size f)" "unat ?y < unat (fb_size f)"
    using b v by (simp_all add: word_less_nat_alt unat_ucast_32)
  have "unat (fb_buffer f + ?x) = unat (fb_buffer f) + unat ?x" "unat (fb_vram f + ?y) = unat (fb_vram f) + unat ?y"
    using a lt unsigned_less [where w = "fb_vram f" and 'a = nat] by (intro unat_add_64; simp add: vram_apart_def)+
  with lt a show False by (simp add: vram_apart_def)
qed

section \<open>Properties\<close>

text \<open>
  C19: The framebuffer refines a text terminal: when the back buffer shows a terminal, \<^verbatim>\<open>kputchar_direct\<close>
  returns, writes nothing outside the back buffer, and the buffer then shows the terminal after the
  same character, with the wrap at the right edge and the scrolling at the lower one.
\<close>

theorem kputchar_direct_terminal:
  assumes "shows_term s t"
  shows "\<exists>s'. kputchar_direct c s = Some s' \<and> shows_term s' (term_put (text_rows (lfb s)) (text_cols (lfb s)) c t) \<and>
    only_buffer (lfb s) (kmem s) (kmem s')"
proof -
  obtain s' where "kputchar_direct c s = Some s'" "lfb_only s s'"
    "shows_term s' (term_put (text_rows (lfb s)) (text_cols (lfb s)) c t)" using kputchar_direct_shows [OF assms] by blast
  then show ?thesis by (auto simp: lfb_only_def)
qed

text \<open>A screen of 2 rows and 2 columns.\<close>

definition lfb_example :: lfbstate where
  "lfb_example = (usstate.extend us_example
     \<lparr>lfb = \<lparr>fb_vram = 0x400000, fb_buffer = 0x100000, fb_paddr = 0, fb_width = 16, fb_height = 32, fb_pitch = 64,
        fb_size = 2048, fb_font = 0x200000, fb_char_width = 8, fb_char_height = 16, fb_cursor_x = 0, fb_cursor_y = 0\<rparr>\<rparr>)
     \<lparr>kmem := (\<lambda>a. if a - 0x200000 < 0x1000 then font8x16 ! unat (a - 0x200000) else 0)\<rparr>"

definition blank_terminal :: terminal where
  "blank_terminal = \<lparr>cells = (\<lambda>_ _. 0), term_row = 0, term_col = 0\<rparr>"

lemma lfb_example_shows: "shows_term lfb_example blank_terminal"
proof -
  let ?f = "lfb lfb_example" let ?m = "kmem lfb_example"
  have f: "fb_width ?f = 16" "fb_height ?f = 32" "fb_pitch ?f = 64" "fb_buffer ?f = 0x100000" "fb_size ?f = 2048"
    "fb_char_width ?f = 8" "fb_char_height ?f = 16" "fb_font ?f = 0x200000" "fb_cursor_x ?f = 0" "fb_cursor_y ?f = 0"
    by (simp_all add: lfb_example_def usstate.defs)
  have m: "?m a = (if a - 0x200000 < 0x1000 then font8x16 ! unat (a - 0x200000) else 0)" for a
    by (simp add: lfb_example_def usstate.defs)
  have small: "unat (of_nat i :: u64) = i" if "i < 4096" for i using that by (simp add: unat_of_nat)
  have "\<not> (0x200000 :: u64) + of_nat i - 0x100000 < ucast (2048 :: u32)" if i: "i < 4096" for i
  proof -
    have "(0x200000 :: u64) + of_nat i - 0x100000 = 0x100000 + of_nat i" by simp
    moreover have "unat (0x100000 + of_nat i :: u64) = 0x100000 + i" using i small [OF i] by (subst unat_add_64) simp_all
    ultimately show ?thesis by (simp only: word_less_nat_alt) simp
  qed
  then have g: "geometry ?f" by (simp add: geometry_def f)
  have "font_at ?m (fb_font ?f)" using small by (simp add: font_at_def f m word_less_nat_alt)
  moreover have "pixel ?f ?m x y = 0" if "x < 16" "y < 32" for x y
  proof -
    have k: "y * 16 + x < 512" using that by simp
    have "?m (fb_buffer ?f + 4 * of_nat (y * lfb_row ?f + x) + of_nat j) = 0" if j: "j < 4" for j
    proof -
      have n: "4 * (y * 16 + x) + j < 2048" using k j by simp
      have "fb_buffer ?f + 4 * of_nat (y * lfb_row ?f + x) + of_nat j - 0x200000 = of_nat (4 * (y * 16 + x) + j) - 0x100000"
        by (simp add: f)
      moreover have "\<not> (of_nat (4 * (y * 16 + x) + j) :: u64) - 0x100000 < 0x1000"
      proof
        let ?d = "(of_nat (4 * (y * 16 + x) + j) :: u64) - 0x100000"
        assume "?d < 0x1000"
        then have "unat (?d + 0x100000) = unat ?d + 0x100000" by (subst unat_add_64) (simp_all add: word_less_nat_alt)
        moreover have "unat (of_nat (4 * (y * 16 + x) + j) :: u64) < 2048" using n by (simp only: small)
        ultimately show False by simp
      qed
      ultimately show ?thesis by (simp only: m if_False)
    qed
    then show ?thesis unfolding pixel_def by (rule ld32_const_zero)
  qed
  ultimately show ?thesis
    using g by (simp add: shows_term_def lfb_ok_def displays_def blank_terminal_def f glyph_blank)
qed

theorem kputchar_direct_terminal_witness:
  "\<exists>s'. kputchar_direct 0x41 lfb_example = Some s' \<and>
     shows_term s' \<lparr>cells = (\<lambda>r c. if r = 0 \<and> c = 0 then 0x41 else 0), term_row = 0, term_col = 1\<rparr>"
proof -
  have f: "text_rows (lfb lfb_example) = 2" "text_cols (lfb lfb_example) = 2" by (simp_all add: lfb_example_def usstate.defs)
  have "term_put 2 2 0x41 blank_terminal =
      \<lparr>cells = (\<lambda>r c. if r = 0 \<and> c = 0 then 0x41 else 0), term_row = 0, term_col = 1\<rparr>"
    by (auto simp: term_put_def term_wrap_def blank_terminal_def fun_eq_iff)
  with kputchar_direct_terminal [OF lfb_example_shows, of "0x41"] f show ?thesis by auto
qed

text \<open>
  C40: \<^verbatim>\<open>kputnum_direct\<close> fits its digits into \<^verbatim>\<open>buf[32]\<close> in every base from 2 to 16, and prints them from the
  most significant one on.
\<close>

theorem kputnum_direct_fits:
  assumes "shows_term s t" "2 \<le> unat radix" "unat radix \<le> 16"
  shows "length (show_number (unat radix) (unat num)) \<le> 32 \<and>
    (\<exists>s'. kputnum_direct num radix s = Some s' \<and>
       shows_term s' (fold (term_put (text_rows (lfb s)) (text_cols (lfb s)))
         (map of_char (show_number (unat radix) (unat num))) t))"
proof -
  have "unat num < 2 ^ 32" using unsigned_less [where w = num and 'a = nat] by simp
  also have "(2 :: nat) ^ 32 \<le> unat radix ^ 32" using assms(2) by (rule power_mono) simp
  finally have "length (digits_of (unat radix) (unat num)) \<le> 32" using digits_of_length [OF assms(2)] by simp
  moreover have "kputnum_direct num radix s = loop_over (\<lambda>d. kputchar_direct (of_char d)) (show_number (unat radix) (unat num)) s"
  proof (cases "num = 0")
    case True
    then show ?thesis by (simp add: kputnum_direct_def show_number_def digits_of_zero digit_char_def)
  next
    case False
    then show ?thesis using num_loop_digits [OF assms(2) False, of "[]"]
      by (simp add: kputnum_direct_def show_number_def rev_map)
  qed
  moreover have "shows_screen (text_rows (lfb s)) (text_cols (lfb s)) s t" using assms(1) by (simp add: shows_screen_def)
  ultimately show ?thesis
    using console.puts_ok [of _ _ s t of_char "show_number (unat radix) (unat num)"]
    by (fastforce simp: shows_screen_def show_number_def)
qed

theorem kputnum_direct_fits_witness:
  "length (show_number 2 0xFFFFFFFF) \<le> 32 \<and> (\<exists>s' t'. kputnum_direct 0xFFFFFFFF 2 lfb_example = Some s' \<and> shows_term s' t')"
  using kputnum_direct_fits [OF lfb_example_shows, of 2 "0xFFFFFFFF"] by auto

end
