(* ===== verification/Klog.thy ===== *)
theory Klog
  imports Lfb Kmalloc Serial
begin

text \<open>
  The kernel log, \<^verbatim>\<open>drivers/lfb/klog.c\<close>: writers reserve a stretch of a ring of 4096 entries under a
  lock and fill it; \<^verbatim>\<open>klog_flush_to_screen\<close> prints what is ready and drops what was overwritten. The
  ring implements a sequence of unread characters.
\<close>

section \<open>State and operations\<close>

record klogstate = lfbstate +
  klog_buffer :: u64
  klog_head :: u64
  klog_tail :: u64
  klog_write_lock :: spinlock
  klog_read_lock :: spinlock

abbreviation KLOG_BUF_MAX :: u64 where "KLOG_BUF_MAX \<equiv> 0x1000"
abbreviation KLOG_BUF_MASK :: u64 where "KLOG_BUF_MASK \<equiv> 0xFFF"

text \<open>\<^verbatim>\<open>log_entry_t\<close>: the character and, in the second byte, the \<^verbatim>\<open>ready\<close> flag.\<close>

definition log_entry :: "'a klogstate_scheme \<Rightarrow> u64 \<Rightarrow> u64" where
  "log_entry s pos = klog_buffer s + 2 * (pos AND KLOG_BUF_MASK)"

text \<open>
  When the buffer cannot be allocated the kernel hangs: None. The loop that is to clear the entries
  runs \<^verbatim>\<open>for (i = 0; i < 0; i++)\<close>, that is, never.
\<close>

definition init_klog :: "'a klogstate_scheme \<Rightarrow> 'a klogstate_scheme option" where
  "init_klog s = do {
     (b, s1) \<leftarrow> kmalloc (KLOG_BUF_MAX * 2) s;
     if b = 0 then None
     else do {
       msg \<leftarrow> render serial_conv (''[KLOG] Klog buffer at %llx'' @ [CHR 0x0A]) [Num b];
       s2 \<leftarrow> serial_putchars msg s1;
       Some (s2\<lparr>klog_buffer := b, klog_head := 0, klog_tail := 0\<rparr>)
     }
   }"

definition klog_lock_write :: "'a klogstate_scheme \<Rightarrow> (u64 \<times> 'a klogstate_scheme) option" where
  "klog_lock_write s = do {
     (rflags, l, s1) \<leftarrow> spin_lock_irqsave (klog_write_lock s) s;
     Some (rflags, s1\<lparr>klog_write_lock := l\<rparr>)
   }"

definition klog_unlock_write :: "u64 \<Rightarrow> 'a klogstate_scheme \<Rightarrow> 'a klogstate_scheme" where
  "klog_unlock_write rflags s =
     (let (l, s1) = spin_lock_irqrestore (klog_write_lock s) rflags s in s1\<lparr>klog_write_lock := l\<rparr>)"

definition klog_put :: "u64 \<Rightarrow> u8 \<Rightarrow> 'a klogstate_scheme \<Rightarrow> 'a klogstate_scheme" where
  "klog_put pos c s = s\<lparr>kmem := (kmem s)(log_entry s pos := c, log_entry s pos + 1 := 1)\<rparr>"

primrec klog_fill :: "u64 \<Rightarrow> u8 list \<Rightarrow> 'a klogstate_scheme \<Rightarrow> 'a klogstate_scheme" where
  "klog_fill pos [] s = s"
| "klog_fill pos (c # cs) s = klog_fill (pos + 1) cs (klog_put pos c s)"

text \<open>The argument is the \<^verbatim>\<open>len\<close> bytes at \<^verbatim>\<open>s\<close>; of more than 4096 the first 4096 are taken.\<close>

definition klog_write :: "u8 list \<Rightarrow> 'a klogstate_scheme \<Rightarrow> 'a klogstate_scheme option" where
  "klog_write bs s =
     (if klog_buffer s = 0 \<or> bs = [] then Some s
      else let cs = take 4096 bs in do {
        (rflags, s1) \<leftarrow> klog_lock_write s;
        let start_head = klog_head s1;
        let s2 = klog_unlock_write rflags (s1\<lparr>klog_head := start_head + of_nat (length cs)\<rparr>);
        Some (klog_fill start_head cs s2)
      })"

definition klog_drop :: "bool \<Rightarrow> 'a klogstate_scheme \<Rightarrow> (bool \<times> 'a klogstate_scheme) option" where
  "klog_drop printed s =
     (if klog_head s - klog_tail s > KLOG_BUF_MAX then do {
        s1 \<leftarrow> loop_over (\<lambda>c. kputchar_direct (of_char c)) ''[drop]'' (s\<lparr>klog_tail := klog_head s - KLOG_BUF_MAX\<rparr>);
        Some (True, s1)
      }
      else Some (printed, s))"

partial_function (option) klog_flush_loop :: "bool \<Rightarrow> 'a klogstate_scheme \<Rightarrow> (bool \<times> 'a klogstate_scheme) option" where
  "klog_flush_loop printed0 s0 = do {
     (printed, s) \<leftarrow> klog_drop printed0 s0;
     if klog_tail s = klog_head s then Some (printed, s)
     else
       let e = log_entry s (klog_tail s) in
       if kmem s (e + 1) = 0 then Some (printed, s)
       else do {
         s1 \<leftarrow> kputchar_direct (kmem s e) s;
         let s2 = s1\<lparr>kmem := (kmem s1)(e + 1 := 0)\<rparr>;
         (rflags, s3) \<leftarrow> klog_lock_write s2;
         klog_flush_loop True (klog_unlock_write rflags (s3\<lparr>klog_tail := klog_tail s3 + 1\<rparr>))
       }
   }"

definition klog_flush_to_screen :: "'a klogstate_scheme \<Rightarrow> 'a klogstate_scheme option" where
  "klog_flush_to_screen s =
     (if klog_buffer s = 0 then Some s
      else do {
        (rflags, l, s1) \<leftarrow> spin_lock_irqsave (klog_read_lock s) s;
        (printed, s2) \<leftarrow> klog_flush_loop False (s1\<lparr>klog_read_lock := l\<rparr>);
        let s3 = (if printed then lfb_swap s2 else s2);
        let (l', s4) = spin_lock_irqrestore (klog_read_lock s3) rflags s3;
        Some (s4\<lparr>klog_read_lock := l'\<rparr>)
      })"

section \<open>init_LFB\<close>

text \<open>\<^verbatim>\<open>font_addr\<close> is where the linker puts the font table.\<close>

definition init_LFB :: "u64 \<Rightarrow> u32 \<Rightarrow> 'a klogstate_scheme \<Rightarrow> 'a klogstate_scheme option" where
  "init_LFB font_addr physBootInfo s = do {
     f \<leftarrow> tag_loop (kmem s) (read_fb_tag (kmem s)) (first_tag physBootInfo) (lfb s);
     s1 \<leftarrow> lfb_map 0 (s\<lparr>lfb := f\<rparr>);
     (b, s2) \<leftarrow> vmalloc (ucast (fb_size f)) (s1\<lparr>lfb := (lfb s1)\<lparr>fb_vram := LFB_ADDR\<rparr>\<rparr>);
     msg \<leftarrow> render serial_conv (''[LDB] Back Buffer Address at %llx'' @ [CHR 0x0A]) [Num b];
     s3 \<leftarrow> serial_putchars msg (s2\<lparr>lfb := (lfb s2)\<lparr>fb_buffer := b\<rparr>\<rparr>);
     let g = (lfb s3)\<lparr>fb_font := font_addr, fb_char_width := 8, fb_char_height := 16, fb_cursor_x := 0, fb_cursor_y := 0\<rparr>;
     s4 \<leftarrow> init_klog (s3\<lparr>lfb := g, kmem := memset (kmem s3) b 0 (ucast (fb_size g))\<rparr>);
     Some (lfb_swap s4)
   }"

section \<open>kprintf\<close>

text \<open>
  \<^verbatim>\<open>local_buf\<close> is the list of the \<^verbatim>\<open>idx\<close> bytes written to it; a write beyond its 256 bytes is the result
  None, so that a result means that the buffer did not overflow. \<^verbatim>\<open>local_putnum\<close> is given room for
  255 bytes wherever it starts.
\<close>

abbreviation KPRINTF_BUF_MAX :: nat where "KPRINTF_BUF_MAX \<equiv> 256"

definition local_put :: "u8 list \<Rightarrow> u8 list \<Rightarrow> u8 list option" where
  "local_put buf cs = (if length buf + length cs \<le> KPRINTF_BUF_MAX then Some (buf @ cs) else None)"

text \<open>The loop fills \<^verbatim>\<open>temp[64]\<close> from the least significant digit; base 0 is a division by zero.\<close>

primrec temp_digits :: "nat \<Rightarrow> u64 \<Rightarrow> u64 \<Rightarrow> string" where
  "temp_digits 0 num radix = []"
| "temp_digits (Suc n) num radix =
     (if num = 0 then [] else digit_char (unat (num mod radix)) # temp_digits n (num div radix) radix)"

definition local_putnum :: "u64 \<Rightarrow> u64 \<Rightarrow> string option" where
  "local_putnum num radix =
     (if num = 0 then Some ''0'' else if radix = 0 then None else Some (take 255 (rev (temp_digits 64 num radix))))"

definition check_and_flush :: "u8 list \<Rightarrow> 'a klogstate_scheme \<Rightarrow> (u8 list \<times> 'a klogstate_scheme) option" where
  "check_and_flush buf s =
     (if 255 \<le> length buf then do { s1 \<leftarrow> klog_write buf s; Some ([], s1) } else Some (buf, s))"

text \<open>\<^verbatim>\<open>CHECK_AND_FLUSH(); local_buf[idx++] = c\<close>, and the same for each character of a text.\<close>

definition kput :: "u8 \<Rightarrow> u8 list \<times> 'a klogstate_scheme \<Rightarrow> (u8 list \<times> 'a klogstate_scheme) option" where
  "kput c bs = do {
     (buf, s) \<leftarrow> check_and_flush (fst bs) (snd bs);
     buf \<leftarrow> local_put buf [c];
     Some (buf, s)
   }"

definition kput_num :: "u64 \<Rightarrow> u64 \<Rightarrow> u8 list \<times> 'a klogstate_scheme \<Rightarrow> (u8 list \<times> 'a klogstate_scheme) option" where
  "kput_num num radix bs = do {
     (buf, s) \<leftarrow> (if KPRINTF_BUF_MAX - 35 < length (fst bs)
       then do { s1 \<leftarrow> klog_write (fst bs) (snd bs); Some ([], s1) } else Some bs);
     ds \<leftarrow> local_putnum num radix;
     buf \<leftarrow> local_put buf (map of_char ds);
     Some (buf, s)
   }"

partial_function (option) kput_string :: "u64 \<Rightarrow> u8 list \<times> 'a klogstate_scheme \<Rightarrow> (u8 list \<times> 'a klogstate_scheme) option" where
  "kput_string p bs =
     (let c = kmem (snd bs) p in if c = 0 then Some bs else do { bs1 \<leftarrow> kput c bs; kput_string (p + 1) bs1 })"

definition kput_hex :: "u64 \<Rightarrow> u8 list \<times> 'a klogstate_scheme \<Rightarrow> (u8 list \<times> 'a klogstate_scheme) option" where
  "kput_hex v bs = do {
     bs1 \<leftarrow> kput (of_char (CHR ''0'')) bs;
     bs2 \<leftarrow> kput (of_char (CHR ''x'')) bs1;
     kput_num v 16 bs2
   }"

text \<open>\<^verbatim>\<open>i = -i\<close> on an \<^verbatim>\<open>int\<close>, then the conversion to 64 bits.\<close>

definition kput_int :: "u32 \<Rightarrow> u8 list \<times> 'a klogstate_scheme \<Rightarrow> (u8 list \<times> 'a klogstate_scheme) option" where
  "kput_int i bs =
     (if i <s 0 then do { bs1 \<leftarrow> kput (of_char (CHR ''-'')) bs; kput_num (u64_of_int32 (- i)) 10 bs1 }
      else kput_num (u64_of_int32 i) 10 bs)"

text \<open>
  At a lone \<^verbatim>\<open>%\<close> at the end of the format the loop steps over the terminating zero, as in
  \<^verbatim>\<open>serial_print\<close>.
\<close>

partial_function (option) kprintf_loop ::
  "u64 \<Rightarrow> u64 list \<Rightarrow> u8 list \<times> 'a klogstate_scheme \<Rightarrow> (u8 list \<times> 'a klogstate_scheme) option" where
  "kprintf_loop p args bs =
     (let c = kmem (snd bs) p in
      if c = 0 then Some bs
      else do {
        bs \<leftarrow> check_and_flush (fst bs) (snd bs);
        if c \<noteq> 0x25 then do {
          buf \<leftarrow> local_put (fst bs) [c];
          kprintf_loop (p + 1) args (buf, snd bs)
        }
        else
          let p = p + 1; d = kmem (snd bs) p in
          if d = 0x73 then
            (case args of [] \<Rightarrow> None
             | a # rest \<Rightarrow> do { bs1 \<leftarrow> kput_string a bs; kprintf_loop (p + 1) rest bs1 })
          else if d = 0x64 then
            (case args of [] \<Rightarrow> None
             | a # rest \<Rightarrow> do { bs1 \<leftarrow> kput_int (ucast a) bs; kprintf_loop (p + 1) rest bs1 })
          else if d = 0x78 then
            (case args of [] \<Rightarrow> None
             | a # rest \<Rightarrow> do { bs1 \<leftarrow> kput_hex (ucast (ucast a :: u32)) bs; kprintf_loop (p + 1) rest bs1 })
          else if d = 0x6C then
            if kmem (snd bs) (p + 1) = 0x6C \<and> kmem (snd bs) (p + 2) = 0x78 then
              (case args of [] \<Rightarrow> None
               | a # rest \<Rightarrow> do { bs1 \<leftarrow> kput_hex a bs; kprintf_loop (p + 3) rest bs1 })
            else kprintf_loop (p + 1) args bs
          else if d = 0x70 then
            (case args of [] \<Rightarrow> None
             | a # rest \<Rightarrow> do { bs1 \<leftarrow> kput_hex a bs; kprintf_loop (p + 1) rest bs1 })
          else if d = 0x25 then do {
            buf \<leftarrow> local_put (fst bs) [0x25];
            kprintf_loop (p + 1) args (buf, snd bs)
          }
          else kprintf_loop (p + 1) args bs
      })"

definition kprintf :: "u64 \<Rightarrow> u64 list \<Rightarrow> 'a klogstate_scheme \<Rightarrow> 'a klogstate_scheme option" where
  "kprintf format args s = do {
     (buf, s1) \<leftarrow> kprintf_loop format args ([], s);
     if buf = [] then Some s1 else klog_write buf s1
   }"

section \<open>The ring\<close>

definition klog_bytes :: "'a klogstate_scheme \<Rightarrow> u64 set" where
  "klog_bytes s = {a. a - klog_buffer s < 0x2000}"

text \<open>The unread characters from \<^verbatim>\<open>klog_tail\<close> on; of more than 4096 only the last 4096 are still there.\<close>

definition klog_entries :: "'a klogstate_scheme \<Rightarrow> u64 \<Rightarrow> u8 list \<Rightarrow> bool" where
  "klog_entries s p cs \<longleftrightarrow> (\<forall>i < length cs. length cs \<le> i + 4096 \<longrightarrow>
     kmem s (log_entry s (p + of_nat i)) = cs ! i \<and> kmem s (log_entry s (p + of_nat i) + 1) \<noteq> 0)"

definition klog_holds :: "'a klogstate_scheme \<Rightarrow> u8 list \<Rightarrow> bool" where
  "klog_holds s cs \<longleftrightarrow> klog_buffer s \<noteq> 0 \<and> \<not> lock (klog_write_lock s) \<and>
     klog_head s = klog_tail s + of_nat (length cs) \<and> klog_entries s (klog_tail s) cs"

lemma mask_12: "(p :: u64) AND 0xFFF = take_bit 12 p"
  by (simp add: take_bit_eq_mask mask_eq_exp_minus_1)

lemma unat_mask_12: "unat (p AND 0xFFF) = unat p mod 4096" for p :: u64
  unfolding mask_12 by (simp only: unsigned_take_bit_eq) (simp add: take_bit_eq_mod)

lemma entry_offset:
  "log_entry s p - klog_buffer s = 2 * (p AND 0xFFF)" "unat (2 * (p AND 0xFFF)) = 2 * unat (p AND 0xFFF)"
  "unat (2 * (p AND 0xFFF) + 1) = 2 * unat (p AND 0xFFF) + 1" "unat (p AND 0xFFF) < 4096"
proof -
  show lt: "unat (p AND 0xFFF) < 4096" by (simp add: unat_mask_12)
  then show u: "unat (2 * (p AND 0xFFF)) = 2 * unat (p AND 0xFFF)" by (simp add: unat_word_ariths)
  show "unat (2 * (p AND 0xFFF) + 1) = 2 * unat (p AND 0xFFF) + 1" using lt by (subst unat_add_64; simp only: u; simp)
qed (simp add: log_entry_def)

text \<open>Two entries meet only when their positions agree modulo 4096.\<close>

lemma entry_ne:
  assumes "p AND 0xFFF \<noteq> q AND 0xFFF"
  shows "log_entry s p \<noteq> log_entry s q" "log_entry s p + 1 \<noteq> log_entry s q" "log_entry s p + 1 \<noteq> log_entry s q + 1"
    "log_entry s p \<noteq> log_entry s q + 1"
proof -
  let ?x = "p AND 0xFFF" and ?y = "q AND 0xFFF"
  have n: "unat ?x \<noteq> unat ?y" using assms by (simp only: word_unat_eq_iff simp_thms)
  note u = entry_offset(2,3) [of p] entry_offset(2,3) [of q]
  have "unat (2 * ?x) \<noteq> unat (2 * ?y)" "unat (2 * ?x + 1) \<noteq> unat (2 * ?y)" "unat (2 * ?x + 1) \<noteq> unat (2 * ?y + 1)"
    "unat (2 * ?x) \<noteq> unat (2 * ?y + 1)"
    using n unfolding u by arith+
  then have "2 * ?x \<noteq> 2 * ?y" "2 * ?x + 1 \<noteq> 2 * ?y" "2 * ?x + 1 \<noteq> 2 * ?y + 1" "2 * ?x \<noteq> 2 * ?y + 1" by metis+
  then show "log_entry s p \<noteq> log_entry s q" "log_entry s p + 1 \<noteq> log_entry s q" "log_entry s p + 1 \<noteq> log_entry s q + 1"
    "log_entry s p \<noteq> log_entry s q + 1"
    unfolding log_entry_def by (simp_all only: add.assoc add_left_cancel simp_thms)
qed

lemma position_ne:
  fixes p :: u64
  assumes "i < j" "j < i + 4096"
  shows "(p + of_nat i) AND 0xFFF \<noteq> (p + of_nat j) AND 0xFFF"
proof
  assume "(p + of_nat i) AND 0xFFF = (p + of_nat j) AND 0xFFF"
  then have "unat (p + of_nat i) mod 4096 = unat (p + of_nat j) mod 4096" by (simp only: flip: unat_mask_12)
  moreover have "unat (p + of_nat k) mod 4096 = (unat p + k) mod 4096" for k
  proof -
    have "unat (p + of_nat k) = (unat p + k) mod 2 ^ 64" by (simp add: unat_word_ariths unat_of_nat mod_simps)
    then show ?thesis by (simp add: mod_mod_cancel)
  qed
  ultimately have "(unat p + i) mod 4096 = (unat p + j) mod 4096" by simp
  then have "4096 dvd (unat p + j) - (unat p + i)" using assms(1) by (intro mod_eq_dvd_iff_nat [THEN iffD1]) simp_all
  then have "4096 dvd j - i" by simp
  with assms show False by (auto dest: dvd_imp_le)
qed

lemma klog_put_fields [simp]:
  "klog_buffer (klog_put p c s) = klog_buffer s" "klog_head (klog_put p c s) = klog_head s" "klog_tail (klog_put p c s) = klog_tail s"
  "klog_write_lock (klog_put p c s) = klog_write_lock s" "lfb (klog_put p c s) = lfb s" "log_entry (klog_put p c s) = log_entry s"
  by (simp_all add: klog_put_def log_entry_def fun_eq_iff)

lemma klog_put_entries:
  assumes "klog_entries s p cs"
  shows "klog_entries (klog_put (p + of_nat (length cs)) c s) p (cs @ [c])"
  unfolding klog_entries_def
proof (intro allI impI)
  fix i assume i: "i < length (cs @ [c])" "length (cs @ [c]) \<le> i + 4096"
  let ?q = "p + of_nat (length cs)" let ?s = "klog_put ?q c s"
  show "kmem ?s (log_entry ?s (p + of_nat i)) = (cs @ [c]) ! i \<and> kmem ?s (log_entry ?s (p + of_nat i) + 1) \<noteq> 0"
  proof (cases "i = length cs")
    case True
    then show ?thesis by (simp add: klog_put_def log_entry_def)
  next
    case False
    with i have lt: "i < length cs" "length cs < i + 4096" by simp_all
    note ne = entry_ne [OF position_ne [OF lt, of p], of s]
    have "kmem ?s (log_entry s (p + of_nat i)) = kmem s (log_entry s (p + of_nat i))"
      "kmem ?s (log_entry s (p + of_nat i) + 1) = kmem s (log_entry s (p + of_nat i) + 1)"
      using ne by (simp_all add: klog_put_def log_entry_def)
    with assms lt show ?thesis by (simp add: klog_entries_def nth_append)
  qed
qed

lemma entry_in_ring: "log_entry s p \<in> klog_bytes s" "log_entry s p + 1 \<in> klog_bytes s"
proof -
  note e = entry_offset(1) [of s p] entry_offset(2-4) [of p]
  have "log_entry s p + 1 - klog_buffer s = 2 * (p AND 0xFFF) + 1" by (simp add: log_entry_def)
  with e show "log_entry s p \<in> klog_bytes s" "log_entry s p + 1 \<in> klog_bytes s"
    unfolding klog_bytes_def mem_Collect_eq word_less_nat_alt by (simp_all only:) simp_all
qed

lemma klog_put_outside: "a \<notin> klog_bytes s \<Longrightarrow> kmem (klog_put p c s) a = kmem s a"
proof -
  assume a: "a \<notin> klog_bytes s"
  have "log_entry s p \<in> klog_bytes s" "log_entry s p + 1 \<in> klog_bytes s" by (rule entry_in_ring)+
  with a show ?thesis by (auto simp: klog_put_def)
qed

text \<open>Nothing but the ring, its head and its lock changes when characters are logged.\<close>

definition klog_only :: "'a klogstate_scheme \<Rightarrow> 'a klogstate_scheme \<Rightarrow> bool" where
  "klog_only s s' \<longleftrightarrow> (\<forall>a. a \<notin> klog_bytes s \<longrightarrow> kmem s' a = kmem s a) \<and>
     s' = s\<lparr>kmem := kmem s', klog_head := klog_head s'\<rparr>"

lemma klog_fill_ok:
  "klog_entries s p cs \<Longrightarrow> klog_entries (klog_fill (p + of_nat (length cs)) bs s) p (cs @ bs) \<and>
    klog_only s (klog_fill (p + of_nat (length cs)) bs s) \<and> klog_head (klog_fill (p + of_nat (length cs)) bs s) = klog_head s"
proof (induction bs arbitrary: s cs)
  case Nil
  then show ?case by (simp add: klog_only_def)
next
  case (Cons b bs)
  let ?s1 = "klog_put (p + of_nat (length cs)) b s"
  have e1: "klog_entries ?s1 p (cs @ [b])" by (rule klog_put_entries [OF Cons.prems])
  have q: "p + of_nat (length (cs @ [b])) = p + of_nat (length cs) + 1" by (simp add: ac_simps)
  note IH = Cons.IH [OF e1, unfolded q append.assoc append_Cons append_Nil]
  have "klog_only s ?s1" using klog_put_outside [of _ s] by (auto simp: klog_only_def klog_put_def)
  then have "klog_only s (klog_fill (p + of_nat (length cs) + 1) bs ?s1)"
    using IH by (cases s) (auto simp: klog_only_def klog_bytes_def klog_put_def)
  with IH show ?case by simp
qed

section \<open>Writing\<close>

lemma klog_critical:
  assumes "\<not> lock (klog_write_lock s)"
  obtains r s1 where "klog_lock_write s = Some (r, s1)" "klog_head s1 = klog_head s" "klog_tail s1 = klog_tail s"
    "klog_unlock_write r (s1\<lparr>klog_head := h\<rparr>) = s\<lparr>klog_head := h\<rparr>" "klog_unlock_write r (s1\<lparr>klog_tail := h\<rparr>) = s\<lparr>klog_tail := h\<rparr>"
proof -
  let ?s1 = "s\<lparr>cpu_rflags := cpu_rflags s AND NOT RFLAGS_IF, klog_write_lock := (klog_write_lock s)\<lparr>lock := True\<rparr>\<rparr>"
  have l: "klog_write_lock s = \<lparr>lock = False\<rparr>" using assms by (cases "klog_write_lock s") simp
  have "klog_lock_write s = Some (cpu_rflags s, ?s1)" using assms by (simp add: klog_lock_write_def spin_lock_free)
  moreover have "klog_unlock_write (cpu_rflags s) (?s1\<lparr>klog_head := h\<rparr>) = s\<lparr>klog_head := h\<rparr>"
    "klog_unlock_write (cpu_rflags s) (?s1\<lparr>klog_tail := h\<rparr>) = s\<lparr>klog_tail := h\<rparr>"
    using l by (simp_all add: klog_unlock_write_def spin_lock_irqrestore_def write_rflags_def)
  ultimately show ?thesis using that by simp
qed

lemma klog_only_trans:
  assumes "klog_only s s1" "klog_only s1 s2"
  shows "klog_only s s2"
proof -
  have e: "s1 = s\<lparr>kmem := kmem s1, klog_head := klog_head s1\<rparr>" "s2 = s1\<lparr>kmem := kmem s2, klog_head := klog_head s2\<rparr>"
    using assms by (simp_all add: klog_only_def)
  have b: "klog_bytes s1 = klog_bytes s" by (subst e(1)) (simp add: klog_bytes_def)
  have "s2 = s\<lparr>kmem := kmem s2, klog_head := klog_head s2\<rparr>" by (subst e(2), subst e(1)) simp
  with assms b show ?thesis by (simp add: klog_only_def)
qed

lemma klog_only_fields:
  assumes "klog_only s s'"
  shows "klog_buffer s' = klog_buffer s" "klog_tail s' = klog_tail s" "klog_write_lock s' = klog_write_lock s"
    "klog_read_lock s' = klog_read_lock s" "lfb s' = lfb s"
proof -
  have e: "s' = s\<lparr>kmem := kmem s', klog_head := klog_head s'\<rparr>" using assms by (simp add: klog_only_def)
  show "klog_buffer s' = klog_buffer s" "klog_tail s' = klog_tail s" "klog_write_lock s' = klog_write_lock s"
    "klog_read_lock s' = klog_read_lock s" "lfb s' = lfb s"
    by (subst e, simp)+
qed

lemma klog_entries_cong:
  "kmem s = kmem s' \<Longrightarrow> klog_buffer s = klog_buffer s' \<Longrightarrow> klog_entries s p cs = klog_entries s' p cs"
  by (simp add: klog_entries_def log_entry_def)

lemma klog_write_ok:
  assumes h: "klog_holds s cs"
  shows "\<exists>s'. klog_write bs s = Some s' \<and> klog_holds s' (cs @ take 4096 bs) \<and> klog_only s s'"
proof (cases "bs = []")
  case True
  with h show ?thesis by (auto simp: klog_write_def klog_only_def)
next
  case False
  let ?cs = "take 4096 bs" let ?h = "klog_head s + of_nat (length ?cs)"
  have b: "klog_buffer s \<noteq> 0" "\<not> lock (klog_write_lock s)" "klog_head s = klog_tail s + of_nat (length cs)"
    "klog_entries s (klog_tail s) cs" using h by (simp_all add: klog_holds_def)
  obtain r s1 where c: "klog_lock_write s = Some (r, s1)" "klog_head s1 = klog_head s"
    "klog_unlock_write r (s1\<lparr>klog_head := ?h\<rparr>) = s\<lparr>klog_head := ?h\<rparr>" using klog_critical [OF b(2)] by metis
  let ?s2 = "s\<lparr>klog_head := ?h\<rparr>" let ?s3 = "klog_fill (klog_head s) ?cs ?s2"
  have "klog_write bs s = Some ?s3" using False b(1) c by (simp add: klog_write_def Let_def)
  moreover have e: "klog_entries ?s2 (klog_tail s) cs" using b(4) by (simp add: klog_entries_def log_entry_def)
  from klog_fill_ok [OF e, of ?cs, folded b(3)]
  have f: "klog_entries ?s3 (klog_tail s) (cs @ ?cs)" "klog_only ?s2 ?s3" "klog_head ?s3 = ?h" by simp_all
  have "klog_only s ?s2" by (simp add: klog_only_def)
  then have o: "klog_only s ?s3" using f(2) by (rule klog_only_trans)
  moreover have "klog_holds ?s3 (cs @ ?cs)"
    using klog_only_fields [OF o] b f(1,3) by (simp add: klog_holds_def)
  ultimately show ?thesis by blast
qed

section \<open>Flushing\<close>

text \<open>
  The ring, the back buffer, the font and the video memory lie apart from each other.
\<close>

definition klog_apart :: "'a klogstate_scheme \<Rightarrow> bool" where
  "klog_apart s \<longleftrightarrow> vram_apart (lfb s) \<and>
     (\<forall>a \<in> klog_bytes s. \<not> a - fb_buffer (lfb s) < ucast (fb_size (lfb s)) \<and>
        \<not> a - fb_vram (lfb s) < ucast (fb_size (lfb s)) \<and> (\<forall>i < 4096. a \<noteq> fb_font (lfb s) + of_nat i)) \<and>
     (\<forall>i < 4096. \<not> fb_font (lfb s) + of_nat i - fb_vram (lfb s) < ucast (fb_size (lfb s)))"

lemma shows_screen_outside:
  assumes "shows_screen R C s t" "lfb s' = lfb s"
    and "\<And>a. a - fb_buffer (lfb s) < ucast (fb_size (lfb s)) \<Longrightarrow> kmem s' a = kmem s a"
    and "\<And>i. i < 4096 \<Longrightarrow> kmem s' (fb_font (lfb s) + of_nat i) = kmem s (fb_font (lfb s) + of_nat i)"
  shows "shows_screen R C s' t"
proof -
  let ?f = "lfb s"
  have g: "geometry ?f" using assms(1) by (simp add: shows_screen_def shows_term_def lfb_ok_def)
  have "pixel ?f (kmem s') x y = pixel ?f (kmem s) x y" if "x < unat (fb_width ?f)" "y < unat (fb_height ?f)" for x y
    unfolding pixel_def
  proof (rule ld32_cong)
    fix k :: nat assume "k < 4"
    then have "4 * (y * lfb_row ?f + x) + k < unat (fb_size ?f)"
      using pixel_index [OF g that] geometry_size(2) [OF g] by simp
    then have "fb_buffer ?f + of_nat (4 * (y * lfb_row ?f + x) + k) - fb_buffer ?f < ucast (fb_size ?f)"
      using unsigned_less [where w = "fb_size ?f" and 'a = nat] by (subst offset_less) (simp_all add: unat_ucast_32)
    from assms(3) [OF this]
    show "kmem s' (fb_buffer ?f + 4 * of_nat (y * lfb_row ?f + x) + of_nat k) =
      kmem s (fb_buffer ?f + 4 * of_nat (y * lfb_row ?f + x) + of_nat k)" by (simp add: ac_simps)
  qed
  then have "displays ?f (kmem s') (cells t)" using assms(1) by (simp add: shows_screen_def shows_term_def displays_def)
  moreover have "font_at (kmem s') (fb_font ?f)" using assms(1,4) by (simp add: shows_screen_def shows_term_def lfb_ok_def font_at_def)
  ultimately show ?thesis using assms(1,2) by (simp add: shows_screen_def shows_term_def lfb_ok_def)
qed

definition flush_ready :: "nat \<Rightarrow> nat \<Rightarrow> 'a klogstate_scheme \<Rightarrow> u8 list \<Rightarrow> terminal \<Rightarrow> bool" where
  "flush_ready R C s cs t \<longleftrightarrow> klog_holds s cs \<and> length cs < 2 ^ 64 \<and> klog_apart s \<and> shows_screen R C s t"

lemma lfb_only_klog:
  assumes "lfb_only s s'"
  shows "klog_buffer s' = klog_buffer s" "klog_head s' = klog_head s" "klog_tail s' = klog_tail s"
    "klog_write_lock s' = klog_write_lock s" "klog_read_lock s' = klog_read_lock s" "cpu_rflags s' = cpu_rflags s"
proof -
  have e: "s' = s\<lparr>kmem := kmem s', lfb := lfb s'\<rparr>" using assms by (simp add: lfb_only_def)
  show "klog_buffer s' = klog_buffer s" "klog_head s' = klog_head s" "klog_tail s' = klog_tail s"
    "klog_write_lock s' = klog_write_lock s" "klog_read_lock s' = klog_read_lock s" "cpu_rflags s' = cpu_rflags s" by (subst e, simp)+
qed

text \<open>Printing leaves the ring as it is.\<close>

lemma print_keeps_ring:
  assumes o: "lfb_only s s'" and a: "klog_apart s"
  shows "klog_apart s'" "klog_holds s' cs = klog_holds s cs" "klog_entries s' p cs = klog_entries s p cs"
proof -
  note k = lfb_only_klog [OF o] and f = lfb_only_fields [OF o]
  have font: "fb_font (lfb s') = fb_font (lfb s)"
  proof -
    have "lfb s' = (lfb s)\<lparr>fb_cursor_x := fb_cursor_x (lfb s'), fb_cursor_y := fb_cursor_y (lfb s')\<rparr>"
      using o by (simp add: lfb_only_def)
    from arg_cong [OF this, of fb_font] show ?thesis by simp
  qed
  show "klog_apart s'" using a by (simp add: klog_apart_def klog_bytes_def vram_apart_def k f font)
  have ring: "kmem s' b = kmem s b" if "b \<in> klog_bytes s" for b
    using o a that by (simp add: lfb_only_def only_buffer_def klog_apart_def)
  have "log_entry s' = log_entry s" by (simp add: log_entry_def fun_eq_iff k)
  then show e: "klog_entries s' p cs = klog_entries s p cs" for p
    using ring [OF entry_in_ring(1)] ring [OF entry_in_ring(2)] by (simp add: klog_entries_def)
  show "klog_holds s' cs = klog_holds s cs" by (simp add: klog_holds_def k e)
qed

lemma klog_entries_tl:
  assumes "klog_entries s p (c # cs)" "length (c # cs) \<le> 4096"
  shows "klog_entries (s\<lparr>kmem := (kmem s)(log_entry s p + 1 := 0)\<rparr>) (p + 1) cs"
  unfolding klog_entries_def
proof (intro allI impI)
  let ?s = "s\<lparr>kmem := (kmem s)(log_entry s p + 1 := 0)\<rparr>"
  fix i assume i: "i < length cs" "length cs \<le> i + 4096"
  have eq: "p + 1 + of_nat i = p + of_nat (Suc i)" by (simp add: ac_simps)
  have ne: "(p + of_nat 0) AND 0xFFF \<noteq> (p + of_nat (Suc i)) AND 0xFFF" using i assms(2) by (intro position_ne) auto
  note ne' = entry_ne [OF ne, of s]
  have "Suc i < length (c # cs)" "length (c # cs) \<le> Suc i + 4096" using i assms(2) by simp_all
  then have "kmem s (log_entry s (p + of_nat (Suc i))) = (c # cs) ! Suc i \<and> kmem s (log_entry s (p + of_nat (Suc i)) + 1) \<noteq> 0"
    using assms(1) unfolding klog_entries_def by blast
  moreover have "log_entry ?s = log_entry s" by (simp add: log_entry_def fun_eq_iff)
  ultimately show "kmem ?s (log_entry ?s (p + 1 + of_nat i)) = cs ! i \<and> kmem ?s (log_entry ?s (p + 1 + of_nat i) + 1) \<noteq> 0"
    using ne' unfolding eq by auto
qed

lemma klog_flush_loop_ok:
  assumes "flush_ready R C s cs t" "length cs \<le> 4096"
  shows "\<exists>s'. klog_flush_loop printed s = Some (printed \<or> cs \<noteq> [], s') \<and> flush_ready R C s' [] (fold (term_put R C) cs t) \<and>
    klog_read_lock s' = klog_read_lock s \<and> cpu_rflags s' = cpu_rflags s"
  using assms
proof (induction cs arbitrary: s t printed)
  case Nil
  then have "klog_drop printed s = Some (printed, s)" "klog_tail s = klog_head s"
    by (simp_all add: klog_drop_def flush_ready_def klog_holds_def)
  with Nil show ?case by (subst klog_flush_loop.simps) simp
next
  case (Cons c cs)
  have h: "klog_holds s (c # cs)" "klog_apart s" "shows_screen R C s t" using Cons.prems by (simp_all add: flush_ready_def)
  let ?n = "length (c # cs)" let ?e = "log_entry s (klog_tail s)"
  have un: "unat (of_nat ?n :: u64) = ?n" using Cons.prems(2) by (simp add: unat_of_nat del: of_nat_Suc)
  have hd: "klog_head s = klog_tail s + of_nat ?n" and ent: "klog_entries s (klog_tail s) (c # cs)"
    and lk: "\<not> lock (klog_write_lock s)" using h(1) unfolding klog_holds_def by blast+
  have "klog_head s - klog_tail s = of_nat ?n" using hd by simp
  then have "\<not> klog_head s - klog_tail s > KLOG_BUF_MAX"
    using un Cons.prems(2) by (simp only: word_less_nat_alt) simp
  then have drop: "klog_drop printed s = Some (printed, s)" by (simp only: klog_drop_def if_False)
  have ne: "klog_tail s \<noteq> klog_head s"
  proof
    assume "klog_tail s = klog_head s"
    then have "of_nat ?n = (0 :: u64)" using hd by simp
    with un show False by simp
  qed
  have "kmem s (log_entry s (klog_tail s + of_nat 0)) = (c # cs) ! 0 \<and> kmem s (log_entry s (klog_tail s + of_nat 0) + 1) \<noteq> 0"
    using ent Cons.prems(2) unfolding klog_entries_def by (metis add_0 length_greater_0_conv list.distinct(1))
  then have e: "kmem s ?e = c" "kmem s (?e + 1) \<noteq> 0" by simp_all
  obtain s1 where s1: "kputchar_direct c s = Some s1" "lfb_only s s1" "shows_screen R C s1 (term_put R C c t)"
    using console.put_ok [OF h(3)] by blast
  note k = lfb_only_klog [OF s1(2)]
  note ring = print_keeps_ring [OF s1(2) h(2)]
  let ?s2 = "s1\<lparr>kmem := (kmem s1)(?e + 1 := 0)\<rparr>"
  have lk2: "\<not> lock (klog_write_lock ?s2)" using lk k(4) by simp
  obtain r s3 where c3: "klog_lock_write ?s2 = Some (r, s3)" "klog_tail s3 = klog_tail ?s2"
    "klog_unlock_write r (s3\<lparr>klog_tail := klog_tail s1 + 1\<rparr>) = ?s2\<lparr>klog_tail := klog_tail s1 + 1\<rparr>"
    using klog_critical [OF lk2, of "klog_tail s1 + 1"] by blast
  let ?s4 = "?s2\<lparr>klog_tail := klog_tail s1 + 1\<rparr>"
  have step: "klog_flush_loop printed s = klog_flush_loop True ?s4"
    using drop ne e s1(1) c3 by (subst klog_flush_loop.simps) (simp add: Let_def)
  have "klog_entries s1 (klog_tail s1) (c # cs)" using ring(3) ent k(3) by simp
  from klog_entries_tl [OF this Cons.prems(2)] have "klog_entries ?s4 (klog_tail s1 + 1) cs"
    using k by (simp add: klog_entries_def log_entry_def)
  then have "klog_holds ?s4 cs"
    using h(1) k Cons.prems(2) by (simp add: klog_holds_def)
  moreover have "klog_apart ?s4" using ring(1) by (simp add: klog_apart_def klog_bytes_def)
  moreover have "shows_screen R C ?s4 (term_put R C c t)"
  proof (rule shows_screen_outside [OF s1(3)])
    have in_ring: "?e + 1 \<in> klog_bytes s1" using entry_in_ring(2) [of s "klog_tail s"] k(1) by (simp add: klog_bytes_def)
    show "kmem ?s4 a = kmem s1 a" if "a - fb_buffer (lfb s1) < ucast (fb_size (lfb s1))" for a
      using in_ring ring(1) that by (auto simp: klog_apart_def)
    show "kmem ?s4 (fb_font (lfb s1) + of_nat i) = kmem s1 (fb_font (lfb s1) + of_nat i)" if "i < 4096" for i
      using in_ring ring(1) that by (auto simp: klog_apart_def)
  qed simp
  ultimately have "flush_ready R C ?s4 cs (term_put R C c t)" using Cons.prems(2) by (simp add: flush_ready_def)
  from Cons.IH [OF this, of True] Cons.prems(2) k(5,6) show ?case unfolding step by simp
qed

lemma lfb_swap_ready:
  assumes "flush_ready R C s cs t"
  shows "flush_ready R C (lfb_swap s) cs t"
proof -
  have a: "klog_apart s" "vram_apart (lfb s)" using assms by (simp_all add: flush_ready_def klog_apart_def)
  have f: "lfb (lfb_swap s) = lfb s" "klog_buffer (lfb_swap s) = klog_buffer s" "klog_head (lfb_swap s) = klog_head s"
    "klog_tail (lfb_swap s) = klog_tail s" "klog_write_lock (lfb_swap s) = klog_write_lock s" by (simp_all add: lfb_swap_def)
  note out = lfb_swap_outside [OF a(2)]
  have ring: "kmem (lfb_swap s) b = kmem s b" if "b \<in> klog_bytes s" for b
    using a(1) that by (intro out) (auto simp: klog_apart_def)
  have "log_entry (lfb_swap s) = log_entry s" by (simp add: log_entry_def fun_eq_iff f)
  then have "klog_entries (lfb_swap s) p cs = klog_entries s p cs" for p
    using ring [OF entry_in_ring(1)] ring [OF entry_in_ring(2)] by (simp add: klog_entries_def)
  then have "klog_holds (lfb_swap s) cs" using assms by (simp add: flush_ready_def klog_holds_def f)
  moreover have "klog_apart (lfb_swap s)" using a(1) by (simp add: klog_apart_def klog_bytes_def f)
  moreover have "shows_screen R C (lfb_swap s) t"
  proof (rule shows_screen_outside)
    show "shows_screen R C s t" using assms by (simp add: flush_ready_def)
    show "kmem (lfb_swap s) b = kmem s b" if b: "b - fb_buffer (lfb s) < ucast (fb_size (lfb s))" for b
      by (rule out) (rule vram_not_buffer [OF a(2) b])
    show "kmem (lfb_swap s) (fb_font (lfb s) + of_nat i) = kmem s (fb_font (lfb s) + of_nat i)" if "i < 4096" for i
      using a(1) that by (intro out) (simp add: klog_apart_def)
  qed (rule f)
  ultimately show ?thesis using assms by (simp add: flush_ready_def)
qed

text \<open>What a flush prints of the characters written since the last one.\<close>

definition unread :: "u8 list \<Rightarrow> u8 list" where
  "unread cs = (if length cs \<le> 4096 then cs else map of_char ''[drop]'' @ drop (length cs - 4096) cs)"

lemma klog_entries_drop:
  assumes "klog_entries s p cs" "k \<le> length cs"
  shows "klog_entries s (p + of_nat k) (drop k cs)"
  unfolding klog_entries_def
proof (intro allI impI)
  fix i assume i: "i < length (drop k cs)" "length (drop k cs) \<le> i + 4096"
  have eq: "p + of_nat k + of_nat i = p + of_nat (k + i)" by (simp add: ac_simps)
  have "k + i < length cs" "length cs \<le> k + i + 4096" using i assms(2) by simp_all
  with assms(1) have "kmem s (log_entry s (p + of_nat (k + i))) = cs ! (k + i) \<and> kmem s (log_entry s (p + of_nat (k + i)) + 1) \<noteq> 0"
    unfolding klog_entries_def by blast
  then show "kmem s (log_entry s (p + of_nat k + of_nat i)) = drop k cs ! i \<and> kmem s (log_entry s (p + of_nat k + of_nat i) + 1) \<noteq> 0"
    unfolding eq using assms(2) by simp
qed

lemma klog_flush_loop_all:
  assumes r: "flush_ready R C s cs t"
  shows "\<exists>s'. klog_flush_loop False s = Some (cs \<noteq> [], s') \<and> flush_ready R C s' [] (fold (term_put R C) (unread cs) t) \<and>
    klog_read_lock s' = klog_read_lock s \<and> cpu_rflags s' = cpu_rflags s"
proof (cases "length cs \<le> 4096")
  case True
  with klog_flush_loop_ok [OF r, of False] show ?thesis by (simp add: unread_def)
next
  case False
  let ?k = "length cs - 4096" let ?s0 = "s\<lparr>klog_tail := klog_head s - KLOG_BUF_MAX\<rparr>"
  have h: "klog_holds s cs" "klog_apart s" "shows_screen R C s t" using r by (simp_all add: flush_ready_def)
  have hd: "klog_head s = klog_tail s + of_nat (length cs)" and ent: "klog_entries s (klog_tail s) cs"
    using h(1) unfolding klog_holds_def by blast+
  have len: "length cs < 2 ^ 64" using r by (simp add: flush_ready_def)
  have u: "unat (klog_head s - klog_tail s) = length cs" using hd len by (simp add: unat_of_nat)
  have "(of_nat (length cs) :: u64) = of_nat ?k + of_nat 4096" using False by (simp flip: of_nat_add)
  then have tail: "klog_head s - KLOG_BUF_MAX = klog_tail s + of_nat ?k" using hd by (simp add: algebra_simps)
  have "klog_entries ?s0 (klog_head s - KLOG_BUF_MAX) (drop ?k cs)"
    using klog_entries_drop [OF ent, of ?k] unfolding tail by (simp add: klog_entries_def log_entry_def)
  moreover have "klog_head s = klog_head s - KLOG_BUF_MAX + of_nat (length (drop ?k cs))" using False by simp
  ultimately have h0: "klog_holds ?s0 (drop ?k cs)" using h(1) False by (simp add: klog_holds_def)
  have a0: "klog_apart ?s0" using h(2) by (simp add: klog_apart_def klog_bytes_def)
  have "shows_screen R C ?s0 t" using h(3) by (simp add: shows_screen_def shows_term_def lfb_ok_def)
  from console.puts_ok [OF this, of of_char "''[drop]''"] obtain s1 where
    s1: "loop_over (\<lambda>x. kputchar_direct (of_char x)) ''[drop]'' ?s0 = Some s1" "lfb_only ?s0 s1"
    "shows_screen R C s1 (fold (term_put R C) (map of_char ''[drop]'') t)" by blast
  have r1: "flush_ready R C s1 (drop ?k cs) (fold (term_put R C) (map of_char ''[drop]'') t)"
    using print_keeps_ring [OF s1(2) a0] h0 s1(3) len by (simp add: flush_ready_def)
  have d: "klog_drop False s = Some (True, s1)"
  proof -
    have "KLOG_BUF_MAX < klog_head s - klog_tail s" using False by (simp only: word_less_nat_alt u) simp
    then show ?thesis by (simp only: klog_drop_def s1(1) if_True Option.bind.simps)
  qed
  have d1: "klog_drop True s1 = Some (True, s1)"
  proof -
    have "klog_head s1 - klog_tail s1 = KLOG_BUF_MAX" using lfb_only_klog [OF s1(2)] by simp
    then show ?thesis by (simp add: klog_drop_def)
  qed
  have step: "klog_flush_loop False s = klog_flush_loop True s1"
    by (subst (1 2) klog_flush_loop.simps) (simp only: d d1 Option.bind.simps split_conv)
  have "length (drop ?k cs) \<le> 4096" "cs \<noteq> []" using False by auto
  with klog_flush_loop_ok [OF r1, of True] False lfb_only_klog(5,6) [OF s1(2)] show ?thesis
    unfolding step by (simp add: unread_def)
qed

lemma klog_flush_ok:
  assumes r: "flush_ready R C s cs t" and l: "\<not> lock (klog_read_lock s)"
  shows "\<exists>s'. klog_flush_to_screen s = Some s' \<and> flush_ready R C s' [] (fold (term_put R C) (unread cs) t) \<and>
    \<not> lock (klog_read_lock s') \<and>
    (cs \<noteq> [] \<longrightarrow> (\<forall>k < unat (fb_size (lfb s')). kmem s' (fb_vram (lfb s') + of_nat k) = kmem s' (fb_buffer (lfb s') + of_nat k)))"
proof -
  let ?s1 = "s\<lparr>cpu_rflags := cpu_rflags s AND NOT RFLAGS_IF, klog_read_lock := (klog_read_lock s)\<lparr>lock := True\<rparr>\<rparr>"
  have "flush_ready R C ?s1 cs t"
    using r by (simp add: flush_ready_def klog_holds_def klog_entries_def log_entry_def klog_apart_def klog_bytes_def
        shows_screen_def shows_term_def lfb_ok_def)
  from klog_flush_loop_all [OF this] obtain s2 where s2: "klog_flush_loop False ?s1 = Some (cs \<noteq> [], s2)"
    "flush_ready R C s2 [] (fold (term_put R C) (unread cs) t)" by blast
  define s3 where "s3 = (if cs \<noteq> [] then lfb_swap s2 else s2)"
  let ?s4 = "s3\<lparr>cpu_rflags := cpu_rflags s, klog_read_lock := (klog_read_lock s3)\<lparr>lock := False\<rparr>\<rparr>"
  have "flush_ready R C s3 [] (fold (term_put R C) (unread cs) t)" using s2(2) lfb_swap_ready [OF s2(2)] by (cases "cs = []") (simp_all add: s3_def)
  then have r4: "flush_ready R C ?s4 [] (fold (term_put R C) (unread cs) t)"
    by (simp add: flush_ready_def klog_holds_def klog_entries_def log_entry_def klog_apart_def klog_bytes_def
        shows_screen_def shows_term_def lfb_ok_def)
  have "klog_buffer s \<noteq> 0" using r by (simp add: flush_ready_def klog_holds_def)
  then have "klog_flush_to_screen s = Some ?s4"
    using s2(1) l by (simp add: klog_flush_to_screen_def spin_lock_free s3_def spin_lock_irqrestore_def write_rflags_def Let_def)
  moreover have "kmem ?s4 (fb_vram (lfb ?s4) + of_nat k) = kmem ?s4 (fb_buffer (lfb ?s4) + of_nat k)"
    if "cs \<noteq> []" "k < unat (fb_size (lfb ?s4))" for k
  proof -
    have a: "vram_apart (lfb s2)" using s2(2) by (simp add: flush_ready_def klog_apart_def)
    have f: "lfb (lfb_swap s2) = lfb s2" by (simp add: lfb_swap_def)
    have k: "k < unat (fb_size (lfb s2))" using that f by (simp add: s3_def)
    have "\<not> fb_buffer (lfb s2) + of_nat k - fb_vram (lfb s2) < ucast (fb_size (lfb s2))"
      using k unsigned_less [where w = "fb_size (lfb s2)" and 'a = nat]
      by (intro vram_not_buffer [OF a], subst offset_less) (simp_all add: unat_ucast_32)
    with lfb_swap_copies [OF a k] lfb_swap_outside [OF a] that(1) show ?thesis by (simp add: s3_def f)
  qed
  ultimately show ?thesis using r4 by (intro exI [of _ ?s4]) simp
qed

section \<open>What kprintf prints\<close>

text \<open>
  What the directives mean: an \<^verbatim>\<open>int\<close> in decimal; an \<^verbatim>\<open>unsigned int\<close>, a 64-bit word and a pointer in
  hexadecimal after \<^verbatim>\<open>0x\<close>. What the code prints for an \<^verbatim>\<open>int\<close> is \<^verbatim>\<open>kprintf_int\<close>, which is the same for all but
  the most negative one.
\<close>

definition kprintf_conv :: conv where
  "kprintf_conv = \<lparr>
     conv_d = (\<lambda>v. show_int 10 (int_of_u64 v)),
     conv_x = (\<lambda>v. ''0x'' @ show_number 16 (unat (ucast v :: u32))),
     conv_llx = (\<lambda>v. ''0x'' @ show_number 16 (unat v)),
     conv_p = (\<lambda>v. ''0x'' @ show_number 16 (unat v))\<rparr>"

definition kprintf_int :: "u32 \<Rightarrow> string" where
  "kprintf_int i =
     (if i <s 0 then CHR ''-'' # show_number 10 (unat (u64_of_int32 (- i))) else show_number 10 (unat (u64_of_int32 i)))"

definition kprintf_code_conv :: conv where
  "kprintf_code_conv = kprintf_conv\<lparr>conv_d := (\<lambda>v. kprintf_int (ucast v))\<rparr>"

definition no_int_min :: "string \<Rightarrow> arg list \<Rightarrow> bool" where
  "no_int_min cs as \<longleftrightarrow> (\<forall>a. (CHR ''d'', a) \<in> set (directives cs as) \<longrightarrow> int_of_u64 (arg_word a) \<noteq> - (2 ^ 31))"

lemma kprintf_int_show:
  assumes "sint i \<noteq> - (2 ^ 31)"
  shows "kprintf_int i = show_int 10 (sint i)"
proof -
  have lo: "- (2 ^ 31) < sint i" using assms sint_greater_eq [of i] by simp
  have pos: "unat (u64_of_int32 j) = unat j" if "unat j < 2 ^ 31" for j
    using u64_of_int32_nat [OF that] by (simp add: unat_ucast_32)
  show ?thesis
  proof (cases "sint i < 0")
    case True
    with lo pos [of "- i"] show ?thesis
      by (simp add: kprintf_int_def show_int_def word_sless_alt unat_minus_sint)
  next
    case False
    have "sint i < 2 ^ 31" using sint_less [of i] by simp
    with False pos [of i] show ?thesis by (simp add: kprintf_int_def show_int_def word_sless_alt unat_sint)
  qed
qed

lemma kprintf_code_renders:
  assumes "no_int_min cs as"
  shows "render kprintf_code_conv cs as = render kprintf_conv cs as"
proof (rule render_agree, intro ballI, clarify)
  fix d a assume da: "(d, a) \<in> set (directives cs as)"
  have "kprintf_int (ucast (arg_word a)) = show_int 10 (int_of_u64 (arg_word a))" if "d = CHR ''d''"
    using assms da that kprintf_int_show [of "ucast (arg_word a)"] by (auto simp: no_int_min_def int_of_u64_def)
  then show "conv_agree kprintf_code_conv kprintf_conv d (arg_word a)"
    by (simp add: conv_agree_def kprintf_code_conv_def kprintf_conv_def)
qed

text \<open>
  The progress of \<^verbatim>\<open>kprintf\<close>: what was logged so far is in the ring and in \<^verbatim>\<open>local_buf\<close>, which never
  holds more than 255 bytes between two writes.
\<close>

definition kshown :: "u8 list \<times> 'a klogstate_scheme \<Rightarrow> u8 list \<Rightarrow> bool" where
  "kshown bs cs \<longleftrightarrow> (\<exists>ms. klog_holds (snd bs) ms \<and> cs = ms @ fst bs) \<and> length (fst bs) \<le> 255"

definition konly :: "u8 list \<times> 'a klogstate_scheme \<Rightarrow> u8 list \<times> 'a klogstate_scheme \<Rightarrow> bool" where
  "konly bs bs' \<longleftrightarrow> klog_only (snd bs) (snd bs')"

lemma klog_only_refl [simp]: "klog_only s s"
  by (simp add: klog_only_def)

lemma konly_refl [simp]: "konly bs bs"
  by (simp add: konly_def)

lemma konly_trans: "konly bs bs1 \<Longrightarrow> konly bs1 bs2 \<Longrightarrow> konly bs bs2"
  unfolding konly_def by (rule klog_only_trans)

lemma klog_write_small:
  assumes "klog_holds s ms" "length buf \<le> 255"
  shows "\<exists>s'. klog_write buf s = Some s' \<and> klog_holds s' (ms @ buf) \<and> klog_only s s'"
  using klog_write_ok [OF assms(1), of buf] assms(2) by simp

lemma flush_buf:
  assumes "kshown bs cs"
  shows "\<exists>s'. klog_write (fst bs) (snd bs) = Some s' \<and> kshown ([], s') cs \<and> konly bs ([], s')"
proof -
  obtain ms where "klog_holds (snd bs) ms" "cs = ms @ fst bs" "length (fst bs) \<le> 255" using assms by (auto simp: kshown_def)
  then show ?thesis using klog_write_small [of "snd bs" ms "fst bs"] by (auto simp: kshown_def konly_def)
qed

lemma check_and_flush_ok:
  assumes "kshown bs cs"
  shows "\<exists>bs'. check_and_flush (fst bs) (snd bs) = Some bs' \<and> kshown bs' cs \<and> konly bs bs' \<and> length (fst bs') \<le> 254"
proof (cases "255 \<le> length (fst bs)")
  case True
  with flush_buf [OF assms] show ?thesis by (auto simp: check_and_flush_def)
next
  case False
  with assms show ?thesis by (auto simp: check_and_flush_def)
qed

lemma local_put_ok:
  assumes "kshown bs cs" "length (fst bs) + length us \<le> 255"
  shows "local_put (fst bs) us = Some (fst bs @ us) \<and> kshown (fst bs @ us, snd bs) (cs @ us) \<and> konly bs (fst bs @ us, snd bs)"
  using assms by (auto simp: local_put_def kshown_def konly_def)

lemma kput_ok:
  assumes "kshown bs cs"
  shows "\<exists>bs'. kput c bs = Some bs' \<and> konly bs bs' \<and> kshown bs' (cs @ [c])"
proof -
  obtain bs1 where b: "check_and_flush (fst bs) (snd bs) = Some bs1" "kshown bs1 cs" "konly bs bs1" "length (fst bs1) \<le> 254"
    using check_and_flush_ok [OF assms] by blast
  have "length (fst bs1) + length [c] \<le> 255" using b(4) by simp
  note p = local_put_ok [OF b(2) this]
  then have "kput c bs = Some (fst bs1 @ [c], snd bs1)" using b(1) by (simp add: kput_def split_def)
  with p konly_trans [OF b(3)] show ?thesis by blast
qed

interpretation kbuf: char_sink kput kshown "\<lambda>c cs. cs @ [c]" konly
  using kput_ok konly_trans by unfold_locales auto

lemma fold_snoc: "fold (\<lambda>c cs. cs @ [c]) us cs = cs @ us"
  by (induction us arbitrary: cs) simp_all

lemma temp_digits_eq:
  assumes "2 \<le> unat radix" "num \<noteq> 0" "length (digits_of (unat radix) (unat num)) \<le> n"
  shows "temp_digits n num radix = map digit_char (rev (digits_of (unat radix) (unat num)))"
  using assms(2,3)
proof (induction n arbitrary: num)
  case 0
  then show ?case using digits_of_nonempty [of "unat radix" "unat num"] by simp
next
  case (Suc n)
  show ?case
  proof (cases "unat num < unat radix")
    case True
    then have "num div radix = 0" "unat (num mod radix) = unat num" by (simp_all add: word_unat_eq_iff unat_div unat_mod)
    moreover have "temp_digits n 0 radix = []" by (cases n) simp_all
    ultimately show ?thesis using Suc.prems True by (simp add: digits_of.simps [of "unat radix"])
  next
    case False
    have "0 < unat (num div radix)" using False assms(1) by (simp add: unat_div div_greater_zero_iff)
    then have nz: "num div radix \<noteq> 0" by auto
    have d: "digits_of (unat radix) (unat num) = digits_of (unat radix) (unat (num div radix)) @ [unat (num mod radix)]"
      using False assms(1) by (subst digits_of.simps) (simp add: unat_div unat_mod)
    then have "length (digits_of (unat radix) (unat (num div radix))) \<le> n" using Suc.prems(2) by simp
    from Suc.IH [OF nz this] Suc.prems(1) show ?thesis by (simp add: d)
  qed
qed

lemma local_putnum_ok:
  assumes "4 \<le> unat radix"
  shows "local_putnum num radix = Some (show_number (unat radix) (unat num))" "length (show_number (unat radix) (unat num)) \<le> 32"
proof -
  have r: "2 \<le> unat radix" using assms by simp
  have "unat num < 2 ^ 64" using unsigned_less [where w = num and 'a = nat] by simp
  also have "(2 :: nat) ^ 64 = 4 ^ 32" by simp
  also have "(4 :: nat) ^ 32 \<le> unat radix ^ 32" using assms by (rule power_mono) simp
  finally have len: "length (digits_of (unat radix) (unat num)) \<le> 32" using digits_of_length [OF r] by simp
  then show l: "length (show_number (unat radix) (unat num)) \<le> 32" by (simp add: show_number_def)
  have "radix \<noteq> 0" using r by auto
  then show "local_putnum num radix = Some (show_number (unat radix) (unat num))"
    using len temp_digits_eq [OF r, of num 64]
    by (cases "num = 0") (simp_all add: local_putnum_def show_number_def digits_of_zero digit_char_def rev_map)
qed

lemma kput_num_ok:
  assumes "kshown bs cs" "4 \<le> unat radix"
  shows "\<exists>bs'. kput_num num radix bs = Some bs' \<and> konly bs bs' \<and>
    kshown bs' (cs @ map of_char (show_number (unat radix) (unat num)))"
proof -
  note d = local_putnum_ok [OF assms(2), of num]
  have "\<exists>bs1. (if KPRINTF_BUF_MAX - 35 < length (fst bs)
       then do { s1 \<leftarrow> klog_write (fst bs) (snd bs); Some ([], s1) } else Some bs) = Some bs1 \<and>
     kshown bs1 cs \<and> konly bs bs1 \<and> length (fst bs1) \<le> 221"
  proof (cases "KPRINTF_BUF_MAX - 35 < length (fst bs)")
    case True
    with flush_buf [OF assms(1)] show ?thesis by auto
  next
    case False
    with assms(1) show ?thesis by (intro exI [of _ bs]) simp
  qed
  then obtain bs1 where b: "(if KPRINTF_BUF_MAX - 35 < length (fst bs)
       then do { s1 \<leftarrow> klog_write (fst bs) (snd bs); Some ([], s1) } else Some bs) = Some bs1"
     "kshown bs1 cs" "konly bs bs1" "length (fst bs1) \<le> 221" by blast
  have "length (fst bs1) + length (map of_char (show_number (unat radix) (unat num)) :: u8 list) \<le> 255" using b(4) d(2) by simp
  note p = local_put_ok [OF b(2) this]
  then have "kput_num num radix bs = Some (fst bs1 @ map of_char (show_number (unat radix) (unat num)), snd bs1)"
    unfolding kput_num_def b(1) d(1) by (simp add: split_def)
  with p konly_trans [OF b(3)] show ?thesis by blast
qed

lemma kput_num_10: "kshown bs cs \<Longrightarrow>
    \<exists>bs'. kput_num num 10 bs = Some bs' \<and> konly bs bs' \<and> kshown bs' (cs @ map of_char (show_number 10 (unat num)))"
  using kput_num_ok [of bs cs 10 num] by simp

lemma kput_num_16: "kshown bs cs \<Longrightarrow>
    \<exists>bs'. kput_num num 16 bs = Some bs' \<and> konly bs bs' \<and> kshown bs' (cs @ map of_char (show_number 16 (unat num)))"
  using kput_num_ok [of bs cs 16 num] by simp

text \<open>One operation after another.\<close>

lemma kthen:
  assumes "\<exists>bs1. act = Some bs1 \<and> konly bs bs1 \<and> kshown bs1 (cs @ us)"
    and "\<And>bs1. konly bs bs1 \<Longrightarrow> kshown bs1 (cs @ us) \<Longrightarrow> \<exists>bs2. k bs1 = Some bs2 \<and> konly bs1 bs2 \<and> kshown bs2 ((cs @ us) @ ts)"
  shows "\<exists>bs2. act \<bind> k = Some bs2 \<and> konly bs bs2 \<and> kshown bs2 (cs @ us @ ts)"
proof -
  obtain bs1 where b: "act = Some bs1" "konly bs bs1" "kshown bs1 (cs @ us)" using assms(1) by blast
  from assms(2) [OF b(2,3)] b(1) konly_trans [OF b(2)] show ?thesis by auto
qed

lemma kput_hex_ok:
  assumes "kshown bs cs"
  shows "\<exists>bs'. kput_hex v bs = Some bs' \<and> konly bs bs' \<and> kshown bs' (cs @ map of_char (''0x'' @ show_number 16 (unat v)))"
proof -
  have "\<exists>bs2. kput (of_char (CHR ''x'')) bs1 \<bind> kput_num v 16 = Some bs2 \<and> konly bs1 bs2 \<and>
      kshown bs2 ((cs @ [of_char (CHR ''0'')]) @ [of_char (CHR ''x'')] @ map of_char (show_number 16 (unat v)))"
    if "kshown bs1 (cs @ [of_char (CHR ''0'')])" for bs1 :: "u8 list \<times> 'a klogstate_scheme"
    by (rule kthen [OF kput_ok [OF that]]) (rule kput_num_16)
  from kthen [OF kput_ok [OF assms, of "of_char (CHR ''0'')"] this] show ?thesis by (simp add: kput_hex_def)
qed

lemma kput_int_ok:
  assumes "kshown bs cs"
  shows "\<exists>bs'. kput_int i bs = Some bs' \<and> konly bs bs' \<and> kshown bs' (cs @ map of_char (kprintf_int i))"
proof (cases "i <s 0")
  case True
  have "\<exists>bs2. kput (of_char (CHR ''-'')) bs \<bind> kput_num (u64_of_int32 (- i)) 10 = Some bs2 \<and> konly bs bs2 \<and>
      kshown bs2 (cs @ [of_char (CHR ''-'')] @ map of_char (show_number 10 (unat (u64_of_int32 (- i)))))"
    by (rule kthen [OF kput_ok [OF assms]]) (rule kput_num_10)
  with True show ?thesis by (simp add: kput_int_def kprintf_int_def)
next
  case False
  from kput_num_10 [OF assms, of "u64_of_int32 i"] False show ?thesis by (simp add: kput_int_def kprintf_int_def)
qed

section \<open>The format\<close>

text \<open>A string that does not lie in the ring, so that logging does not change it.\<close>

definition stable :: "'a klogstate_scheme \<Rightarrow> u64 \<Rightarrow> string \<Rightarrow> bool" where
  "stable s p cs \<longleftrightarrow> (\<forall>m. (\<forall>a. a \<notin> klog_bytes s \<longrightarrow> m a = kmem s a) \<longrightarrow> cstr m p cs)"

lemma stable_only: "klog_only s s' \<Longrightarrow> stable s p cs \<Longrightarrow> stable s' p cs"
  using klog_only_fields(1) [of s s'] by (simp add: stable_def klog_only_def klog_bytes_def)

lemma stable_cstr: "stable s p cs \<Longrightarrow> cstr (kmem s) p cs"
  by (simp add: stable_def)

lemma stable_tl: "stable s p (c # cs) \<Longrightarrow> stable s (p + 1) cs"
  by (simp add: stable_def)

lemma kput_string_ok:
  "kshown bs ms \<Longrightarrow> stable (snd bs) p cs \<Longrightarrow>
    \<exists>bs'. kput_string p bs = Some bs' \<and> konly bs bs' \<and> kshown bs' (ms @ map of_char cs)"
proof (induction cs arbitrary: p bs ms)
  case Nil
  then show ?case using stable_cstr [OF Nil.prems(2)] by (subst kput_string.simps) simp
next
  case (Cons c cs)
  have c: "kmem (snd bs) p = of_char c" "kmem (snd bs) p \<noteq> 0" using stable_cstr [OF Cons.prems(2)] unfolding cstr.simps by blast+
  have "\<exists>bs2. kput (of_char c) bs \<bind> kput_string (p + 1) = Some bs2 \<and> konly bs bs2 \<and>
      kshown bs2 (ms @ [of_char c] @ map of_char cs)"
    by (rule kthen [OF kput_ok [OF Cons.prems(1)]])
      (rule Cons.IH, assumption, unfold konly_def, erule stable_only, rule stable_tl [OF Cons.prems(2)])
  then show ?case using c by (subst kput_string.simps) (simp add: Let_def)
qed

definition stable_args :: "'a klogstate_scheme \<Rightarrow> arg list \<Rightarrow> bool" where
  "stable_args s as \<longleftrightarrow> (\<forall>a t. Str a t \<in> set as \<longrightarrow> stable s a t)"

lemma stable_args_Cons [simp]: "stable_args s (x # as) \<longleftrightarrow> (\<forall>a t. x = Str a t \<longrightarrow> stable s a t) \<and> stable_args s as"
  by (auto simp: stable_args_def)

lemma stable_args_only: "klog_only s s' \<Longrightarrow> stable_args s as \<Longrightarrow> stable_args s' as"
  by (auto simp: stable_args_def intro: stable_only)

text \<open>One turn of the loop at an ordinary character and at a directive.\<close>

lemma kprintf_loop_char:
  assumes "kmem (snd bs) p = of_char c" "kmem (snd bs) p \<noteq> 0" "c \<noteq> CHR ''%''"
  shows "kprintf_loop p ys bs =
    do { bs \<leftarrow> check_and_flush (fst bs) (snd bs); buf \<leftarrow> local_put (fst bs) [of_char c]; kprintf_loop (p + 1) ys (buf, snd bs) }"
  using assms by (subst kprintf_loop.simps) (simp add: Let_def byte_char)

lemma kprintf_loop_directive:
  assumes "kmem (snd bs) p = 0x25" "check_and_flush (fst bs) (snd bs) = Some bs1"
    "kmem (snd bs1) (p + 1) = of_char d" "q = p + 1 + 1"
  shows "kprintf_loop p ys bs =
     (if d = CHR ''s'' then
        (case ys of [] \<Rightarrow> None | a # rest \<Rightarrow> kput_string a bs1 \<bind> kprintf_loop q rest)
      else if d = CHR ''d'' then
        (case ys of [] \<Rightarrow> None | a # rest \<Rightarrow> kput_int (ucast a) bs1 \<bind> kprintf_loop q rest)
      else if d = CHR ''x'' then
        (case ys of [] \<Rightarrow> None | a # rest \<Rightarrow> kput_hex (ucast (ucast a :: u32)) bs1 \<bind> kprintf_loop q rest)
      else if d = CHR ''l'' then
        if kmem (snd bs1) q = 0x6C \<and> kmem (snd bs1) (q + 1) = 0x78 then
          (case ys of [] \<Rightarrow> None | a # rest \<Rightarrow> kput_hex a bs1 \<bind> kprintf_loop (q + 2) rest)
        else kprintf_loop q ys bs1
      else if d = CHR ''p'' then
        (case ys of [] \<Rightarrow> None | a # rest \<Rightarrow> kput_hex a bs1 \<bind> kprintf_loop q rest)
      else if d = CHR ''%'' then do { buf \<leftarrow> local_put (fst bs1) [0x25]; kprintf_loop q ys (buf, snd bs1) }
      else kprintf_loop q ys bs1)"
proof -
  have nz: "(0x25 :: u8) = 0 \<longleftrightarrow> False" "(0x25 :: u8) \<noteq> 0x25 \<longleftrightarrow> False" by simp_all
  have q: "p + 1 + 1 = q" "p + 1 + 2 = q + 1" "p + 1 + 3 = q + 2" using assms(4) by (simp_all add: add.assoc)
  show ?thesis
    by (subst kprintf_loop.simps)
      (simp only: q Let_def assms(1-3) Option.bind.simps byte_char nz if_False)
qed

lemma kprintf_loop_renders:
  fixes bs :: "u8 list \<times> 'a klogstate_scheme"
  shows "render kprintf_code_conv cs xs = Some out \<Longrightarrow> stable (snd bs) p cs \<Longrightarrow> stable_args (snd bs) xs \<Longrightarrow> kshown bs ms \<Longrightarrow>
    \<exists>bs'. kprintf_loop p (map arg_word xs) bs = Some bs' \<and> konly bs bs' \<and> kshown bs' (ms @ map of_char out)"
proof (induction cs arbitrary: xs p bs ms out rule: length_induct)
  case (1 cs)
  obtain bs1 where b1: "check_and_flush (fst bs) (snd bs) = Some bs1" "kshown bs1 ms" "konly bs bs1" "length (fst bs1) \<le> 254"
    using check_and_flush_ok [OF "1.prems"(4)] by blast
  have st1: "stable (snd bs1) p cs" "stable_args (snd bs1) xs"
    using b1(3) "1.prems"(2,3) stable_only stable_args_only unfolding konly_def by blast+
  have IH: "\<exists>bs'. kprintf_loop q (map arg_word zs) b = Some bs' \<and> konly b bs' \<and> kshown bs' ((ms @ map of_char u) @ map of_char t)"
    if "length ds < length cs" "render kprintf_code_conv ds zs = Some t" "stable (snd bs1) q ds" "stable_args (snd bs1) zs"
      "konly bs1 b" "kshown b (ms @ map of_char u)" for ds zs q u t and b :: "u8 list \<times> 'a klogstate_scheme"
    using "1.IH" [rule_format, OF that(1,2) _ _ that(6)] that(3-5) stable_only stable_args_only unfolding konly_def by blast
  have finish: "\<exists>bs'. r = Some bs' \<and> konly bs bs' \<and> kshown bs' (ms @ map of_char out)"
    if "\<exists>bs'. r = Some bs' \<and> konly bs1 bs' \<and> kshown bs' (ms @ map of_char out)" for r
    using that konly_trans [OF b1(3)] by blast
  have emit: "\<exists>bs'. (do { buf \<leftarrow> local_put (fst bs1) [of_char c]; k (buf, snd bs1) }) = Some bs' \<and> konly bs1 bs' \<and>
      kshown bs' (ms @ map of_char [c] @ map of_char t)"
    if "\<And>b. konly bs1 b \<Longrightarrow> kshown b (ms @ map of_char [c]) \<Longrightarrow>
      \<exists>bs'. k b = Some bs' \<and> konly b bs' \<and> kshown bs' ((ms @ map of_char [c]) @ map of_char t)" for c k t
  proof -
    have "length (fst bs1) + length [of_char c :: u8] \<le> 255" using b1(4) by simp
    note p = local_put_ok [OF b1(2) this]
    have "\<exists>bs'. Some (fst bs1 @ [of_char c], snd bs1) \<bind> k = Some bs' \<and> konly bs1 bs' \<and>
        kshown bs' (ms @ map of_char [c] @ map of_char t)"
      by (rule kthen) (use p that in auto)
    with p show ?thesis by simp
  qed
  show ?case
  proof (cases cs)
    case Nil
    with "1.prems" stable_cstr [OF "1.prems"(2)] show ?thesis by (subst kprintf_loop.simps) simp
  next
    case (Cons c es)
    have c: "kmem (snd bs) p = of_char c" "kmem (snd bs) p \<noteq> 0"
      using stable_cstr [OF "1.prems"(2)] unfolding Cons cstr.simps by blast+
    have es: "stable (snd bs1) (p + 1) es" using st1(1) unfolding Cons by (rule stable_tl)
    show ?thesis
    proof (cases "c = CHR ''%''")
      case False
      then obtain t where t: "render kprintf_code_conv es xs = Some t" "out = [c] @ t"
        using "1.prems"(1) Cons by (auto simp: render.simps(2) bind_eq_Some_conv)
      have "\<exists>bs'. (do { buf \<leftarrow> local_put (fst bs1) [of_char c]; kprintf_loop (p + 1) (map arg_word xs) (buf, snd bs1) }) = Some bs' \<and>
          konly bs1 bs' \<and> kshown bs' (ms @ map of_char [c] @ map of_char t)"
        by (rule emit, rule IH [OF _ t(1) es st1(2)]) (simp_all add: Cons)
      then show ?thesis
        unfolding kprintf_loop_char [OF c False] b1(1) Option.bind.simps t(2) map_append by (rule finish [unfolded t(2) map_append])
    next
      case True
      with "1.prems"(1) Cons obtain d ds where ds: "es = d # ds" by (cases es) (simp_all add: render.simps(2))
      obtain q where q: "q = p + 1 + 1" by blast
      have d: "kmem (snd bs1) (p + 1) = of_char d" using stable_cstr [OF es] unfolding ds cstr.simps by blast
      have qds: "stable (snd bs1) q ds" using stable_tl [OF es [unfolded ds]] unfolding q .
      have p25: "kmem (snd bs) p = 0x25" using c(1) True by simp
      have len: "length ds < length cs" using Cons ds by simp
      note step = kprintf_loop_directive [OF p25 b1(1) d q]
      show ?thesis
      proof (cases "directive kprintf_code_conv d")
        case (Some f)
        then obtain a xs' u t where a: "xs = a # xs'" "f a = Some u" "render kprintf_code_conv ds xs' = Some t" "out = u @ t"
          using "1.prems"(1) Cons ds True by (auto simp: render.simps(2) bind_eq_Some_conv split: list.splits)
        have st': "stable_args (snd bs1) xs'" using st1(2) a(1) by simp
        have run: "\<exists>bs'. act \<bind> kprintf_loop q (map arg_word xs') = Some bs' \<and> konly bs bs' \<and> kshown bs' (ms @ map of_char out)"
          if "\<exists>b. act = Some b \<and> konly bs1 b \<and> kshown b (ms @ map of_char u)" for act
          unfolding a(4) map_append
          by (rule finish [unfolded a(4) map_append], rule kthen [OF that], rule IH [OF len a(3) qds st'])
        consider "d = CHR ''s''" "f = arg_text" | "d = CHR ''d''" "f = (\<lambda>a. Some (conv_d kprintf_code_conv (arg_word a)))"
          | "d = CHR ''x''" "f = (\<lambda>a. Some (conv_x kprintf_code_conv (arg_word a)))"
          | "d = CHR ''p''" "f = (\<lambda>a. Some (conv_p kprintf_code_conv (arg_word a)))"
          using Some by (auto simp: directive_def split: if_splits)
        then show ?thesis
        proof cases
          case 1
          then obtain b where b: "a = Str b u" using a(2) by (cases a) auto
          then have "stable (snd bs1) b u" using st1(2) a(1) by simp
          from run [OF kput_string_ok [OF b1(2) this]] show ?thesis unfolding step a(1) using 1 b by simp
        next
          case 2
          then have u: "u = kprintf_int (ucast (arg_word a))" using a(2) by (simp add: kprintf_code_conv_def kprintf_conv_def)
          from run [OF kput_int_ok [OF b1(2), of "ucast (arg_word a)", folded u]] show ?thesis unfolding step a(1) using 2 by simp
        next
          case 3
          then have u: "u = ''0x'' @ show_number 16 (unat (ucast (ucast (arg_word a) :: u32) :: u64))"
            using a(2) by (simp add: kprintf_code_conv_def kprintf_conv_def unat_ucast_32)
          from run [OF kput_hex_ok [OF b1(2), of "ucast (ucast (arg_word a) :: u32)", folded u]] show ?thesis
            unfolding step a(1) using 3 by simp
        next
          case 4
          then have u: "u = ''0x'' @ show_number 16 (unat (arg_word a))" using a(2) by (simp add: kprintf_code_conv_def kprintf_conv_def)
          from run [OF kput_hex_ok [OF b1(2), of "arg_word a", folded u]] show ?thesis unfolding step a(1) using 4 by simp
        qed
      next
        case None
        then have nd: "d \<noteq> CHR ''s''" "d \<noteq> CHR ''d''" "d \<noteq> CHR ''x''" "d \<noteq> CHR ''p''"
          by (auto simp: directive_def)
        have silent: "\<exists>bs'. kprintf_loop q (map arg_word xs) bs1 = Some bs' \<and> konly bs1 bs' \<and> kshown bs' (ms @ map of_char out)"
          if "render kprintf_code_conv ds xs = Some out"
          using IH [OF len that qds st1(2) konly_refl, of "[]"] b1(2) by simp
        consider (llx) "d = CHR ''l''" "take 2 ds = ''lx''" | (l) "d = CHR ''l''" "take 2 ds \<noteq> ''lx''"
          | (percent) "d = CHR ''%''" | (other) "d \<noteq> CHR ''l''" "d \<noteq> CHR ''%''" by blast
        then show ?thesis
        proof cases
          case llx
          then obtain fs where fs: "ds = CHR ''l'' # CHR ''x'' # fs"
            by (cases ds; cases "tl ds") (auto simp: numeral_2_eq_2)
          obtain a xs' t u where a: "xs = a # xs'" "render kprintf_code_conv fs xs' = Some t"
            "out = u @ t" "u = ''0x'' @ show_number 16 (unat (arg_word a))"
            using "1.prems"(1) Cons ds True None llx fs
            by (auto simp: render.simps(2) bind_eq_Some_conv kprintf_code_conv_def kprintf_conv_def split: list.splits)
          have lx: "kmem (snd bs1) q = 0x6C" "kmem (snd bs1) (q + 1) = 0x78"
            using stable_cstr [OF qds] fs by simp_all
          have q2: "stable (snd bs1) (q + 2) fs"
            using stable_tl [OF stable_tl [OF qds [unfolded fs]]] by (simp add: add.assoc)
          have "length fs < length cs" using len fs by simp
          note go = IH [OF this a(2) q2]
          have "\<exists>bs'. kput_hex (arg_word a) bs1 \<bind> kprintf_loop (q + 2) (map arg_word xs') = Some bs' \<and> konly bs bs' \<and>
              kshown bs' (ms @ map of_char out)"
            unfolding a(3) map_append
            by (rule finish [unfolded a(3) map_append], rule kthen [OF kput_hex_ok [OF b1(2), of "arg_word a", folded a(4)]],
                rule go) (use st1(2) a(1) in simp_all)
          then show ?thesis unfolding step a(1) using llx lx by simp
        next
          case l
          have "\<not> (kmem (snd bs1) q = 0x6C \<and> kmem (snd bs1) (q + 1) = 0x78)"
          proof
            assume lx: "kmem (snd bs1) q = 0x6C \<and> kmem (snd bs1) (q + 1) = 0x78"
            then obtain e fs where "ds = e # fs" using stable_cstr [OF qds] by (cases ds) auto
            with lx stable_cstr [OF qds] l(2) show False by (cases fs) (auto simp: byte_char)
          qed
          moreover have r: "render kprintf_code_conv ds xs = Some out"
            using "1.prems"(1) Cons ds True None l by (simp add: render.simps(2))
          ultimately have "kprintf_loop p (map arg_word xs) bs = kprintf_loop q (map arg_word xs) bs1"
            unfolding step using l(1) by auto
          with finish [OF silent [OF r]] show ?thesis by simp
        next
          case percent
          then obtain t where t: "render kprintf_code_conv ds xs = Some t" "out = [CHR ''%''] @ t"
            using "1.prems"(1) Cons ds True None by (auto simp: render.simps(2) bind_eq_Some_conv)
          have "\<exists>bs'. (do { buf \<leftarrow> local_put (fst bs1) [of_char (CHR ''%'')]; kprintf_loop q (map arg_word xs) (buf, snd bs1) }) =
              Some bs' \<and> konly bs1 bs' \<and> kshown bs' (ms @ map of_char ''%'' @ map of_char t)"
            by (rule emit, rule IH [OF len t(1) qds st1(2)])
          from finish [unfolded t(2) map_append, OF this] show ?thesis unfolding step t(2) map_append using percent by simp
        next
          case other
          have "render kprintf_code_conv ds xs = Some out"
            using "1.prems"(1) Cons ds True None other by (simp add: render.simps(2))
          from finish [OF silent [OF this]] show ?thesis unfolding step using other nd by simp
        qed
      qed
    qed
  qed
qed

section \<open>Properties\<close>

lemma in_range_nat:
  fixes a lo n :: u64
  assumes "a - lo < n" "unat lo + unat n \<le> 2 ^ 64"
  shows "unat lo \<le> unat a" "unat a < unat lo + unat n"
proof -
  have n: "unat (a - lo) < unat n" using assms(1) by (simp add: word_less_nat_alt)
  then have "unat (lo + (a - lo)) = unat lo + unat (a - lo)" using assms(2) by (intro unat_add_64) linarith
  then have "unat a = unat lo + unat (a - lo)" by simp
  with n show "unat lo \<le> unat a" "unat a < unat lo + unat n" by linarith+
qed

lemma klog_only_ready:
  assumes "klog_only s s'" "klog_apart s" "shows_screen R C s t" "klog_holds s' cs" "length cs < 2 ^ 64"
  shows "flush_ready R C s' cs t"
proof -
  note f = klog_only_fields [OF assms(1)]
  have out: "kmem s' a = kmem s a" if "a \<notin> klog_bytes s" for a using assms(1) that by (simp add: klog_only_def)
  have "shows_screen R C s' t"
    by (rule shows_screen_outside [OF assms(3) f(5)]) (use assms(2) in \<open>auto simp: klog_apart_def intro!: out\<close>)
  moreover have "klog_apart s'" using assms(2) by (simp add: klog_apart_def klog_bytes_def f)
  ultimately show ?thesis using assms(4,5) by (simp add: flush_ready_def)
qed

text \<open>
  C17: What is written to the log is printed by the next flush, in order and after what was unread
  before; when more than 4096 characters are waiting, the flush prints \<^verbatim>\<open>[drop]\<close> and the last 4096. The
  ring is empty afterwards, and the video memory holds the same bytes as the back buffer.
\<close>

theorem klog_write_then_flush:
  assumes r: "flush_ready R C s cs t" and "\<not> lock (klog_read_lock s)" "bs \<noteq> []"
    and len: "length cs + length (take 4096 bs) < 2 ^ 64"
  shows "\<exists>s1 s2. klog_write bs s = Some s1 \<and> klog_flush_to_screen s1 = Some s2 \<and>
    flush_ready R C s2 [] (fold (term_put R C) (unread (cs @ take 4096 bs)) t) \<and>
    (\<forall>k < unat (fb_size (lfb s2)). kmem s2 (fb_vram (lfb s2) + of_nat k) = kmem s2 (fb_buffer (lfb s2) + of_nat k))"
proof -
  have h: "klog_holds s cs" "klog_apart s" "shows_screen R C s t" using r by (simp_all add: flush_ready_def)
  obtain s1 where s1: "klog_write bs s = Some s1" "klog_holds s1 (cs @ take 4096 bs)" "klog_only s s1"
    using klog_write_ok [OF h(1)] by blast
  have "flush_ready R C s1 (cs @ take 4096 bs) t"
    by (rule klog_only_ready [OF s1(3) h(2,3) s1(2)]) (use len in simp)
  moreover have "\<not> lock (klog_read_lock s1)" using assms(2) klog_only_fields(4) [OF s1(3)] by simp
  moreover have "cs @ take 4096 bs \<noteq> []" using assms(3) by simp
  ultimately obtain s2 where "klog_flush_to_screen s1 = Some s2"
    "flush_ready R C s2 [] (fold (term_put R C) (unread (cs @ take 4096 bs)) t)"
    "\<forall>k < unat (fb_size (lfb s2)). kmem s2 (fb_vram (lfb s2) + of_nat k) = kmem s2 (fb_buffer (lfb s2) + of_nat k)"
    using klog_flush_ok by metis
  with s1(1) show ?thesis by blast
qed

text \<open>An example whose positions are about to wrap around.\<close>

definition klog_example :: klogstate where
  "klog_example = lfbstate.extend lfb_example
     \<lparr>klog_buffer = 0x300000, klog_head = 0xFFFFFFFFFFFFFFFF, klog_tail = 0xFFFFFFFFFFFFFFFF,
      klog_write_lock = \<lparr>lock = False\<rparr>, klog_read_lock = \<lparr>lock = False\<rparr>\<rparr>"

lemma klog_example_ready: "flush_ready 2 2 klog_example [] blank_terminal"
proof -
  have f: "lfb klog_example = lfb lfb_example" "kmem klog_example = kmem lfb_example" "klog_buffer klog_example = 0x300000"
    by (simp_all add: klog_example_def lfbstate.defs)
  have l: "fb_buffer (lfb lfb_example) = 0x100000" "fb_vram (lfb lfb_example) = 0x400000" "fb_size (lfb lfb_example) = 2048"
    "fb_font (lfb lfb_example) = 0x200000" "text_rows (lfb lfb_example) = 2" "text_cols (lfb lfb_example) = 2"
    by (simp_all add: lfb_example_def usstate.defs)
  have "shows_screen 2 2 klog_example blank_terminal"
    using lfb_example_shows by (simp add: shows_screen_def shows_term_def lfb_ok_def f l)
  moreover have "klog_holds klog_example []"
    by (simp add: klog_holds_def klog_entries_def klog_example_def lfbstate.defs)
  moreover have "klog_apart klog_example"
  proof -
    have font: "unat ((0x200000 :: u64) + of_nat i) = 0x200000 + i" if "i < 4096" for i
      using that by (subst unat_add_64) (simp_all add: unat_of_nat)
    have "\<not> a - 0x100000 < 0x800 \<and> \<not> a - 0x400000 < 0x800 \<and> (\<forall>i < 4096. a \<noteq> 0x200000 + of_nat i)"
      if "a - 0x300000 < 0x2000" for a :: u64
    proof -
      have a: "0x300000 \<le> unat a" "unat a < 0x302000" using in_range_nat [OF that] by simp_all
      then have "\<not> a - 0x100000 < 0x800" "\<not> a - 0x400000 < 0x800"
        using in_range_nat [of a "0x100000" "0x800"] in_range_nat [of a "0x400000" "0x800"] by (intro notI; simp)+
      moreover have "a \<noteq> 0x200000 + of_nat i" if "i < 4096" for i using a(1) font [OF that] that by (intro notI) simp
      ultimately show ?thesis by blast
    qed
    moreover have "\<not> 0x200000 + of_nat i - 0x400000 < (0x800 :: u64)" if "i < 4096" for i
      using in_range_nat [of "0x200000 + of_nat i" "0x400000" "0x800"] font [OF that] that by (intro notI) simp
    ultimately show ?thesis by (simp add: klog_apart_def vram_apart_def klog_bytes_def f l)
  qed
  ultimately show ?thesis by (simp add: flush_ready_def)
qed

theorem klog_write_then_flush_witness:
  "\<exists>s1 s2. klog_write [0x48, 0x69] klog_example = Some s1 \<and> klog_flush_to_screen s1 = Some s2 \<and>
     flush_ready 2 2 s2 [] \<lparr>cells = (\<lambda>r c. if r = 0 \<and> c = 0 then 0x48 else if r = 0 \<and> c = 1 then 0x69 else 0),
       term_row = 1, term_col = 0\<rparr>"
proof -
  have "\<not> lock (klog_read_lock klog_example)" by (simp add: klog_example_def lfbstate.defs)
  from klog_write_then_flush [OF klog_example_ready this, of "[0x48, 0x69]"]
  have "\<exists>s1 s2. klog_write [0x48, 0x69] klog_example = Some s1 \<and> klog_flush_to_screen s1 = Some s2 \<and>
    flush_ready 2 2 s2 [] (fold (term_put 2 2) [0x48, 0x69] blank_terminal)"
    by (simp add: unread_def) blast
  moreover have "fold (term_put 2 2) [0x48, 0x69] blank_terminal =
      \<lparr>cells = (\<lambda>r c. if r = 0 \<and> c = 0 then 0x48 else if r = 0 \<and> c = 1 then 0x69 else 0), term_row = 1, term_col = 0\<rparr>"
    by (auto simp: term_put_def term_wrap_def blank_terminal_def fun_eq_iff)
  ultimately show ?thesis by simp
qed

text \<open>
  C18: \<^verbatim>\<open>kprintf\<close> never writes beyond the 256 bytes of \<^verbatim>\<open>local_buf\<close>, whatever its arguments, and appends to
  the log exactly the text that the format and the arguments stand for, \<^verbatim>\<open>%s\<close> included, unless \<^verbatim>\<open>%d\<close> is to print
  the most negative \<^verbatim>\<open>int\<close>. The format and the strings must not lie in the ring.
\<close>

theorem kprintf_renders:
  assumes "render kprintf_conv cs xs = Some out" "no_int_min cs xs" "klog_holds s ms" "stable s p cs" "stable_args s xs"
  shows "\<exists>s'. kprintf p (map arg_word xs) s = Some s' \<and> klog_holds s' (ms @ map of_char out)"
proof -
  have "kshown ([], s) ms" using assms(3) by (simp add: kshown_def)
  moreover have "render kprintf_code_conv cs xs = Some out" using assms(1) kprintf_code_renders [OF assms(2)] by simp
  ultimately obtain bs where b: "kprintf_loop p (map arg_word xs) ([], s) = Some bs" "kshown bs (ms @ map of_char out)"
    using kprintf_loop_renders [of cs xs out "([], s)" p ms] assms(4,5) by auto
  show ?thesis
  proof (cases "fst bs = []")
    case True
    with b show ?thesis by (auto simp: kprintf_def split_def kshown_def)
  next
    case False
    with b flush_buf [OF b(2)] show ?thesis by (auto simp: kprintf_def split_def kshown_def)
  qed
qed

theorem kprintf_renders_witness:
  "\<exists>s'. kprintf 0x1000 [0xFFFFFFFFFFFFFFFB, 0x2000] (klog_example\<lparr>kmem := (kmem klog_example)
        (0x1000 := 0x25, 0x1001 := 0x64, 0x1002 := 0x25, 0x1003 := 0x73, 0x1004 := 0, 0x2000 := 0x25, 0x2001 := 0)\<rparr>) = Some s' \<and>
     klog_holds s' (map of_char ''-5%'')"
proof -
  let ?s = "klog_example\<lparr>kmem := (kmem klog_example)
        (0x1000 := 0x25, 0x1001 := 0x64, 0x1002 := 0x25, 0x1003 := 0x73, 0x1004 := 0, 0x2000 := 0x25, 0x2001 := 0)\<rparr>"
  have "klog_buffer ?s = 0x300000" by (simp add: klog_example_def lfbstate.defs)
  then have "stable ?s 0x1000 ''%d%s''" "stable ?s 0x2000 ''%''" by (simp_all add: stable_def klog_bytes_def)
  moreover have "klog_holds ?s []"
    using klog_example_ready by (simp add: flush_ready_def klog_holds_def klog_entries_def)
  moreover have "render kprintf_conv ''%d%s'' [Num 0xFFFFFFFFFFFFFFFB, Str 0x2000 ''%''] = Some ''-5%''"
    by (simp add: render.simps(2) directive_def kprintf_conv_def show_int_def int_of_u64_def show_number_def
        digits_of.simps digit_char_def)
  moreover have "no_int_min ''%d%s'' [Num 0xFFFFFFFFFFFFFFFB, Str 0x2000 ''%'']"
    by (simp add: no_int_min_def directives.simps(2) int_of_u64_def)
  ultimately show ?thesis
    using kprintf_renders [of "''%d%s''" "[Num 0xFFFFFFFFFFFFFFFB, Str 0x2000 ''%'']" "''-5%''" ?s "[]" "0x1000"]
    by (simp add: stable_args_def)
qed

text \<open>
  The most negative \<^verbatim>\<open>int\<close> is printed by \<^verbatim>\<open>kprintf("%d", ...)\<close> as a different number, because \<^verbatim>\<open>-i\<close> is
  still negative when it is converted to 64 bits.
\<close>

lemma kprintf_int_min:
  "kprintf_int 0x80000000 = ''-18446744071562067968''" "conv_d kprintf_conv 0x80000000 = ''-2147483648''"
  by (simp_all add: kprintf_int_def kprintf_conv_def show_int_def int_of_u64_def u64_of_int32_def show_number_def
      digits_of.simps digit_char_def word_sless_alt)

end
