(* ===== verification/Apic.thy ===== *)
theory Apic
  imports Klog
begin

text \<open>
  Interrupt controllers and timers: the ACPI tables that tell where they are
  (\<^verbatim>\<open>arch/x86_64/apic/acpi.c\<close>), the local and the I/O APIC, the PIT and the local APIC timer. The
  tables are read through the direct map, that is, from \<^verbatim>\<open>pmem\<close> at their physical addresses, since
  \<^verbatim>\<open>DIRECT_OFFSET\<close> is a multiple of 8 and cancels out of the pointer arithmetic.
\<close>

section \<open>State\<close>

record madt_iso =
  iso_bus :: u8
  iso_irq :: u8
  iso_gsi :: u32
  iso_flags :: u16

record apicstate = klogstate +
  lapic_paddr :: u64
  ioapic_paddr :: u64
  iso_count :: nat
  iso_list :: "nat \<Rightarrow> madt_iso"
  irq_handlers :: "nat \<Rightarrow> u64"
  pit_ticks :: u64
  pit_division :: u32

abbreviation MAX_ISO :: nat where "MAX_ISO \<equiv> 16"

section \<open>ACPI tables\<close>

text \<open>
  \<^verbatim>\<open>find_madt\<close>: the tables listed in the XSDT (8-byte pointers) or RSDT (4-byte pointers) are searched for
  the signature. \<^verbatim>\<open>entries\<close> is an \<^verbatim>\<open>int\<close>. None is the null pointer.
\<close>

definition sdt_entries :: "mem \<Rightarrow> u64 \<Rightarrow> bool \<Rightarrow> nat" where
  "sdt_entries m sdt is_xsdt =
     nat (int_of_u64 ((ucast (ld32 m (sdt + 4)) - 36) div (if is_xsdt then 8 else 4)))"

definition sdt_entry :: "mem \<Rightarrow> u64 \<Rightarrow> bool \<Rightarrow> nat \<Rightarrow> u64" where
  "sdt_entry m sdt is_xsdt i =
     (if is_xsdt then ld64 m (sdt + 36 + 8 * of_nat i) else ucast (ld32 m (sdt + 36 + 4 * of_nat i)))"

definition has_signature :: "mem \<Rightarrow> u64 \<Rightarrow> string \<Rightarrow> bool" where
  "has_signature m p sig \<longleftrightarrow> map (\<lambda>k. m (p + of_nat k)) [0..<length sig] = map of_char sig"

definition find_madt :: "mem \<Rightarrow> u64 \<Rightarrow> bool \<Rightarrow> u64 option" where
  "find_madt m sdt is_xsdt =
     map_option (sdt_entry m sdt is_xsdt)
       (find (\<lambda>i. has_signature m (sdt_entry m sdt is_xsdt i) ''APIC'') [0..<sdt_entries m sdt is_xsdt])"

text \<open>A call of \<^verbatim>\<open>kprintf\<close> with a literal format; \<^verbatim>\<open>kprintf_renders\<close> shows that this is what it logs.\<close>

definition klog_text :: "string \<Rightarrow> 'a klogstate_scheme \<Rightarrow> 'a klogstate_scheme option" where
  "klog_text msg s = klog_write (map of_char msg) s"

definition read_iso :: "mem \<Rightarrow> u64 \<Rightarrow> madt_iso" where
  "read_iso m p = \<lparr>iso_bus = ld8 m (p + 2), iso_irq = ld8 m (p + 3), iso_gsi = ld32 m (p + 4), iso_flags = ld16 m (p + 8)\<rparr>"

definition save_iso :: "madt_iso \<Rightarrow> 'a apicstate_scheme \<Rightarrow> 'a apicstate_scheme option" where
  "save_iso i s =
     (if iso_count s < MAX_ISO
      then Some (s\<lparr>iso_list := (iso_list s)(iso_count s := i), iso_count := iso_count s + 1\<rparr>)
      else klog_text (''To many ISO.'' @ [CHR 0x0A]) s)"

definition madt_entry :: "u64 \<Rightarrow> 'a apicstate_scheme \<Rightarrow> 'a apicstate_scheme option" where
  "madt_entry p s =
     (if ld8 (pmem s) p = 1 then Some (s\<lparr>ioapic_paddr := ucast (ld32 (pmem s) (p + 4))\<rparr>)
      else if ld8 (pmem s) p = 2 then save_iso (read_iso (pmem s) p) s
      else Some s)"

text \<open>
  The walk over the entries; an entry of length 0 makes it loop for ever. The pointers that are compared
  are those of the direct map.
\<close>

partial_function (option) madt_loop :: "u64 \<Rightarrow> u64 \<Rightarrow> 'a apicstate_scheme \<Rightarrow> 'a apicstate_scheme option" where
  "madt_loop ptr stop s =
     (if ptr + DIRECT_OFFSET < stop + DIRECT_OFFSET
      then do { s1 \<leftarrow> madt_entry ptr s; madt_loop (ptr + ucast (ld8 (pmem s1) (ptr + 1))) stop s1 }
      else Some s)"

definition parse_madt :: "u64 \<Rightarrow> 'a apicstate_scheme \<Rightarrow> 'a apicstate_scheme option" where
  "parse_madt madt s =
     madt_loop (madt + 44) (madt + ucast (ld32 (pmem s) (madt + 4)))
       (s\<lparr>lapic_paddr := ucast (ld32 (pmem s) (madt + 36))\<rparr>)"

text \<open>
  The first ACPI tag decides. Without one, \<^verbatim>\<open>madt\<close> is used uninitialised, and with no table of that
  signature it is null: both are None.
\<close>

partial_function (option) acpi_tag :: "mem \<Rightarrow> u64 \<Rightarrow> u64 option" where
  "acpi_tag m p =
     (let ty = tag_type (read_tag m p) in
      if ty = MULTIBOOT_TAG_TYPE_END then None
      else if ty = MULTIBOOT_TAG_TYPE_ACPI_NEW \<or> ty = MULTIBOOT_TAG_TYPE_ACPI_OLD then Some p
      else acpi_tag m (next_tag m p))"

definition parse_acpi :: "u32 \<Rightarrow> 'a apicstate_scheme \<Rightarrow> 'a apicstate_scheme option" where
  "parse_acpi physBootInfo s = do {
     tag \<leftarrow> acpi_tag (pmem s) (ucast physBootInfo + 8);
     let is_new = (tag_type (read_tag (pmem s) tag) = MULTIBOOT_TAG_TYPE_ACPI_NEW);
     let sdt = (if is_new then ld64 (pmem s) (tag + 8 + 24) else ucast (ld32 (pmem s) (tag + 8 + 16)));
     s1 \<leftarrow> serial_putchars ((if is_new then ''[ACPI] ACPI TAG NEW was found'' else ''[ACPI] ACPI TAG OLD was found'') @ [CHR 0x0A]) s;
     madt \<leftarrow> find_madt (pmem s) sdt is_new;
     parse_madt madt s1
   }"

section \<open>Local and I/O APIC\<close>

definition read_lapic :: "u32 \<Rightarrow> 'a apicstate_scheme \<Rightarrow> u32 \<times> 'a apicstate_scheme" where
  "read_lapic reg s = mmio_read32 (lapic_paddr s + DIRECT_OFFSET + ucast reg) s"

definition write_lapic :: "u32 \<Rightarrow> u32 \<Rightarrow> 'a apicstate_scheme \<Rightarrow> 'a apicstate_scheme" where
  "write_lapic reg val s = mmio_write32 (lapic_paddr s + DIRECT_OFFSET + ucast reg) val s"

definition lapic_eoi :: "'a apicstate_scheme \<Rightarrow> 'a apicstate_scheme" where
  "lapic_eoi s = mmio_write32 (lapic_paddr s + DIRECT_OFFSET + 0xB0) 0 s"

definition init_LAPIC :: "'a apicstate_scheme \<Rightarrow> 'a apicstate_scheme" where
  "init_LAPIC s =
     (let (low, high) = read_msr 0x1B s;
          s1 = write_msr 0x1B (low OR 0x800) high s
      in write_lapic 0x80 0 (write_lapic 0xF0 (0xFF OR 0x100) s1))"

definition read_ioapic :: "u32 \<Rightarrow> 'a apicstate_scheme \<Rightarrow> u32 \<times> 'a apicstate_scheme" where
  "read_ioapic reg s = mmio_read32 (ioapic_paddr s + DIRECT_OFFSET + 0x10) (mmio_write32 (ioapic_paddr s + DIRECT_OFFSET) reg s)"

definition write_ioapic :: "u32 \<Rightarrow> u32 \<Rightarrow> 'a apicstate_scheme \<Rightarrow> 'a apicstate_scheme" where
  "write_ioapic reg data s =
     mmio_write32 (ioapic_paddr s + DIRECT_OFFSET + 0x10) data (mmio_write32 (ioapic_paddr s + DIRECT_OFFSET) reg s)"

definition find_iso :: "u8 \<Rightarrow> 'a apicstate_scheme \<Rightarrow> madt_iso option" where
  "find_iso irq s = find (\<lambda>i. iso_irq i = irq) (map (iso_list s) [0..<iso_count s])"

definition get_gsi_for_irq :: "u8 \<Rightarrow> 'a apicstate_scheme \<Rightarrow> u32" where
  "get_gsi_for_irq irq s = (case find_iso irq s of Some i \<Rightarrow> iso_gsi i | None \<Rightarrow> ucast irq)"

definition ioapic_set_irq :: "u8 \<Rightarrow> u8 \<Rightarrow> u8 \<Rightarrow> 'a apicstate_scheme \<Rightarrow> 'a apicstate_scheme" where
  "ioapic_set_irq irq vector cpu_id s =
     (let (gsi, flags) = (case find_iso irq s of Some i \<Rightarrow> (iso_gsi i, iso_flags i) | None \<Rightarrow> (ucast irq, 0));
          low = ucast vector OR (if flags AND 2 \<noteq> 0 then 0x2000 else 0) OR (if flags AND 8 \<noteq> 0 then 0x8000 else 0);
          s1 = write_ioapic (0x10 + gsi * 2) low s
      in write_ioapic (0x10 + gsi * 2 + 1) (push_bit 24 (ucast cpu_id)) s1)"

section \<open>PIT and local APIC timer\<close>

definition setIRQHandler :: "u8 \<Rightarrow> u64 \<Rightarrow> 'a apicstate_scheme \<Rightarrow> 'a apicstate_scheme" where
  "setIRQHandler num handler s = s\<lparr>irq_handlers := (irq_handlers s)(unat num := handler)\<rparr>"

definition deleteIRQHandler :: "u8 \<Rightarrow> 'a apicstate_scheme \<Rightarrow> 'a apicstate_scheme" where
  "deleteIRQHandler num s = s\<lparr>irq_handlers := (irq_handlers s)(unat num := 0)\<rparr>"

definition pit_reload :: "'a apicstate_scheme \<Rightarrow> 'a apicstate_scheme" where
  "pit_reload s =
     outb 0x40 (ucast (drop_bit 8 (pit_division s) AND 0xFF)) (outb 0x40 (ucast (pit_division s AND 0xFF)) (outb 0x43 0x36 s))"

text \<open>\<^verbatim>\<open>handler\<close> is the address of \<^verbatim>\<open>PIT_handler\<close>; a frequency of zero is a division by zero.\<close>

definition init_PIT :: "u64 \<Rightarrow> u32 \<Rightarrow> 'a apicstate_scheme \<Rightarrow> 'a apicstate_scheme option" where
  "init_PIT handler freq s =
     (if freq = 0 then None
      else Some (ioapic_set_irq 0 32 0
        (pit_reload (setIRQHandler 0 handler (s\<lparr>pit_ticks := 0, pit_division := 1193180 div freq\<rparr>)))))"

definition PIT_handler :: "'a apicstate_scheme \<Rightarrow> 'a apicstate_scheme" where
  "PIT_handler s = s\<lparr>pit_ticks := pit_ticks s + 1\<rparr>"

partial_function (option) pit_poll :: "u16 \<Rightarrow> 'a apicstate_scheme \<Rightarrow> 'a apicstate_scheme option" where
  "pit_poll last_count s =
     (let (lo, s1) = inb 0x40 (outb 0x43 0x00 s);
          (hi, s2) = inb 0x40 s1;
          count = ucast lo OR push_bit 8 (ucast hi)
      in if last_count < count \<or> count = 0 then Some s2 else pit_poll count s2)"

partial_function (option) pit_wait_loop :: "u32 \<Rightarrow> 'a apicstate_scheme \<Rightarrow> 'a apicstate_scheme option" where
  "pit_wait_loop total_ticks s =
     (if 0 < total_ticks then
        let wait = (if 0xFFFF < total_ticks then 0xFFFF else ucast total_ticks :: u16) in do {
          s1 \<leftarrow> pit_poll wait (outb 0x40 (ucast (drop_bit 8 wait)) (outb 0x40 (ucast wait) (outb 0x43 0x30 s)));
          pit_wait_loop (total_ticks - ucast wait) s1
        }
      else Some s)"

definition pit_wait_ms :: "u32 \<Rightarrow> 'a apicstate_scheme \<Rightarrow> 'a apicstate_scheme option" where
  "pit_wait_ms ms s = do { s1 \<leftarrow> pit_wait_loop (ms * 1193) s; Some (pit_reload s1) }"

text \<open>The comparison is of a 32-bit product with the largest 32-bit value, so it never holds; the message,
  printed without its argument, is never reached.\<close>

definition init_lapic_timer :: "u8 \<Rightarrow> u32 \<Rightarrow> 'a apicstate_scheme \<Rightarrow> 'a apicstate_scheme option" where
  "init_lapic_timer vector ms s = do {
     let s1 = write_lapic 0x380 0xFFFFFFFF (write_lapic 0x320 0x10000 (write_lapic 0x3E0 3 s));
     s2 \<leftarrow> pit_wait_ms 10 s1;
     let (current, s3) = read_lapic 0x390 s2;
     let ticks_per_ms = (0xFFFFFFFF - current) div 10;
     s4 \<leftarrow> (if 0xFFFFFFFF < ticks_per_ms * ms
            then do { msg \<leftarrow> render kprintf_conv (''Ticks per %dms > 0xFFFFFFFF'' @ [CHR 0x0A]) []; klog_text msg s3 }
            else Some s3);
     Some (write_lapic 0x380 (ticks_per_ms * ms) (write_lapic 0x320 (ucast vector OR 0x20000) s4))
   }"

section \<open>The override list\<close>

text \<open>The overrides among the entries at the addresses \<^verbatim>\<open>ps\<close>, and what \<^verbatim>\<open>parse_madt\<close> keeps of them.\<close>

fun madt_chain :: "mem \<Rightarrow> u64 \<Rightarrow> u64 \<Rightarrow> u64 list \<Rightarrow> bool" where
  "madt_chain m p stop [] \<longleftrightarrow> \<not> p + DIRECT_OFFSET < stop + DIRECT_OFFSET"
| "madt_chain m p stop (q # qs) \<longleftrightarrow> p = q \<and> p + DIRECT_OFFSET < stop + DIRECT_OFFSET \<and> madt_chain m (p + ucast (ld8 m (p + 1))) stop qs"

definition isos_of :: "mem \<Rightarrow> u64 list \<Rightarrow> madt_iso list" where
  "isos_of m ps = map (read_iso m) (filter (\<lambda>p. ld8 m p = 2) ps)"

definition saved_isos :: "'a apicstate_scheme \<Rightarrow> madt_iso list" where
  "saved_isos s = map (iso_list s) [0..<iso_count s]"

lemma klog_write_returns:
  assumes "\<not> lock (klog_write_lock s)"
  shows "\<exists>s'. klog_write bs s = Some s' \<and> klog_only s s'"
proof (cases "klog_buffer s = 0 \<or> bs = []")
  case True
  then show ?thesis by (auto simp: klog_write_def)
next
  case False
  let ?h = "klog_head s + of_nat (length (take 4096 bs))" let ?s2 = "s\<lparr>klog_head := ?h\<rparr>"
  obtain r s1 where c: "klog_lock_write s = Some (r, s1)" "klog_head s1 = klog_head s"
    "klog_unlock_write r (s1\<lparr>klog_head := ?h\<rparr>) = ?s2" using klog_critical [OF assms] by metis
  have "klog_only s ?s2" by (simp add: klog_only_def)
  moreover have "klog_only ?s2 (klog_fill (klog_head s) (take 4096 bs) ?s2)"
    using klog_fill_ok [of ?s2 "klog_head s" "[]" "take 4096 bs"] by (simp add: klog_entries_def)
  ultimately have "klog_only s (klog_fill (klog_head s) (take 4096 bs) ?s2)" by (rule klog_only_trans)
  with c False show ?thesis by (simp add: klog_write_def Let_def)
qed

lemma klog_only_apic:
  assumes "klog_only s s'"
  shows "iso_count s' = iso_count s" "iso_list s' = iso_list s" "ioapic_paddr s' = ioapic_paddr s" "lapic_paddr s' = lapic_paddr s"
    "pmem s' = pmem s" "klog_write_lock s' = klog_write_lock s"
proof -
  have e: "s' = s\<lparr>kmem := kmem s', klog_head := klog_head s'\<rparr>" using assms by (simp add: klog_only_def)
  show "iso_count s' = iso_count s" "iso_list s' = iso_list s" "ioapic_paddr s' = ioapic_paddr s" "lapic_paddr s' = lapic_paddr s"
    "pmem s' = pmem s" "klog_write_lock s' = klog_write_lock s" by (subst e, simp)+
qed

lemma save_iso_ok:
  assumes "\<not> lock (klog_write_lock s)" "iso_count s \<le> MAX_ISO"
  shows "\<exists>s'. save_iso i s = Some s' \<and> saved_isos s' = take MAX_ISO (saved_isos s @ [i]) \<and> iso_count s' \<le> MAX_ISO \<and>
    \<not> lock (klog_write_lock s') \<and> pmem s' = pmem s \<and> lapic_paddr s' = lapic_paddr s"
proof (cases "iso_count s < MAX_ISO")
  case True
  then show ?thesis using assms by (simp add: save_iso_def saved_isos_def)
next
  case False
  then have full: "iso_count s = MAX_ISO" using assms(2) by simp
  obtain s' where "klog_write (map of_char (''To many ISO.'' @ [CHR 0x0A])) s = Some s'" "klog_only s s'"
    using klog_write_returns [OF assms(1)] by blast
  with klog_only_apic [of s s'] full assms(1) show ?thesis by (simp add: save_iso_def klog_text_def saved_isos_def)
qed

lemma madt_loop_ok:
  "madt_chain (pmem s) p stop ps \<Longrightarrow> \<not> lock (klog_write_lock s) \<Longrightarrow> iso_count s \<le> MAX_ISO \<Longrightarrow>
    \<exists>s'. madt_loop p stop s = Some s' \<and> saved_isos s' = take MAX_ISO (saved_isos s @ isos_of (pmem s) ps) \<and>
      iso_count s' \<le> MAX_ISO \<and> lapic_paddr s' = lapic_paddr s"
proof (induction ps arbitrary: p s)
  case Nil
  then show ?case by (subst madt_loop.simps) (simp add: isos_of_def saved_isos_def)
next
  case (Cons q qs)
  have p: "p = q" "p + DIRECT_OFFSET < stop + DIRECT_OFFSET" "madt_chain (pmem s) (p + ucast (ld8 (pmem s) (p + 1))) stop qs" using Cons.prems(1) unfolding madt_chain.simps by blast+
  have "\<exists>s1. madt_entry p s = Some s1 \<and> saved_isos s1 = take MAX_ISO (saved_isos s @ isos_of (pmem s) [p]) \<and>
      iso_count s1 \<le> MAX_ISO \<and> \<not> lock (klog_write_lock s1) \<and> pmem s1 = pmem s \<and> lapic_paddr s1 = lapic_paddr s"
    using save_iso_ok [OF Cons.prems(2,3), of "read_iso (pmem s) p"] Cons.prems(2,3)
    by (auto simp: madt_entry_def isos_of_def saved_isos_def)
  then obtain s1 where s1: "madt_entry p s = Some s1" "saved_isos s1 = take MAX_ISO (saved_isos s @ isos_of (pmem s) [p])"
    "iso_count s1 \<le> MAX_ISO" "\<not> lock (klog_write_lock s1)" "pmem s1 = pmem s" "lapic_paddr s1 = lapic_paddr s" by blast
  obtain s' where s': "madt_loop (p + ucast (ld8 (pmem s) (p + 1))) stop s1 = Some s'"
    "saved_isos s' = take MAX_ISO (saved_isos s1 @ isos_of (pmem s) qs)" "iso_count s' \<le> MAX_ISO" "lapic_paddr s' = lapic_paddr s1"
    using Cons.IH [of s1 "p + ucast (ld8 (pmem s) (p + 1))"] p(3) s1(3-5) by auto
  have i: "isos_of (pmem s) (q # qs) = isos_of (pmem s) [p] @ isos_of (pmem s) qs" using p(1) by (simp add: isos_of_def)
  have tt: "take MAX_ISO (take MAX_ISO xs @ ys) = take MAX_ISO (xs @ ys)" for xs ys :: "madt_iso list"
    by (cases "length xs \<le> MAX_ISO") simp_all
  have "saved_isos s' = take MAX_ISO (saved_isos s @ isos_of (pmem s) (q # qs))"
    unfolding s'(2) s1(2) tt i append.assoc by (rule refl)
  with s' s1 p(2) show ?case by (subst madt_loop.simps) simp
qed

section \<open>Properties\<close>

text \<open>
  C24: For a table whose entries end where the table ends, \<^verbatim>\<open>parse_madt\<close> returns and keeps the first 16
  interrupt source overrides in their order, never more than \<^verbatim>\<open>iso_list\<close> has room for; and the
  interrupt of a legacy line is that of its first override.
\<close>

theorem parse_madt_overrides:
  assumes "madt_chain (pmem s) (madt + 44) (madt + ucast (ld32 (pmem s) (madt + 4))) ps"
    and "\<not> lock (klog_write_lock s)" "iso_count s = 0"
  shows "\<exists>s'. parse_madt madt s = Some s' \<and> saved_isos s' = take MAX_ISO (isos_of (pmem s) ps) \<and> iso_count s' \<le> MAX_ISO \<and>
    lapic_paddr s' = ucast (ld32 (pmem s) (madt + 36)) \<and>
    get_gsi_for_irq irq s' =
      (case find (\<lambda>i. iso_irq i = irq) (take MAX_ISO (isos_of (pmem s) ps)) of Some i \<Rightarrow> iso_gsi i | None \<Rightarrow> ucast irq)"
proof -
  let ?s = "s\<lparr>lapic_paddr := ucast (ld32 (pmem s) (madt + 36))\<rparr>"
  obtain s' where s': "madt_loop (madt + 44) (madt + ucast (ld32 (pmem s) (madt + 4))) ?s = Some s'"
    "saved_isos s' = take MAX_ISO (saved_isos ?s @ isos_of (pmem ?s) ps)" "iso_count s' \<le> MAX_ISO" "lapic_paddr s' = lapic_paddr ?s"
    using madt_loop_ok [of ?s "madt + 44" "madt + ucast (ld32 (pmem s) (madt + 4))" ps] assms by auto
  have "saved_isos ?s = []" using assms(3) by (simp add: saved_isos_def)
  with s' have "saved_isos s' = take MAX_ISO (isos_of (pmem s) ps)" by simp
  with s' show ?thesis by (simp add: parse_madt_def get_gsi_for_irq_def find_iso_def flip: saved_isos_def)
qed

text \<open>A table at 0x1000 with the usual override of the timer's line 0 to input 2.\<close>

definition apic_example :: apicstate where
  "apic_example = (klogstate.extend klog_example
     \<lparr>lapic_paddr = 0, ioapic_paddr = 0, iso_count = 0, iso_list = (\<lambda>_. \<lparr>iso_bus = 0, iso_irq = 0, iso_gsi = 0, iso_flags = 0\<rparr>),
      irq_handlers = (\<lambda>_. 0), pit_ticks = 0, pit_division = 0\<rparr>)
     \<lparr>pmem := (\<lambda>_. 0)(0x1004 := 54, 0x102C := 2, 0x102D := 10, 0x1030 := 2)\<rparr>"

theorem parse_madt_overrides_witness:
  "\<exists>s'. parse_madt 0x1000 apic_example = Some s' \<and> iso_count s' \<le> MAX_ISO \<and> get_gsi_for_irq 0 s' = 2"
proof -
  have m: "pmem apic_example = (\<lambda>_. 0)(0x1004 := 54, 0x102C := 2, 0x102D := 10, 0x1030 := 2)"
    and l: "\<not> lock (klog_write_lock apic_example)" "iso_count apic_example = 0"
    by (simp_all add: apic_example_def klogstate.defs klog_example_def lfbstate.defs)
  have "madt_chain (pmem apic_example) (0x1000 + 44) (0x1000 + ucast (ld32 (pmem apic_example) (0x1000 + 4))) [0x102C]"
    by (simp add: m ld32_def ld8_def load_bytes_4)
  from parse_madt_overrides [OF this l, of 0] show ?thesis
    by (simp add: m isos_of_def read_iso_def ld32_def ld8_def load_bytes_4) blast
qed

end
