(* ===== verification/Thread.thy ===== *)
theory Thread
  imports Apic
begin

text \<open>
  Threads and processes: \<^verbatim>\<open>kernel/scheduler/thread.c\<close>, \<^verbatim>\<open>scheduler.c\<close> and \<^verbatim>\<open>process.c\<close>. The ready threads
  form a circular doubly linked list. The context switch itself is assembly (\<^verbatim>\<open>yield.s\<close>): it saves the
  registers, calls \<^verbatim>\<open>scheduler_handler\<close> with the stack pointer and goes on with the one it returns, so
  \<^verbatim>\<open>yield\<close> is here the call of \<^verbatim>\<open>scheduler_handler\<close> with the stack pointer as an argument.
\<close>

section \<open>State\<close>

datatype thread_state = READY | RUNNING | BLOCKED | DEAD

record thread =
  th_rsp :: u64
  th_tid :: u64
  th_state :: thread_state
  kernel_stack :: stack_desc
  user_stack :: stack_desc
  page_guard_min :: u64
  page_guard_max :: u64
  th_process :: u64
  th_prev :: u64
  th_next :: u64
  next_blocked :: u64

record process =
  p_pml4 :: u64
  p_pid :: u64
  p_threads :: u64
  ustacks_infos :: u64

text \<open>
  The structures live in memory from \<^verbatim>\<open>kmalloc\<close>, and are stores indexed by address. \<^verbatim>\<open>tss_rsp0\<close> and
  \<^verbatim>\<open>kernel_rsp\<close> are the fields of \<^verbatim>\<open>tss\<close> and \<^verbatim>\<open>sstacks\<close> that the scheduler sets.
\<close>

record schedstate = apicstate +
  threads :: "u64 \<Rightarrow> thread"
  processes :: "u64 \<Rightarrow> process"
  next_thread_id :: u64
  next_process_id :: u64
  current_thread :: u64
  ready_list_head :: u64
  dead_list_head :: u64
  tss_rsp0 :: u64
  kernel_rsp :: u64

abbreviation SIZEOF_THREAD :: u64 where "SIZEOF_THREAD \<equiv> 120"
abbreviation SIZEOF_PROCESS :: u64 where "SIZEOF_PROCESS \<equiv> 32"

definition zero_stack :: stack_desc where
  "zero_stack = \<lparr>stack_top = 0, stack_bottom = 0, stack_size = 0\<rparr>"

definition zero_thread :: thread where
  "zero_thread = \<lparr>th_rsp = 0, th_tid = 0, th_state = READY, kernel_stack = zero_stack, user_stack = zero_stack,
     page_guard_min = 0, page_guard_max = 0, th_process = 0, th_prev = 0, th_next = 0, next_blocked = 0\<rparr>"

definition upd_thread :: "u64 \<Rightarrow> (thread \<Rightarrow> thread) \<Rightarrow> 'a schedstate_scheme \<Rightarrow> 'a schedstate_scheme" where
  "upd_thread t f s = s\<lparr>threads := (threads s)(t := f (threads s t))\<rparr>"

definition upd_process :: "u64 \<Rightarrow> (process \<Rightarrow> process) \<Rightarrow> 'a schedstate_scheme \<Rightarrow> 'a schedstate_scheme" where
  "upd_process p f s = s\<lparr>processes := (processes s)(p := f (processes s p))\<rparr>"

abbreviation set_next :: "u64 \<Rightarrow> u64 \<Rightarrow> 'a schedstate_scheme \<Rightarrow> 'a schedstate_scheme" where
  "set_next t n \<equiv> upd_thread t (\<lambda>r. r\<lparr>th_next := n\<rparr>)"

abbreviation set_prev :: "u64 \<Rightarrow> u64 \<Rightarrow> 'a schedstate_scheme \<Rightarrow> 'a schedstate_scheme" where
  "set_prev t n \<equiv> upd_thread t (\<lambda>r. r\<lparr>th_prev := n\<rparr>)"

abbreviation set_state :: "u64 \<Rightarrow> thread_state \<Rightarrow> 'a schedstate_scheme \<Rightarrow> 'a schedstate_scheme" where
  "set_state t st \<equiv> upd_thread t (\<lambda>r. r\<lparr>th_state := st\<rparr>)"

section \<open>The ready list\<close>

definition enqueue_thread :: "u64 \<Rightarrow> 'a schedstate_scheme \<Rightarrow> 'a schedstate_scheme" where
  "enqueue_thread t s =
     (if ready_list_head s = 0 then (set_prev t t (set_next t t s))\<lparr>ready_list_head := t\<rparr>
      else
        let tail = th_prev (threads s (ready_list_head s));
            s1 = set_prev t tail (set_next tail t s);
            s2 = set_next t (ready_list_head s1) s1
        in set_prev (ready_list_head s2) t s2)"

definition dequeue_thread :: "u64 \<Rightarrow> 'a schedstate_scheme \<Rightarrow> 'a schedstate_scheme" where
  "dequeue_thread t s =
     (let s1 = (if th_next (threads s t) = t then s\<lparr>ready_list_head := 0\<rparr>
          else
            let s1 = set_next (th_prev (threads s t)) (th_next (threads s t)) s;
                s2 = set_prev (th_next (threads s1 t)) (th_prev (threads s1 t)) s1
            in if ready_list_head s2 = t then s2\<lparr>ready_list_head := th_next (threads s2 t)\<rparr> else s2)
      in set_next t 0 (set_prev t 0 s1))"

section \<open>The scheduler\<close>

text \<open>
  The search for a thread that can run, from \<^verbatim>\<open>next_thread\<close> around the ring: None within the result when it
  came back to \<^verbatim>\<open>starting_point\<close>.
\<close>

definition runnable :: "thread_state \<Rightarrow> bool" where
  "runnable st \<longleftrightarrow> st = READY \<or> st = RUNNING"

partial_function (option) sched_search :: "u64 \<Rightarrow> u64 \<Rightarrow> 'a schedstate_scheme \<Rightarrow> u64 option option" where
  "sched_search starting_point next_thread s =
     (if runnable (th_state (threads s next_thread)) then Some (Some next_thread)
      else
        let next_thread = th_next (threads s next_thread) in
        if next_thread = starting_point then Some None else sched_search starting_point next_thread s)"

text \<open>\<^verbatim>\<open>sstacks\<close> is at a linker address.\<close>

definition init_kernel_gs_base :: "u64 \<Rightarrow> 'a schedstate_scheme \<Rightarrow> 'a schedstate_scheme" where
  "init_kernel_gs_base sstacks_addr s = write_msr 0xC0000102 (ucast sstacks_addr) (ucast (drop_bit 32 sstacks_addr)) s"

definition switch_process :: "u64 \<Rightarrow> u64 \<Rightarrow> 'a schedstate_scheme \<Rightarrow> 'a schedstate_scheme" where
  "switch_process old_thread next_thread s =
     (let op = th_process (threads s old_thread); np = th_process (threads s next_thread) in
      if op \<noteq> np then
        let s1 = (if op \<noteq> 0 then upd_process op (\<lambda>p. p\<lparr>ustacks_infos := us_list_head s\<rparr>) s else s)
        in if np \<noteq> 0 then
             let s2 = s1\<lparr>us_list_head := ustacks_infos (processes s1 np)\<rparr>
             in if read_cr3 s2 \<noteq> p_pml4 (processes s2 np) then write_cr3 (p_pml4 (processes s2 np)) s2 else s2
           else s1\<lparr>us_list_head := 0\<rparr>
      else s)"

definition scheduler_switch :: "u64 \<Rightarrow> u64 \<Rightarrow> u64 \<Rightarrow> 'a schedstate_scheme \<Rightarrow> u64 \<times> 'a schedstate_scheme" where
  "scheduler_switch sstacks_addr old_thread next_thread s =
     (let s1 = (set_state next_thread RUNNING s)\<lparr>current_thread := next_thread\<rparr>;
          s2 = switch_process old_thread next_thread s1;
          s3 = (if th_process (threads s2 next_thread) \<noteq> 0 then init_kernel_gs_base sstacks_addr s2 else s2);
          top = stack_top (kernel_stack (threads s3 (current_thread s3)))
      in (th_rsp (threads s3 next_thread), s3\<lparr>tss_rsp0 := top, kernel_rsp := top\<rparr>))"

text \<open>
  The result is the stack pointer to go on with. None: the scheduler hangs because the old thread
  cannot go on and no other thread can run.
\<close>

definition scheduler_leave :: "u64 \<Rightarrow> u64 \<Rightarrow> 'a schedstate_scheme \<Rightarrow> 'a schedstate_scheme" where
  "scheduler_leave old_thread old_rsp s =
     (if th_state (threads s old_thread) = DEAD
      then (set_next old_thread (dead_list_head s) (dequeue_thread old_thread s))\<lparr>dead_list_head := old_thread\<rparr>
      else if th_state (threads s old_thread) = BLOCKED
      then dequeue_thread old_thread (upd_thread old_thread (\<lambda>r. r\<lparr>th_rsp := old_rsp\<rparr>) s)
      else set_state old_thread READY (upd_thread old_thread (\<lambda>r. r\<lparr>th_rsp := old_rsp\<rparr>) s))"

definition scheduler_handler :: "u64 \<Rightarrow> u64 \<Rightarrow> 'a schedstate_scheme \<Rightarrow> (u64 \<times> 'a schedstate_scheme) option" where
  "scheduler_handler sstacks_addr old_rsp s =
     (if ready_list_head s = 0 \<or> th_next (threads s (ready_list_head s)) = ready_list_head s then Some (old_rsp, s)
      else
        let old_thread = current_thread s;
            start0 = th_next (threads s old_thread);
            s1 = scheduler_leave old_thread old_rsp s;
            gone = (th_state (threads s1 old_thread) = DEAD \<or> th_state (threads s1 old_thread) = BLOCKED);
            starting_point = (if gone then ready_list_head s1 else start0)
        in if starting_point = 0 then Some (old_rsp, s1)
           else do {
             found \<leftarrow> sched_search starting_point starting_point s1;
             case found of
               Some next_thread \<Rightarrow> Some (scheduler_switch sstacks_addr old_thread next_thread s1)
             | None \<Rightarrow> if gone then None else Some (old_rsp, set_state old_thread RUNNING s1)
           })"

definition yield :: "u64 \<Rightarrow> u64 \<Rightarrow> 'a schedstate_scheme \<Rightarrow> 'a schedstate_scheme option" where
  "yield sstacks_addr rsp s = do { (new_rsp, s1) \<leftarrow> scheduler_handler sstacks_addr rsp s; Some s1 }"

section \<open>Threads\<close>

text \<open>
  \<^verbatim>\<open>stack_top--; *stack_top = v\<close>, and the initial frame: what the return from an interrupt pops, below
  it the 15 registers, above it the return address of the thread's function.
\<close>

definition push64 :: "u64 \<Rightarrow> u64 \<times> mem \<Rightarrow> u64 \<times> mem" where
  "push64 v sm = (fst sm - 8, st64 (snd sm) (fst sm - 8) v)"

definition frame_words :: "u64 \<Rightarrow> u64 \<Rightarrow> u64 \<Rightarrow> u64 \<Rightarrow> u64 list" where
  "frame_words ss clean cs entry = [ss, clean, 0x202, cs, entry] @ replicate 15 0"

definition kernel_frame :: "u64 \<Rightarrow> u64 \<Rightarrow> u64 \<times> mem \<Rightarrow> u64 \<times> mem" where
  "kernel_frame thread_exit_addr entry sm =
     (let sm1 = push64 thread_exit_addr sm in fold push64 (frame_words 0x10 (fst sm1) 0x08 entry) sm1)"

definition create_thread :: "u64 \<Rightarrow> u64 \<Rightarrow> u64 \<Rightarrow> 'a schedstate_scheme \<Rightarrow> (u64 \<times> 'a schedstate_scheme) option" where
  "create_thread thread_exit_addr entry_point sz s = do {
     (t, s1) \<leftarrow> kmalloc SIZEOF_THREAD s;
     if t = 0 then Some (0, s1)
     else do {
       (stack_mem, s2) \<leftarrow> kernel_alloc_stack sz (s1\<lparr>threads := (threads s1)(t := zero_thread)\<rparr>);
       if stack_mem = 0 then do { s3 \<leftarrow> kfree t s2; Some (0, s3) }
       else do {
         msg1 \<leftarrow> render serial_conv (''[THREAD] Kernel Thread Address at %llx'' @ [CHR 0x0A]) [Num t];
         s3 \<leftarrow> serial_putchars msg1 s2;
         msg2 \<leftarrow> render serial_conv (''[THREAD] Kernel Thread Stack Bottom at %llx'' @ [CHR 0x0A]) [Num stack_mem];
         s4 \<leftarrow> serial_putchars msg2 s3;
         let (sp, m) = kernel_frame thread_exit_addr entry_point ((stack_mem + sz) AND NOT 15, kmem s4);
         let s5 = upd_thread t (\<lambda>r. r\<lparr>kernel_stack := \<lparr>stack_top = stack_mem + sz, stack_bottom = stack_mem, stack_size = sz\<rparr>,
             th_rsp := sp, th_tid := next_thread_id s4, th_state := READY, th_next := 0, th_prev := 0\<rparr>)
           (s4\<lparr>kmem := m, next_thread_id := next_thread_id s4 + 1\<rparr>);
         Some (t, enqueue_thread t s5)
       }
     }
   }"

text \<open>
  A store to a user address goes through the page tables of the current root; without a mapping the
  kernel takes a page fault that it does not return from: None.
\<close>

definition phys_addr :: "u64 \<Rightarrow> nat \<Rightarrow> u64 \<Rightarrow> u64" where
  "phys_addr e l va = (e AND mask 52 AND NOT (mask (12 + 9 * l))) OR (va AND mask (12 + 9 * l))"

definition user_store64 :: "u64 \<Rightarrow> u64 \<Rightarrow> 'a pmm_scheme \<Rightarrow> 'a pmm_scheme option" where
  "user_store64 va v s = do {
     (e, l) \<leftarrow> vmm_walk s (read_cr3 s) va;
     Some (s\<lparr>pmem := st64 (pmem s) (phys_addr e l va) v\<rparr>)
   }"

definition user_push :: "u64 \<Rightarrow> u64 \<times> 'a pmm_scheme \<Rightarrow> (u64 \<times> 'a pmm_scheme) option" where
  "user_push v ss = do { s1 \<leftarrow> user_store64 (fst ss - 8) v (snd ss); Some (fst ss - 8, s1) }"

definition user_frame :: "u64 \<Rightarrow> u64 \<times> 'a pmm_scheme \<Rightarrow> (u64 \<times> 'a pmm_scheme) option" where
  "user_frame entry ss = do {
     ss1 \<leftarrow> user_push 0x300000 ss;
     loop_over user_push (frame_words 0x1B (fst ss1) 0x23 entry) ss1
   }"

definition create_user_thread ::
  "u64 \<Rightarrow> u64 \<Rightarrow> u64 \<Rightarrow> u64 \<Rightarrow> 'a schedstate_scheme \<Rightarrow> (u64 \<times> 'a schedstate_scheme) option" where
  "create_user_thread proc entry_point kstack_size ustack_size s = do {
     (t, s1) \<leftarrow> kmalloc SIZEOF_THREAD s;
     if t = 0 then Some (0, s1)
     else do {
       (kernel_stack_mem, s2) \<leftarrow> kernel_alloc_stack kstack_size (s1\<lparr>threads := (threads s1)(t := zero_thread)\<rparr>);
       if kernel_stack_mem = 0 then do { s3 \<leftarrow> kfree t s2; Some (0, s3) }
       else do {
         let s3 = upd_thread t (\<lambda>r. r\<lparr>th_process := proc\<rparr>) s2;
         let old_list = us_list_head s3;
         let old_cr3 = read_cr3 s3;
         let s4 = write_cr3 (p_pml4 (processes s3 proc)) (s3\<lparr>us_list_head := ustacks_infos (processes s3 proc)\<rparr>);
         (user_stack_mem, s5) \<leftarrow> user_alloc_stack ustack_size s4;
         (sp, s6) \<leftarrow> user_frame entry_point (user_stack_mem AND NOT 15, s5);
         let s7 = upd_process proc (\<lambda>p. p\<lparr>ustacks_infos := us_list_head s6\<rparr>) s6;
         let s8 = write_cr3 old_cr3 (s7\<lparr>us_list_head := old_list\<rparr>);
         let s9 = upd_thread t (\<lambda>r. r\<lparr>
             kernel_stack := \<lparr>stack_top = kernel_stack_mem + kstack_size, stack_bottom = kernel_stack_mem, stack_size = kstack_size\<rparr>,
             user_stack := \<lparr>stack_top = user_stack_mem + ustack_size, stack_bottom = user_stack_mem, stack_size = ustack_size\<rparr>,
             page_guard_max := user_stack_mem, page_guard_min := user_stack_mem - PAGE_SIZE_4KB,
             th_rsp := sp, th_tid := next_thread_id s8, th_state := READY, th_next := 0, th_prev := 0\<rparr>)
           (s8\<lparr>next_thread_id := next_thread_id s8 + 1\<rparr>);
         msg1 \<leftarrow> render serial_conv (''[THREAD] User Thread Address at %llx'' @ [CHR 0x0A]) [Num t];
         s10 \<leftarrow> serial_putchars msg1 s9;
         msg2 \<leftarrow> render serial_conv (''[THREAD] User Thread Kernel Stack Bottom at %llx'' @ [CHR 0x0A]) [Num user_stack_mem];
         s11 \<leftarrow> serial_putchars msg2 s10;
         msg3 \<leftarrow> render serial_conv (''[THREAD] User Thread User Stack Bottom at %llx'' @ [CHR 0x0A]) [Num user_stack_mem];
         s12 \<leftarrow> serial_putchars msg3 s11;
         Some (t, enqueue_thread t s12)
       }
     }
   }"

definition destroy_thread :: "u64 \<Rightarrow> 'a schedstate_scheme \<Rightarrow> 'a schedstate_scheme option" where
  "destroy_thread t s =
     (if t = 0 then Some s
      else do {
        let r = threads s t;
        s1 \<leftarrow> (if stack_bottom (kernel_stack r) \<noteq> 0 then kfree (stack_bottom (kernel_stack r)) s else Some s);
        s2 \<leftarrow> (if stack_bottom (user_stack r) \<noteq> 0 \<and> th_process r \<noteq> 0 then do {
            let old_list = us_list_head s1;
            let old_cr3 = read_cr3 s1;
            let s2 = write_cr3 (p_pml4 (processes s1 (th_process r)))
              (s1\<lparr>us_list_head := ustacks_infos (processes s1 (th_process r))\<rparr>);
            s3 \<leftarrow> user_free_stack (stack_bottom (user_stack r)) s2;
            let s4 = upd_process (th_process r) (\<lambda>p. p\<lparr>ustacks_infos := us_list_head s3\<rparr>) s3;
            Some (write_cr3 old_cr3 (s4\<lparr>us_list_head := old_list\<rparr>))
          }
          else Some s1);
        kfree t s2
      })"

text \<open>\<^verbatim>\<open>rsp\<close> is the stack pointer at the yield.\<close>

definition thread_exit :: "u64 \<Rightarrow> u64 \<Rightarrow> 'a schedstate_scheme \<Rightarrow> 'a schedstate_scheme option" where
  "thread_exit sstacks_addr rsp s = do {
     msg \<leftarrow> render serial_conv (''[THREAD %d] Done'' @ [CHR 0x0A]) [Num (th_tid (threads s (current_thread s)))];
     s1 \<leftarrow> serial_putchars msg (cli s);
     yield sstacks_addr rsp (set_state (current_thread s1) DEAD s1)
   }"

partial_function (option) cleanup_loop :: "u64 \<Rightarrow> 'a schedstate_scheme \<Rightarrow> 'a schedstate_scheme option" where
  "cleanup_loop t s =
     (if t = 0 then Some s
      else do { let next_dead = th_next (threads s t); s1 \<leftarrow> destroy_thread t s; cleanup_loop next_dead s1 })"

definition cleanup_dead_threads :: "'a schedstate_scheme \<Rightarrow> 'a schedstate_scheme option" where
  "cleanup_dead_threads s =
     (let s1 = cli s; t = dead_list_head s1 in cleanup_loop t (sti (s1\<lparr>dead_list_head := 0\<rparr>)))"

text \<open>One turn of the idle thread's loop, up to the halt; \<^verbatim>\<open>third_thread\<close> does nothing.\<close>

definition idle_thread_turn :: "'a schedstate_scheme \<Rightarrow> 'a schedstate_scheme option" where
  "idle_thread_turn s = do { s1 \<leftarrow> klog_flush_to_screen s; cleanup_dead_threads s1 }"

section \<open>Processes\<close>

primrec copy_kernel_half :: "u64 \<Rightarrow> u64 \<Rightarrow> nat \<Rightarrow> mem \<Rightarrow> mem" where
  "copy_kernel_half new old 0 m = m"
| "copy_kernel_half new old (Suc n) m =
     (let m1 = copy_kernel_half new old n m; i = of_nat n
      in set_pte m1 new i (if n < 256 then 0 else pte m1 old i))"

definition create_user_process :: "'a schedstate_scheme \<Rightarrow> (u64 \<times> 'a schedstate_scheme) option" where
  "create_user_process s = do {
     (p, s1) \<leftarrow> kmalloc SIZEOF_PROCESS s;
     if p = 0 then Some (0, s1)
     else do {
       let s2 = s1\<lparr>processes := (processes s1)(p := \<lparr>p_pml4 = 0, p_pid = 0, p_threads = 0, ustacks_infos = 0\<rparr>)\<rparr>;
       (pml4_phys, s3) \<leftarrow> pmm_alloc_page s2;
       if pml4_phys = 0 then do { s4 \<leftarrow> kfree p s3; Some (0, s4) }
       else
         let s4 = s3\<lparr>pmem := copy_kernel_half pml4_phys (read_cr3 s3) 512 (pmem s3)\<rparr>;
             s5 = upd_process p (\<lambda>r. r\<lparr>p_pml4 := pml4_phys, p_pid := next_process_id s4\<rparr>) s4
         in Some (p, s5\<lparr>next_process_id := next_process_id s4 + 1\<rparr>)
     }
   }"

section \<open>init_scheduler\<close>

definition user_program_code :: "u8 list" where
  "user_program_code = [0xB8, 0x01, 0, 0, 0, 0xBB, 0x02, 0, 0, 0, 0x48, 0x01, 0xD8, 0xC3]"

definition user_exit_trampoline :: "u8 list" where
  "user_exit_trampoline = [0xB8, 0x3C, 0, 0, 0, 0x48, 0x31, 0xFF, 0x0F, 0x05]"

primrec user_copy :: "u64 \<Rightarrow> u8 list \<Rightarrow> 'a pmm_scheme \<Rightarrow> 'a pmm_scheme option" where
  "user_copy va [] s = Some s"
| "user_copy va (b # bs) s = do {
     (e, l) \<leftarrow> vmm_walk s (read_cr3 s) va;
     user_copy (va + 1) bs (s\<lparr>pmem := (pmem s)(phys_addr e l va := b)\<rparr>)
   }"

definition map_user_code :: "u64 \<Rightarrow> u8 list \<Rightarrow> 'a pmm_scheme \<Rightarrow> 'a pmm_scheme option" where
  "map_user_code va code s = do {
     (paddr, s1) \<leftarrow> pmm_alloc_page s;
     s2 \<leftarrow> vmm_map_page (read_cr3 s1) paddr va PAGE_SIZE_4KB (PTE_WRITABLE OR PTE_USER) s1;
     user_copy va code s2
   }"

text \<open>
  The results of \<^verbatim>\<open>kmalloc\<close> and \<^verbatim>\<open>create_user_process\<close> are used unchecked; a null pointer faults: None. The main thread's structure is not cleared, so the fields that are not set here, \<^verbatim>\<open>process\<close> among
  them, keep what was in memory. The addresses of the two thread functions and of \<^verbatim>\<open>thread_exit\<close> are the
  linker's.
\<close>

definition non_null :: "(u64 \<times> 's) option \<Rightarrow> (u64 \<times> 's) option" where
  "non_null r = do { (p, s) \<leftarrow> r; if p = 0 then None else Some (p, s) }"

definition init_scheduler :: "u64 \<Rightarrow> u64 \<Rightarrow> u64 \<Rightarrow> 'a schedstate_scheme \<Rightarrow> 'a schedstate_scheme option" where
  "init_scheduler thread_exit_addr idle_addr third_addr s = do {
     (main_thread, s1) \<leftarrow> non_null (kmalloc SIZEOF_THREAD s);
     let s2 = upd_thread main_thread (\<lambda>r. r\<lparr>th_tid := next_thread_id s1, th_state := RUNNING, th_rsp := 0,
         kernel_stack := (kernel_stack r)\<lparr>stack_bottom := 0\<rparr>\<rparr>) (s1\<lparr>next_thread_id := next_thread_id s1 + 1\<rparr>);
     let s3 = (enqueue_thread main_thread s2)\<lparr>current_thread := main_thread\<rparr>;
     (t1, s4) \<leftarrow> create_thread thread_exit_addr idle_addr DEFAULT_STACK_SIZE s3;
     (t2, s5) \<leftarrow> create_thread thread_exit_addr third_addr DEFAULT_STACK_SIZE s4;
     (proc, s6) \<leftarrow> non_null (create_user_process s5);
     let old_pml4_phys = read_cr3 s6;
     s7 \<leftarrow> map_user_code 0x400000 user_program_code (write_cr3 (p_pml4 (processes s6 proc)) s6);
     s8 \<leftarrow> map_user_code 0x300000 user_exit_trampoline s7;
     (t3, s9) \<leftarrow> create_user_thread proc 0x400000 4096 4096 (write_cr3 old_pml4_phys s8);
     Some (s9\<lparr>scheduler := True\<rparr>)
   }"

section \<open>The ring of ready threads\<close>

fun links :: "(u64 \<Rightarrow> thread) \<Rightarrow> u64 list \<Rightarrow> bool" where
  "links th (a # b # xs) \<longleftrightarrow> th_next (th a) = b \<and> th_prev (th b) = a \<and> links th (b # xs)"
| "links th xs \<longleftrightarrow> True"

definition cyc :: "(u64 \<Rightarrow> thread) \<Rightarrow> u64 list \<Rightarrow> bool" where
  "cyc th xs \<longleftrightarrow> (xs \<noteq> [] \<longrightarrow> links th xs \<and> th_next (th (last xs)) = hd xs \<and> th_prev (th (hd xs)) = last xs)"

definition ring :: "'a schedstate_scheme \<Rightarrow> u64 list \<Rightarrow> bool" where
  "ring s xs \<longleftrightarrow> distinct xs \<and> 0 \<notin> set xs \<and> ready_list_head s = (if xs = [] then 0 else hd xs) \<and> cyc (threads s) xs"

lemma links_append:
  "xs \<noteq> [] \<Longrightarrow> ys \<noteq> [] \<Longrightarrow>
    links th (xs @ ys) \<longleftrightarrow> links th xs \<and> links th ys \<and> th_next (th (last xs)) = hd ys \<and> th_prev (th (hd ys)) = last xs"
proof (induction xs rule: induct_list012)
  case (2 a)
  then show ?case by (cases ys) auto
qed auto

lemma links_cong:
  "(\<And>a. a \<in> set (butlast xs) \<Longrightarrow> th_next (th a) = th_next (th' a)) \<Longrightarrow>
    (\<And>a. a \<in> set (tl xs) \<Longrightarrow> th_prev (th a) = th_prev (th' a)) \<Longrightarrow> links th xs = links th' xs"
proof (induction th xs rule: links.induct)
  case (1 th a b xs)
  then have "links th (b # xs) = links th' (b # xs)" by (cases xs) auto
  with 1 show ?case by auto
qed auto

lemma cyc_rotate: "cyc th (us @ vs) = cyc th (vs @ us)"
proof (cases "us = [] \<or> vs = []")
  case False
  then show ?thesis by (auto simp: cyc_def links_append)
qed auto

lemma cyc_cong:
  "(\<And>a. a \<in> set xs \<Longrightarrow> th_next (th a) = th_next (th' a) \<and> th_prev (th a) = th_prev (th' a)) \<Longrightarrow> cyc th xs = cyc th' xs"
proof -
  assume *: "\<And>a. a \<in> set xs \<Longrightarrow> th_next (th a) = th_next (th' a) \<and> th_prev (th a) = th_prev (th' a)"
  have "links th xs = links th' xs"
    by (rule links_cong) (use * in \<open>blast dest: in_set_butlastD\<close>, cases xs, use * in auto)
  with * show ?thesis by (cases "xs = []") (simp_all add: cyc_def)
qed

lemma cyc_next:
  assumes "cyc th (us @ t # vs)"
  shows "th_next (th t) = hd ((vs @ us) @ [t])" "th_prev (th t) = last (t # vs @ us)"
proof -
  let ?ws = "vs @ us"
  have c: "cyc th ([t] @ ?ws)" using assms cyc_rotate [of th us "t # vs"] by simp
  have "th_next (th t) = hd (?ws @ [t]) \<and> th_prev (th t) = last (t # ?ws)"
  proof (cases "?ws = []")
    case True
    with c show ?thesis by (simp add: cyc_def)
  next
    case False
    with c links_append [of "[t]" ?ws th] have "th_next (th t) = hd ?ws" "th_prev (th t) = last ?ws"
      unfolding cyc_def by (simp_all del: append_is_Nil_conv)
    then show ?thesis using False by (simp only: hd_append2 last_ConsR simp_thms)
  qed
  then show "th_next (th t) = hd (?ws @ [t])" "th_prev (th t) = last (t # ?ws)" by simp_all
qed

lemma upd_thread_get [simp]: "threads (upd_thread t f s) a = (if a = t then f (threads s t) else threads s a)"
  by (simp add: upd_thread_def)

lemma upd_thread_fields [simp]:
  "ready_list_head (upd_thread t f s) = ready_list_head s" "current_thread (upd_thread t f s) = current_thread s"
  "dead_list_head (upd_thread t f s) = dead_list_head s" "processes (upd_thread t f s) = processes s"
  "kmem (upd_thread t f s) = kmem s" "cpu_rflags (upd_thread t f s) = cpu_rflags s"
  by (simp_all add: upd_thread_def)

lemma enqueue_ring:
  assumes "ring s xs" "t \<notin> set xs" "t \<noteq> 0"
  shows "ring (enqueue_thread t s) (xs @ [t])"
proof (cases "xs = []")
  case True
  with assms show ?thesis by (simp add: ring_def enqueue_thread_def cyc_def)
next
  case False
  have r: "distinct xs" "0 \<notin> set xs" "ready_list_head s = hd xs" "cyc (threads s) xs" using assms(1) False by (simp_all add: ring_def)
  have h: "hd xs \<noteq> 0" "hd xs \<noteq> t" "last xs \<noteq> t" using r(2) assms(2) False by (metis hd_in_set, metis hd_in_set, metis last_in_set)
  have tail: "th_prev (threads s (hd xs)) = last xs" using r(4) False by (simp add: cyc_def)
  let ?s = "enqueue_thread t s"
  have e: "?s = set_prev (hd xs) t (set_next t (hd xs) (set_prev t (last xs) (set_next (last xs) t s)))"
    using h by (simp add: enqueue_thread_def r(3) tail Let_def)
  have "links (threads ?s) xs = links (threads s) xs"
  proof (rule links_cong)
    fix a assume "a \<in> set (butlast xs)"
    then have "a \<noteq> last xs" "a \<noteq> t" using r(1) assms(2) False
      by (metis append_butlast_last_id distinct_append disjoint_iff list.set_intros(1), metis in_set_butlastD)
    then show "th_next (threads ?s a) = th_next (threads s a)" unfolding e by simp
  next
    fix a assume "a \<in> set (tl xs)"
    then have "a \<noteq> hd xs" "a \<noteq> t" using r(1) assms(2) False by (cases xs; auto)+
    then show "th_prev (threads ?s a) = th_prev (threads s a)" unfolding e by simp
  qed
  then have "links (threads ?s) xs" using r(4) False by (simp add: cyc_def)
  moreover have "th_next (threads ?s (last xs)) = t" "th_prev (threads ?s t) = last xs" "th_next (threads ?s t) = hd xs"
    "th_prev (threads ?s (hd xs)) = t" unfolding e using h by auto
  ultimately have "cyc (threads ?s) (xs @ [t])" using False by (simp add: cyc_def links_append)
  moreover have "ready_list_head ?s = hd (xs @ [t])" unfolding e using r(3) False by simp
  ultimately show ?thesis using r assms(2,3) by (simp add: ring_def)
qed

lemma dequeue_ring:
  assumes "ring s (us @ t # vs)"
  shows "ring (dequeue_thread t s) (us @ vs)"
proof -
  let ?xs = "us @ t # vs" and ?ws = "vs @ us" and ?s = "dequeue_thread t s"
  have r: "distinct ?xs" "0 \<notin> set ?xs" "ready_list_head s = hd ?xs" "cyc (threads s) ?xs" using assms by (simp_all add: ring_def)
  note n = cyc_next [OF r(4)]
  show ?thesis
  proof (cases "?ws = []")
    case True
    with n(1) r show ?thesis by (simp add: ring_def dequeue_thread_def Let_def cyc_def)
  next
    case False
    let ?n = "hd ?ws" and ?p = "last ?ws"
    have nn: "th_next (threads s t) = ?n" "th_prev (threads s t) = ?p"
      using n False by (simp_all only: hd_append2 last_ConsR simp_thms)
    have t: "t \<notin> set ?ws" using r(1) by auto
    have "?n \<in> set ?ws" "?p \<in> set ?ws" using False by (simp_all only: hd_in_set last_in_set simp_thms not_False_eq_True)
    then have ne: "?n \<noteq> t" "?p \<noteq> t" using t by metis+
    have th: "threads ?s = threads (set_next t 0 (set_prev t 0 (set_prev ?n ?p (set_next ?p ?n s))))"
      unfolding dequeue_thread_def using ne nn by (auto simp: Let_def fun_eq_iff)
    have hd: "ready_list_head ?s = (if hd ?xs = t then ?n else hd ?xs)"
      unfolding dequeue_thread_def using ne nn r(3) by (simp add: Let_def)
    have "links (threads ?s) ?ws = links (threads s) ?ws"
    proof (rule links_cong)
      fix a assume a: "a \<in> set (butlast ?ws)"
      have "distinct ?ws" using r(1) by auto
      then have "a \<noteq> ?p" using a False by (metis append_butlast_last_id distinct_append disjoint_iff list.set_intros(1))
      moreover have "a \<noteq> t" using a t by (metis in_set_butlastD)
      ultimately show "th_next (threads ?s a) = th_next (threads s a)" unfolding th by simp
    next
      fix a assume a: "a \<in> set (tl ?ws)"
      have "distinct ?ws" using r(1) by auto
      then have "a \<noteq> ?n" using a False by (cases ?ws) auto
      moreover have "a \<noteq> t" using a t by (metis list.set_sel(2) list.sel(2))
      ultimately show "th_prev (threads ?s a) = th_prev (threads s a)" unfolding th by simp
    qed
    moreover have "links (threads s) ?ws"
    proof -
      have "cyc (threads s) ([t] @ ?ws)" using r(4) cyc_rotate [of _ us "t # vs"] by simp
      then show ?thesis using False unfolding cyc_def by (subst (asm) links_append) auto
    qed
    moreover have "th_next (threads ?s ?p) = ?n" "th_prev (threads ?s ?n) = ?p" unfolding th using ne by auto
    ultimately have "cyc (threads ?s) ?ws" by (simp add: cyc_def)
    then have "cyc (threads ?s) (us @ vs)" using cyc_rotate [of _ us vs] by simp
    moreover have "ready_list_head ?s = hd (us @ vs)"
      unfolding hd using r(1) False by (cases us) auto
    ultimately show ?thesis using r False by (auto simp: ring_def)
  qed
qed

section \<open>The search\<close>

lemma sched_search_find:
  assumes "cyc (threads s) ws" "distinct ws" "ws = us @ vs" "vs \<noteq> []"
  shows "sched_search (hd ws) (hd vs) s = Some (find (\<lambda>t. runnable (th_state (threads s t))) vs)"
  using assms(3,4)
proof (induction vs arbitrary: us)
  case (Cons x vs)
  have n: "th_next (threads s x) = hd ((vs @ us) @ [x])" using cyc_next [of "threads s" us x vs] assms(1) Cons.prems(1) by simp
  show ?case
  proof (cases "runnable (th_state (threads s x))")
    case True
    then show ?thesis by (subst sched_search.simps) simp
  next
    case False
    show ?thesis
    proof (cases vs)
      case Nil
      then have "th_next (threads s x) = hd ws" using n Cons.prems(1) by (cases us) auto
      with Nil False show ?thesis by (subst sched_search.simps) simp
    next
      case (Cons y ys)
      then have y: "th_next (threads s x) = y" using n by simp
      have "y \<noteq> hd ws" using assms(2) Cons.prems(1) Cons by (cases us) auto
      moreover have "sched_search (hd ws) y s = Some (find (\<lambda>t. runnable (th_state (threads s t))) vs)"
        using Cons.IH [of "us @ [x]"] Cons.prems(1) Cons by simp
      ultimately show ?thesis using False y by (subst sched_search.simps) simp
    qed
  qed
qed simp

section \<open>What the scheduler does\<close>

lemma ring_cong:
  assumes "ready_list_head s' = ready_list_head s"
    and "\<And>a. a \<in> set xs \<Longrightarrow> th_next (threads s' a) = th_next (threads s a) \<and> th_prev (threads s' a) = th_prev (threads s a)"
  shows "ring s' xs = ring s xs"
  using assms(1) cyc_cong [of xs "threads s'" "threads s"] assms(2) by (simp add: ring_def)

lemma switch_process_fields [simp]:
  "threads (switch_process a b s) = threads s" "current_thread (switch_process a b s) = current_thread s"
  "ready_list_head (switch_process a b s) = ready_list_head s"
  by (auto simp: switch_process_def Let_def upd_process_def write_cr3_def)

lemma scheduler_switch_fields:
  assumes "scheduler_switch g a b s = (r, s')"
  shows "threads s' = (threads s)(b := (threads s b)\<lparr>th_state := RUNNING\<rparr>)" "current_thread s' = b"
    "ready_list_head s' = ready_list_head s" "r = th_rsp (threads s b)"
  using assms by (auto simp: scheduler_switch_def Let_def init_kernel_gs_base_def write_msr_def fun_eq_iff)

lemma find_append_none: "(\<forall>x \<in> set xs. \<not> P x) \<Longrightarrow> find P (xs @ ys) = find P ys"
  by (induction xs) auto

text \<open>The next thread to run after the one in the middle of \<^verbatim>\<open>us @ cur # vs\<close>.\<close>

lemma scheduler_handler_runs:
  assumes r: "ring s (us @ cur # vs)" and c: "current_thread s = cur" "runnable (th_state (threads s cur))"
    and n: "us @ vs \<noteq> []"
  shows "\<exists>s' nxt. scheduler_handler g old_rsp s = Some (th_rsp (threads s nxt), s') \<and>
      find (\<lambda>t. runnable (th_state (threads s t))) (vs @ us @ [cur]) = Some nxt \<and> nxt \<noteq> cur \<and>
      current_thread s' = nxt \<and> ring s' (us @ cur # vs) \<and>
      (\<forall>t. th_state (threads s' t) = (if t = nxt then RUNNING else if t = cur then READY else th_state (threads s t))) \<and>
      (\<forall>t. th_rsp (threads s' t) = (if t = cur then old_rsp else th_rsp (threads s t))) \<or>
    (\<exists>s'. scheduler_handler g old_rsp s = Some (old_rsp, s') \<and>
      find (\<lambda>t. runnable (th_state (threads s t))) (vs @ us @ [cur]) = Some cur \<and>
      current_thread s' = cur \<and> ring s' (us @ cur # vs) \<and>
      (\<forall>t. th_state (threads s' t) = (if t = cur then RUNNING else th_state (threads s t))) \<and>
      (\<forall>t. th_rsp (threads s' t) = (if t = cur then old_rsp else th_rsp (threads s t))))"
proof -
  let ?xs = "us @ cur # vs" and ?ws = "vs @ us @ [cur]"
  let ?P = "\<lambda>t. runnable (th_state (threads s t))"
  have r': "distinct ?xs" "0 \<notin> set ?xs" "ready_list_head s = hd ?xs" "cyc (threads s) ?xs" using r by (simp_all add: ring_def)
  have h0: "ready_list_head s \<noteq> 0" using r'(2,3) by (metis hd_in_set append_is_Nil_conv list.distinct(1))
  have more: "th_next (threads s (ready_list_head s)) \<noteq> ready_list_head s"
  proof -
    obtain y ys where y: "?xs = y # ys" "ys \<noteq> []" using n by (cases us) auto
    have "cyc (threads s) ([] @ y # ys)" using r'(4) y(1) by simp
    from cyc_next(1) [OF this] have "th_next (threads s y) = hd ys" using y(2) by simp
    moreover have "hd ys \<noteq> y" using r'(1) y by (metis distinct.simps(2) hd_in_set)
    moreover have "ready_list_head s = y" using r'(3) y(1) by simp
    ultimately show ?thesis by simp
  qed
  have nd: "th_state (threads s cur) \<noteq> DEAD" "th_state (threads s cur) \<noteq> BLOCKED" using c(2) by (auto simp: runnable_def)
  let ?s1 = "set_state cur READY (upd_thread cur (\<lambda>r. r\<lparr>th_rsp := old_rsp\<rparr>) s)"
  have leave: "scheduler_leave cur old_rsp s = ?s1" using nd by (simp add: scheduler_leave_def)
  have start: "th_next (threads s cur) = hd ?ws" using cyc_next(1) [OF r'(4)] by simp
  have "hd ?ws \<in> set ?ws" by (rule hd_in_set) simp
  then have start0: "hd ?ws \<noteq> 0" using r'(2) by auto
  have cyc1: "cyc (threads ?s1) ?ws"
  proof -
    have "cyc (threads s) ?ws" using r'(4) cyc_rotate [of "threads s" "us @ [cur]" vs] by simp
    then show ?thesis by (subst cyc_cong [where th' = "threads s"]) auto
  qed
  have P1: "(\<lambda>t. runnable (th_state (threads ?s1 t))) = ?P" using c(2) by (auto simp: fun_eq_iff runnable_def)
  have "distinct ?ws" using r'(1) by auto
  from sched_search_find [OF cyc1 this, of "[]"]
  have search: "sched_search (hd ?ws) (hd ?ws) ?s1 = Some (find ?P ?ws)" unfolding P1 by simp
  have "find ?P ?ws \<noteq> None" using c(2) by (auto simp: find_None_iff)
  then obtain nxt where f: "find ?P ?ws = Some nxt" by auto
  obtain r0 s' where sw: "scheduler_switch g cur nxt ?s1 = (r0, s')" by (cases "scheduler_switch g cur nxt ?s1")
  note fs = scheduler_switch_fields [OF sw]
  have handler: "scheduler_handler g old_rsp s = Some (r0, s')"
    using h0 more nd start0 by (simp add: scheduler_handler_def c(1) Let_def leave start search f sw)
  have "ring s' ?xs = ring s ?xs" by (rule ring_cong) (auto simp: fs)
  with r have "ring s' ?xs" by simp
  then show ?thesis
    using handler f fs by (cases "nxt = cur") auto
qed

lemma dequeue_state [simp]: "th_state (threads (dequeue_thread t s) a) = th_state (threads s a)"
  by (simp add: dequeue_thread_def Let_def)

lemma dequeue_fields [simp]:
  "current_thread (dequeue_thread t s) = current_thread s" "dead_list_head (dequeue_thread t s) = dead_list_head s"
  by (simp_all add: dequeue_thread_def Let_def)

lemma scheduler_leave_gone:
  assumes r: "ring s (us @ cur # vs)" and g: "\<not> runnable (th_state (threads s cur))"
  shows "ring (scheduler_leave cur old_rsp s) (us @ vs)"
    "\<And>t. th_state (threads (scheduler_leave cur old_rsp s) t) = th_state (threads s t)"
    "\<And>t. t \<noteq> cur \<Longrightarrow> th_rsp (threads (scheduler_leave cur old_rsp s) t) = th_rsp (threads s t)"
proof -
  have cur: "cur \<notin> set (us @ vs)" using r by (auto simp: ring_def)
  let ?s1 = "scheduler_leave cur old_rsp s"
  have "ring ?s1 (us @ vs) \<and> (\<forall>t. th_state (threads ?s1 t) = th_state (threads s t)) \<and>
      (\<forall>t. t \<noteq> cur \<longrightarrow> th_rsp (threads ?s1 t) = th_rsp (threads s t))"
  proof (cases "th_state (threads s cur) = DEAD")
    case True
    have "ring ?s1 (us @ vs) = ring (dequeue_thread cur s) (us @ vs)"
      by (rule ring_cong) (use cur True in \<open>auto simp: scheduler_leave_def\<close>)
    with dequeue_ring [OF r] True show ?thesis by (auto simp: scheduler_leave_def dequeue_thread_def Let_def)
  next
    case False
    then have b: "th_state (threads s cur) = BLOCKED" using g by (cases "th_state (threads s cur)") (auto simp: runnable_def)
    let ?s0 = "upd_thread cur (\<lambda>r. r\<lparr>th_rsp := old_rsp\<rparr>) s"
    have "ring ?s0 (us @ cur # vs) = ring s (us @ cur # vs)" by (rule ring_cong) auto
    then have "ring (dequeue_thread cur ?s0) (us @ vs)" using r by (intro dequeue_ring) simp
    with b show ?thesis by (auto simp: scheduler_leave_def dequeue_thread_def Let_def)
  qed
  then show "ring ?s1 (us @ vs)" "\<And>t. th_state (threads ?s1 t) = th_state (threads s t)"
    "\<And>t. t \<noteq> cur \<Longrightarrow> th_rsp (threads ?s1 t) = th_rsp (threads s t)" by blast+
qed

lemma ring_head_next:
  assumes "ring s (us @ cur # vs)"
  shows "ready_list_head s \<noteq> 0" "th_next (threads s (ready_list_head s)) = ready_list_head s \<longleftrightarrow> us @ vs = []"
proof -
  obtain y ys where y: "us @ cur # vs = y # ys" by (cases us) auto
  have r: "distinct (y # ys)" "0 \<notin> set (y # ys)" "ready_list_head s = y" "cyc (threads s) ([] @ y # ys)"
    using assms y by (simp_all add: ring_def)
  then show "ready_list_head s \<noteq> 0" by auto
  have n: "th_next (threads s y) = hd (ys @ [y])" using cyc_next(1) [OF r(4)] by simp
  have "length (us @ vs) = length ys" using arg_cong [OF y, of length] by simp
  then have "us @ vs = [] \<longleftrightarrow> ys = []" by (metis length_0_conv)
  moreover have "hd (ys @ [y]) = y \<longleftrightarrow> ys = []" using r(1) by (cases ys) auto
  ultimately show "th_next (threads s (ready_list_head s)) = ready_list_head s \<longleftrightarrow> us @ vs = []" by (simp add: r(3) n)
qed

lemma scheduler_handler_gone:
  assumes r: "ring s (us @ cur # vs)" and c: "current_thread s = cur" "\<not> runnable (th_state (threads s cur))"
    and n: "us @ vs \<noteq> []"
  shows "(case find (\<lambda>t. runnable (th_state (threads s t))) (us @ vs) of
       None \<Rightarrow> scheduler_handler g old_rsp s = None
     | Some nxt \<Rightarrow> \<exists>s'. scheduler_handler g old_rsp s = Some (th_rsp (threads s nxt), s') \<and> current_thread s' = nxt \<and>
         ring s' (us @ vs) \<and> (\<forall>t. th_state (threads s' t) = (if t = nxt then RUNNING else th_state (threads s t))))"
proof -
  let ?ws = "us @ vs" and ?P = "\<lambda>t. runnable (th_state (threads s t))" and ?s1 = "scheduler_leave cur old_rsp s"
  note l = scheduler_leave_gone [OF r c(2), where old_rsp = old_rsp]
  have gone: "th_state (threads ?s1 cur) = DEAD \<or> th_state (threads ?s1 cur) = BLOCKED"
    using c(2) l(2) by (cases "th_state (threads s cur)") (auto simp: runnable_def)
  have r1: "distinct ?ws" "0 \<notin> set ?ws" "ready_list_head ?s1 = hd ?ws" "cyc (threads ?s1) ?ws"
    using l(1) n unfolding ring_def by (simp_all only: if_False simp_thms)
  have nz: "hd ?ws \<noteq> 0" using r1(2) n by (metis hd_in_set)
  from sched_search_find [OF r1(4,1), of "[]"] n
  have search: "sched_search (hd ?ws) (hd ?ws) ?s1 = Some (find ?P ?ws)" by (simp add: l(2) del: append_is_Nil_conv)
  show ?thesis
  proof (cases "find ?P ?ws")
    case None
    then show ?thesis
      using ring_head_next [OF r] n gone nz by (simp add: scheduler_handler_def c(1) Let_def r1(3) search del: append_is_Nil_conv)
  next
    case (Some nxt)
    then have nw: "nxt \<in> set ?ws" by (metis find_Some_iff nth_mem)
    moreover have "cur \<notin> set ?ws" using r by (auto simp: ring_def)
    ultimately have ne: "nxt \<noteq> cur" by metis
    obtain r0 s' where sw: "scheduler_switch g cur nxt ?s1 = (r0, s')" by (cases "scheduler_switch g cur nxt ?s1")
    note fs = scheduler_switch_fields [OF sw]
    have "scheduler_handler g old_rsp s = Some (r0, s')"
      using ring_head_next [OF r] n gone nz Some
      by (simp add: scheduler_handler_def c(1) Let_def r1(3) search sw del: append_is_Nil_conv)
    moreover have "ring s' ?ws = ring ?s1 ?ws" by (rule ring_cong) (auto simp: fs)
    ultimately show ?thesis using Some fs l(1,2) l(3) [OF ne] by simp
  qed
qed

lemma scheduler_handler_alone:
  "ring s [cur] \<Longrightarrow> scheduler_handler g old_rsp s = Some (old_rsp, s)"
  using ring_head_next [of s "[]" cur "[]"] by (simp add: scheduler_handler_def)

text \<open>Whatever happens, the scheduler only takes threads out of the ring, and runs one of those that stay.\<close>

lemma scheduler_handler_ring:
  assumes r: "ring s xs" and c: "current_thread s \<in> set xs" and h: "scheduler_handler g old_rsp s = Some (r', s')"
  shows "\<exists>ys. ring s' ys \<and> set ys \<subseteq> set xs \<and> current_thread s' \<in> set ys \<and>
    (\<forall>t. t \<notin> set xs \<longrightarrow> th_state (threads s' t) = th_state (threads s t))"
proof -
  obtain us vs where xs: "xs = us @ current_thread s # vs" using c by (metis split_list)
  note r' = r [unfolded xs]
  show ?thesis
  proof (cases "us @ vs = []")
    case True
    then have "s' = s" using scheduler_handler_alone [of s "current_thread s" g old_rsp] r h xs by simp
    with r c show ?thesis by blast
  next
    case False
    show ?thesis
    proof (cases "runnable (th_state (threads s (current_thread s)))")
      case True
      from scheduler_handler_runs [OF r' refl True False, of g old_rsp]
      obtain nxt where *: "find (\<lambda>t. runnable (th_state (threads s t))) (vs @ us @ [current_thread s]) = Some nxt"
        "current_thread s' = nxt" "ring s' xs" "\<forall>t. t \<notin> set xs \<longrightarrow> t \<noteq> nxt \<longrightarrow> th_state (threads s' t) = th_state (threads s t)"
        using h xs by auto
      have "nxt \<in> set (vs @ us @ [current_thread s])" using *(1) by (metis find_Some_iff nth_mem)
      then have "nxt \<in> set xs" by (auto simp: xs)
      with *(2-4) show ?thesis by blast
    next
      case gone: False
      from scheduler_handler_gone [OF r' refl gone False, of g old_rsp] h
      obtain nxt where *: "find (\<lambda>t. runnable (th_state (threads s t))) (us @ vs) = Some nxt" "current_thread s' = nxt"
        "ring s' (us @ vs)" "\<forall>t. th_state (threads s' t) = (if t = nxt then RUNNING else th_state (threads s t))"
        by (auto split: option.splits)
      have "nxt \<in> set (us @ vs)" using *(1) by (metis find_Some_iff nth_mem)
      with * show ?thesis by (intro exI [of _ "us @ vs"]) (auto simp: xs)
    qed
  qed
qed

text \<open>A sequence of calls, with the stack pointers they are given.\<close>

primrec sched_run :: "u64 \<Rightarrow> u64 list \<Rightarrow> 'a schedstate_scheme \<Rightarrow> 'a schedstate_scheme option" where
  "sched_run g [] s = Some s"
| "sched_run g (r # rs) s = do { (r', s1) \<leftarrow> scheduler_handler g r s; sched_run g rs s1 }"

lemma sched_run_ring:
  "ring s xs \<Longrightarrow> current_thread s \<in> set xs \<Longrightarrow> sched_run g rs s = Some s' \<Longrightarrow>
    \<exists>ys. ring s' ys \<and> set ys \<subseteq> set xs \<and> current_thread s' \<in> set ys \<and>
      (\<forall>t. t \<notin> set xs \<longrightarrow> th_state (threads s' t) = th_state (threads s t))"
proof (induction rs arbitrary: s xs)
  case Nil
  then show ?case by auto
next
  case (Cons r rs)
  obtain r' s1 where h: "scheduler_handler g r s = Some (r', s1)" "sched_run g rs s1 = Some s'"
    using Cons.prems(3) by (auto simp: bind_eq_Some_conv)
  obtain ys where ys: "ring s1 ys" "set ys \<subseteq> set xs" "current_thread s1 \<in> set ys"
    "\<forall>t. t \<notin> set xs \<longrightarrow> th_state (threads s1 t) = th_state (threads s t)"
    using scheduler_handler_ring [OF Cons.prems(1,2) h(1)] by blast
  from Cons.IH [OF ys(1,3) h(2)] obtain zs where zs: "ring s' zs" "set zs \<subseteq> set ys" "current_thread s' \<in> set zs"
    "\<forall>t. t \<notin> set ys \<longrightarrow> th_state (threads s' t) = th_state (threads s1 t)" by blast
  with ys show ?case by (intro exI [of _ zs]) (metis (no_types, lifting) subset_trans subset_iff)
qed

lemma find_all: "\<forall>x \<in> set xs. P x \<Longrightarrow> xs \<noteq> [] \<Longrightarrow> find P xs = Some (hd xs)"
  by (cases xs) auto

lemma next_nth: "hd (vs @ us @ [x]) = (us @ x # vs) ! (Suc (length us) mod length (us @ x # vs))"
proof (cases vs)
  case Nil
  then show ?thesis by (cases us) (auto simp: nth_append)
next
  case (Cons y ys)
  then have "Suc (length us) mod length (us @ x # vs) = Suc (length us)" by simp
  then show ?thesis using Cons by (simp add: nth_append)
qed

lemma runnable_simps [simp]: "runnable READY" "runnable RUNNING"
  by (simp_all add: runnable_def)

lemma round_robin_step:
  assumes r: "ring s (us @ cur # vs)" and c: "current_thread s = cur"
    and all: "\<forall>t \<in> set (us @ cur # vs). runnable (th_state (threads s t))"
  shows "\<exists>s'. scheduler_handler g old_rsp s =
      Some (if us @ vs = [] then old_rsp else th_rsp (threads s (hd (vs @ us @ [cur]))), s') \<and>
    ring s' (us @ cur # vs) \<and> current_thread s' = hd (vs @ us @ [cur]) \<and>
    (\<forall>t \<in> set (us @ cur # vs). runnable (th_state (threads s' t))) \<and>
    (us @ vs \<noteq> [] \<longrightarrow> (\<forall>t. th_rsp (threads s' t) = (if t = cur then old_rsp else th_rsp (threads s t))))"
proof (cases "us @ vs = []")
  case True
  then show ?thesis using scheduler_handler_alone [of s cur g old_rsp] r c all by simp
next
  case False
  let ?n = "hd (vs @ us @ [cur])"
  have "\<forall>t \<in> set (vs @ us @ [cur]). runnable (th_state (threads s t))" using all by auto
  then have f: "find (\<lambda>t. runnable (th_state (threads s t))) (vs @ us @ [cur]) = Some ?n"
    by (rule find_all) simp
  have "cur \<notin> set (us @ vs)" using r by (auto simp: ring_def)
  then have ne: "?n \<noteq> cur" using False by (cases vs) (auto simp: hd_append)
  have cr: "runnable (th_state (threads s cur))" using all by simp
  from scheduler_handler_runs [OF r c cr False, of g old_rsp] obtain s' where
    "scheduler_handler g old_rsp s = Some (th_rsp (threads s ?n), s')" "current_thread s' = ?n" "ring s' (us @ cur # vs)"
    "\<forall>t. th_state (threads s' t) = (if t = ?n then RUNNING else if t = cur then READY else th_state (threads s t))"
    "\<forall>t. th_rsp (threads s' t) = (if t = cur then old_rsp else th_rsp (threads s t))"
    unfolding f using ne by (elim disjE exE conjE) (simp_all only: option.inject, metis+)
  with all False show ?thesis by (intro exI [of _ s']) (simp del: append_is_Nil_conv)
qed

lemma mod_length_less: "i < length xs \<Longrightarrow> k mod length xs < length xs"
  by (rule mod_less_divisor) (cases xs; simp)

text \<open>The same by position in the ring.\<close>

lemma round_robin_nth:
  assumes r: "ring s xs" and c: "i < length xs" "current_thread s = xs ! i"
    and all: "\<forall>t \<in> set xs. runnable (th_state (threads s t))"
  shows "\<exists>s'. scheduler_handler g old_rsp s =
      Some (if length xs = 1 then old_rsp else th_rsp (threads s (xs ! (Suc i mod length xs))), s') \<and>
    ring s' xs \<and> current_thread s' = xs ! (Suc i mod length xs) \<and> (\<forall>t \<in> set xs. runnable (th_state (threads s' t))) \<and>
    (length xs \<noteq> 1 \<longrightarrow> (\<forall>t. th_rsp (threads s' t) = (if t = xs ! i then old_rsp else th_rsp (threads s t))))"
proof -
  obtain us vs where xs: "xs = us @ xs ! i # vs" "i = length us"
    using id_take_nth_drop [OF c(1)] c(1) by (metis length_take min.absorb4)
  define cur where "cur = xs ! i"
  have xs': "xs = us @ cur # vs" using xs(1) by (simp add: cur_def)
  have one: "us @ vs = [] \<longleftrightarrow> length xs = 1" by (simp add: xs')
  have nx: "hd (vs @ us @ [cur]) = xs ! (Suc i mod length xs)" unfolding xs' xs(2) by (rule next_nth)
  note step = round_robin_step [OF r [unfolded xs'] _ all [unfolded xs'], of g old_rsp]
  have "current_thread s = cur" using c(2) by (simp only: cur_def)
  from step [OF this] show ?thesis unfolding one nx xs' [symmetric] unfolding cur_def .
qed

lemma round_robin_run:
  "ring s xs \<Longrightarrow> i < length xs \<Longrightarrow> current_thread s = xs ! i \<Longrightarrow> \<forall>t \<in> set xs. runnable (th_state (threads s t)) \<Longrightarrow>
    \<exists>s'. sched_run g rs s = Some s' \<and> ring s' xs \<and> current_thread s' = xs ! ((i + length rs) mod length xs) \<and>
      (\<forall>t \<in> set xs. runnable (th_state (threads s' t)))"
proof (induction rs arbitrary: s i)
  case Nil
  then show ?case by simp
next
  case (Cons r rs)
  from round_robin_nth [OF Cons.prems, of g r] obtain r' s1 where 1: "scheduler_handler g r s = Some (r', s1)"
    "ring s1 xs" "current_thread s1 = xs ! (Suc i mod length xs)" "\<forall>t \<in> set xs. runnable (th_state (threads s1 t))" by blast
  have "Suc i mod length xs < length xs" using Cons.prems(2) by (rule mod_length_less)
  from Cons.IH [OF 1(2) this 1(3,4)] show ?case by (simp add: 1(1) mod_simps)
qed

text \<open>The stack pointer a thread is switched out with is untouched until it runs again.\<close>

lemma round_robin_keeps_rsp:
  "ring s xs \<Longrightarrow> i < length xs \<Longrightarrow> current_thread s = xs ! i \<Longrightarrow> \<forall>t \<in> set xs. runnable (th_state (threads s t)) \<Longrightarrow>
    k < length xs \<Longrightarrow> (\<forall>j < length rs. (i + j) mod length xs \<noteq> k) \<Longrightarrow> sched_run g rs s = Some s' \<Longrightarrow>
    th_rsp (threads s' (xs ! k)) = th_rsp (threads s (xs ! k))"
proof (induction rs arbitrary: s i)
  case Nil
  then show ?case by simp
next
  case (Cons r rs)
  from round_robin_nth [OF Cons.prems(1-4), of g r] obtain r' s1 where 1: "scheduler_handler g r s = Some (r', s1)"
    "ring s1 xs" "current_thread s1 = xs ! (Suc i mod length xs)" "\<forall>t \<in> set xs. runnable (th_state (threads s1 t))"
    "length xs \<noteq> 1 \<longrightarrow> (\<forall>t. th_rsp (threads s1 t) = (if t = xs ! i then r else th_rsp (threads s t)))" by blast
  have lt: "Suc i mod length xs < length xs" using Cons.prems(2) by (rule mod_length_less)
  have ik: "i \<noteq> k" using Cons.prems(2,6) by force
  have "\<forall>j < length rs. (Suc i mod length xs + j) mod length xs \<noteq> k"
  proof (intro allI impI)
    fix j assume "j < length rs"
    then have "(i + Suc j) mod length xs \<noteq> k" using Cons.prems(6) [rule_format, of "Suc j"] by simp
    then show "(Suc i mod length xs + j) mod length xs \<noteq> k" by (simp add: mod_simps)
  qed
  from Cons.IH [OF 1(2) lt 1(3,4) Cons.prems(5) this] Cons.prems(7)
  have "th_rsp (threads s' (xs ! k)) = th_rsp (threads s1 (xs ! k))" by (simp add: 1(1))
  moreover have "xs ! k \<noteq> xs ! i" using ik Cons.prems(1,2,5) by (simp add: ring_def nth_eq_iff_index_eq)
  moreover have "length xs \<noteq> 1" using ik Cons.prems(2,5) by linarith
  ultimately show ?case using 1(5) by simp
qed

text \<open>Two threads at 0x1000, running, and 0x2000.\<close>

definition sched_example :: schedstate where
  "sched_example = apicstate.extend apic_example
     \<lparr>threads = (\<lambda>_. zero_thread)(0x1000 := zero_thread\<lparr>th_rsp := 0x5000, th_state := RUNNING, th_next := 0x2000, th_prev := 0x2000\<rparr>,
        0x2000 := zero_thread\<lparr>th_rsp := 0x6000, th_next := 0x1000, th_prev := 0x1000\<rparr>),
      processes = (\<lambda>_. \<lparr>p_pml4 = 0, p_pid = 0, p_threads = 0, ustacks_infos = 0\<rparr>), next_thread_id = 2, next_process_id = 1,
      current_thread = 0x1000, ready_list_head = 0x1000, dead_list_head = 0, tss_rsp0 = 0, kernel_rsp = 0\<rparr>"

lemma sched_example_ring:
  "ring sched_example [0x1000, 0x2000]" "current_thread sched_example = 0x1000"
  "\<forall>t \<in> set [0x1000, 0x2000]. runnable (th_state (threads sched_example t))"
  by (simp_all add: sched_example_def apicstate.defs ring_def cyc_def zero_thread_def)

section \<open>Properties\<close>

text \<open>
  C6: Scheduling is fair. From a ring of ready threads any number of timer interrupts or yields leaves
  the ring as it was, and wherever they stop, every thread of the ring is running again after fewer
  further calls than there are threads.
\<close>

theorem round_robin_fair:
  assumes "ring s xs" "current_thread s \<in> set xs" "\<forall>t \<in> set xs. runnable (th_state (threads s t))" "t \<in> set xs"
  shows "\<exists>s'. sched_run g rs s = Some s' \<and> ring s' xs \<and>
    (\<exists>n < length xs. \<forall>rs'. length rs' = n \<longrightarrow> (\<exists>s''. sched_run g rs' s' = Some s'' \<and> current_thread s'' = t))"
proof -
  obtain i where i: "i < length xs" "current_thread s = xs ! i" using assms(2) by (metis in_set_conv_nth)
  obtain k where k: "k < length xs" "t = xs ! k" using assms(4) by (metis in_set_conv_nth)
  define j where "j = (i + length rs) mod length xs"
  have j: "j < length xs" unfolding j_def using i(1) by (rule mod_length_less)
  obtain s' where s': "sched_run g rs s = Some s'" "ring s' xs" "current_thread s' = xs ! j"
    "\<forall>t \<in> set xs. runnable (th_state (threads s' t))"
    using round_robin_run [OF assms(1) i assms(3), of g rs] by (auto simp: j_def)
  define n where "n = (k + (length xs - j)) mod length xs"
  have "(j + n) mod length xs = (k + (j + (length xs - j))) mod length xs" by (simp add: n_def mod_simps ac_simps)
  also have "\<dots> = k" using j k(1) by simp
  finally have n: "(j + n) mod length xs = k" .
  have "n < length xs" unfolding n_def using i(1) by (rule mod_length_less)
  moreover have "\<exists>s''. sched_run g rs' s' = Some s'' \<and> current_thread s'' = t" if "length rs' = n" for rs'
    using round_robin_run [OF s'(2) j s'(3,4), of g rs'] that n k(2) by auto
  ultimately show ?thesis using s'(1,2) by blast
qed

theorem round_robin_fair_witness:
  "\<exists>s'. sched_run 0 [0x5100] sched_example = Some s' \<and> ring s' [0x1000, 0x2000] \<and>
    (\<exists>n < 2. \<forall>rs'. length rs' = n \<longrightarrow> (\<exists>s''. sched_run 0 rs' s' = Some s'' \<and> current_thread s'' = 0x1000))"
proof -
  have "current_thread sched_example \<in> set [0x1000, 0x2000]" "(0x1000 :: u64) \<in> set [0x1000, 0x2000]"
    by (simp_all add: sched_example_ring(2))
  from round_robin_fair [OF sched_example_ring(1) this(1) sched_example_ring(3) this(2), of 0 "[0x5100]"]
  show ?thesis by (simp add: numeral_2_eq_2 del: sched_run.simps)
qed

text \<open>
  C21: A thread resumes where it was interrupted: once every other thread of the ring had its turn, the
  scheduler returns the stack pointer with which the thread was switched out.
\<close>

theorem context_restored:
  assumes "ring s xs" "current_thread s \<in> set xs" "\<forall>t \<in> set xs. runnable (th_state (threads s t))"
    and "Suc (Suc (length rs)) = length xs"
  shows "\<exists>s'. sched_run g (old_rsp # rs) s = Some s' \<and>
    (\<forall>q. \<exists>s''. scheduler_handler g q s' = Some (old_rsp, s'') \<and> current_thread s'' = current_thread s)"
proof -
  obtain i where i: "i < length xs" "current_thread s = xs ! i" using assms(2) by (metis in_set_conv_nth)
  from round_robin_nth [OF assms(1) i assms(3), of g old_rsp] obtain r' s1 where 1: "scheduler_handler g old_rsp s = Some (r', s1)"
    "ring s1 xs" "current_thread s1 = xs ! (Suc i mod length xs)" "\<forall>t \<in> set xs. runnable (th_state (threads s1 t))"
    "th_rsp (threads s1 (xs ! i)) = old_rsp" using assms(4) by auto
  define j where "j = Suc i mod length xs"
  have j: "j < length xs" unfolding j_def using i(1) by (rule mod_length_less)
  have c1: "current_thread s1 = xs ! j" using 1(3) by (simp add: j_def)
  obtain s' where s': "sched_run g rs s1 = Some s'" "ring s' xs" "current_thread s' = xs ! ((j + length rs) mod length xs)"
    "\<forall>t \<in> set xs. runnable (th_state (threads s' t))"
    using round_robin_run [OF 1(2) j c1 1(4), of g rs] by blast
  have full: "Suc ((j + length rs) mod length xs) mod length xs = i"
  proof -
    have "Suc ((j + length rs) mod length xs) mod length xs = (i + Suc (Suc (length rs))) mod length xs"
      by (simp add: j_def mod_simps)
    then show ?thesis using i(1) by (simp add: assms(4))
  qed
  have "\<forall>m < length rs. (j + m) mod length xs \<noteq> i"
  proof (intro allI impI notI)
    fix m assume m: "m < length rs" "(j + m) mod length xs = i"
    then have "(i + Suc m) mod length xs = i" by (simp add: j_def mod_simps)
    then show False using m(1) assms(4) i(1) by (cases "i + Suc m < length xs") (auto simp: mod_if split: if_splits)
  qed
  then have keep: "th_rsp (threads s' (xs ! i)) = old_rsp"
    using round_robin_keeps_rsp [OF 1(2) j c1 1(4) i(1) _ s'(1)] 1(5) by simp
  have lt: "(j + length rs) mod length xs < length xs" using i(1) by (rule mod_length_less)
  have "\<exists>s''. scheduler_handler g q s' = Some (old_rsp, s'') \<and> current_thread s'' = current_thread s" for q
    using round_robin_nth [OF s'(2) lt s'(3,4), of g q] assms(4) full keep i(2) by auto
  with 1(1) s'(1) show ?thesis by auto
qed

theorem context_restored_witness:
  "\<exists>s'. sched_run 0 [0x5100] sched_example = Some s' \<and>
    (\<exists>s''. scheduler_handler 0 0x6100 s' = Some (0x5100, s'') \<and> current_thread s'' = 0x1000)"
proof -
  have "current_thread sched_example \<in> set [0x1000, 0x2000]" by (simp add: sched_example_ring(2))
  from context_restored [OF sched_example_ring(1) this sched_example_ring(3), of "[]" 0 "0x5100"]
  show ?thesis by (simp del: sched_run.simps add: sched_example_ring(2)) blast
qed

end
