(* ===== verification/Interrupts.thy ===== *)
theory Interrupts
  imports Thread
begin

text \<open>
  Descriptor tables and the C side of interrupts, page faults and system calls: \<^verbatim>\<open>gdt.c\<close>, \<^verbatim>\<open>idt.c\<close>,
  \<^verbatim>\<open>mm/page_fault.c\<close> and \<^verbatim>\<open>syscalls.c\<close>. The entry stubs are assembly; their addresses are arguments.
\<close>

section \<open>State\<close>

record gdt_entry =
  limit_low :: u16
  base_low :: u16
  base_mid :: u8
  access :: u8
  limit_high_flags :: u8
  base_high :: u8

record idt_entry =
  offset_1 :: u16
  selector :: u16
  ist :: u8
  flags :: u8
  offset_2 :: u16
  offset_3 :: u32
  reserved :: u32

record tss_rest =
  tss_rsp1 :: u64
  tss_rsp2 :: u64
  tss_ist :: "nat \<Rightarrow> u64"
  tss_iopb :: u16

text \<open>\<^verbatim>\<open>gdtr\<close> and \<^verbatim>\<open>idtr\<close> are what \<^verbatim>\<open>lgdt\<close> and \<^verbatim>\<open>lidt\<close> load: limit and base.\<close>

record cpustate = schedstate +
  gdt_entries :: "nat \<Rightarrow> gdt_entry"
  gdtr :: "u16 \<times> u64"
  tss :: tss_rest
  idt_entries :: "nat \<Rightarrow> idt_entry"
  idtr :: "u16 \<times> u64"

section \<open>Global descriptor table\<close>

abbreviation SIZEOF_TSS :: nat where "SIZEOF_TSS \<equiv> 104"

definition setGDTGate :: "u8 \<Rightarrow> u32 \<Rightarrow> u32 \<Rightarrow> u8 \<Rightarrow> u8 \<Rightarrow> 'a cpustate_scheme \<Rightarrow> 'a cpustate_scheme" where
  "setGDTGate vector bs lim acc fl s =
     s\<lparr>gdt_entries := (gdt_entries s)(unat vector :=
       \<lparr>limit_low = ucast (lim AND 0xFFFF), base_low = ucast (bs AND 0xFFFF), base_mid = ucast (drop_bit 16 bs AND 0xFF),
        access = acc, limit_high_flags = ucast (drop_bit 16 lim AND 0x0F) OR (fl AND 0xF0),
        base_high = ucast (drop_bit 24 bs AND 0xFF)\<rparr>)\<rparr>"

text \<open>
  A TSS descriptor takes two entries: \<^verbatim>\<open>base_upper\<close> lies over \<^verbatim>\<open>limit_low\<close> and \<^verbatim>\<open>base_low\<close> of the next one,
  \<^verbatim>\<open>reserved\<close> over the rest of it.
\<close>

definition setTSSGate :: "u8 \<Rightarrow> u64 \<Rightarrow> u32 \<Rightarrow> 'a cpustate_scheme \<Rightarrow> 'a cpustate_scheme" where
  "setTSSGate vector bs lim s =
     (let s1 = setGDTGate vector (ucast bs) lim 0x89 0x40 s; base_upper = ucast (drop_bit 32 bs) :: u32
      in s1\<lparr>gdt_entries := (gdt_entries s1)(Suc (unat vector) :=
        \<lparr>limit_low = ucast base_upper, base_low = ucast (drop_bit 16 base_upper), base_mid = 0, access = 0,
         limit_high_flags = 0, base_high = 0\<rparr>)\<rparr>)"

definition init_GDT :: "u64 \<Rightarrow> u64 \<Rightarrow> u64 \<Rightarrow> 'a cpustate_scheme \<Rightarrow> 'a cpustate_scheme" where
  "init_GDT gdt_addr tss_addr ist1_stack_top s =
     (let s1 = setGDTGate 4 0 0xFFFFFFFF 0xFA 0x20 (setGDTGate 3 0 0xFFFFFFFF 0xF2 0x00
           (setGDTGate 2 0 0xFFFFFFFF 0x92 0x00 (setGDTGate 1 0 0xFFFFFFFF 0x9A 0x20 (setGDTGate 0 0 0 0 0 s))));
          s2 = s1\<lparr>tss_rsp0 := 0, tss := \<lparr>tss_rsp1 = 0, tss_rsp2 = 0, tss_ist = (\<lambda>_. 0)(0 := ist1_stack_top),
            tss_iopb = of_nat SIZEOF_TSS\<rparr>\<rparr>;
          s3 = setTSSGate 5 tss_addr (of_nat SIZEOF_TSS - 1) s2
      in s3\<lparr>gdtr := (7 * 8 - 1, gdt_addr)\<rparr>)"

section \<open>Interrupt descriptor table\<close>

definition remap_PIC :: "'a cpustate_scheme \<Rightarrow> 'a cpustate_scheme" where
  "remap_PIC s = fold (\<lambda>(port, v). outb port v)
     [(0x20, 0x11), (0xA0, 0x11), (0x21, 0x20), (0xA1, 0x28), (0x21, 0x04), (0xA1, 0x02), (0x21, 0x01), (0xA1, 0x01),
      (0x21, 0xFF), (0xA1, 0xFF)] s"

definition setIDTGate :: "u8 \<Rightarrow> u64 \<Rightarrow> u8 \<Rightarrow> u8 \<Rightarrow> 'a cpustate_scheme \<Rightarrow> 'a cpustate_scheme" where
  "setIDTGate vector handler fl ist_no s =
     s\<lparr>idt_entries := (idt_entries s)(unat vector :=
       \<lparr>offset_1 = ucast (handler AND 0xFFFF), selector = 0x08, ist = ist_no AND 0x07, flags = fl,
        offset_2 = ucast (drop_bit 16 handler AND 0xFFFF), offset_3 = ucast (drop_bit 32 handler AND 0xFFFFFFFF),
        reserved = 0\<rparr>)\<rparr>"

text \<open>The stubs of the assembly files: \<^verbatim>\<open>isr_stub_table\<close>, \<^verbatim>\<open>irq_stub_table\<close> and three single ones.\<close>

record stubs =
  isr_stub_table :: "nat \<Rightarrow> u64"
  irq_stub_table :: "nat \<Rightarrow> u64"
  yield_handler :: u64
  lapic_timer_handler :: u64
  isr255 :: u64

definition init_IDT :: "stubs \<Rightarrow> u64 \<Rightarrow> 'a cpustate_scheme \<Rightarrow> 'a cpustate_scheme" where
  "init_IDT st idt_addr s =
     (let s1 = fold (\<lambda>i. setIDTGate (of_nat i) 0 0 0) [0..<256] (remap_PIC s);
          s2 = fold (\<lambda>v. setIDTGate (of_nat v) (isr_stub_table st v) 0x8E 0) [0..<8] s1;
          s3 = setIDTGate 8 (isr_stub_table st 8) 0x8E 1 s2;
          s4 = fold (\<lambda>v. setIDTGate (of_nat v) (isr_stub_table st v) 0x8E 0) [9..<32] s3;
          s5 = fold (\<lambda>v. setIDTGate (of_nat v) (irq_stub_table st (v - 32)) 0x8E 0) [32..<48] s4;
          s6 = setIDTGate 255 (isr255 st) 0x8E 0 (setIDTGate 0xEF (lapic_timer_handler st) 0x8E 0
            (setIDTGate 0x81 (yield_handler st) 0x8E 0 s5))
      in s6\<lparr>idtr := (16 * 256 - 1, idt_addr)\<rparr>)"

section \<open>Page faults\<close>

text \<open>
  \<^verbatim>\<open>fault_address\<close> is the content of CR2 and \<^verbatim>\<open>rsp\<close> the stack pointer at the yield of \<^verbatim>\<open>thread_exit\<close>. None: the
  handler loops for ever, also when \<^verbatim>\<open>thread_exit\<close> comes back because there is no other thread.
\<close>

definition page_fault_handler :: "u64 \<Rightarrow> u64 \<Rightarrow> u64 \<Rightarrow> 'a schedstate_scheme \<Rightarrow> 'a schedstate_scheme option" where
  "page_fault_handler sstacks_addr rsp fault_address s =
     (let t = current_thread s; r = threads s t in
      if scheduler s \<and> page_guard_max r > fault_address \<and> page_guard_min r \<le> fault_address then
        if page_guard_max r \<noteq> stack_bottom (user_stack r) then do {
          (paddr, s1) \<leftarrow> pmm_alloc_page s;
          s2 \<leftarrow> vmm_map_page (read_cr3 s1) paddr (page_guard_min r) PAGE_SIZE_4KB (PTE_WRITABLE OR PTE_USER) s1;
          let s3 = upd_thread t (\<lambda>r. r\<lparr>page_guard_max := page_guard_max r - PAGE_SIZE_4KB,
            page_guard_min := page_guard_min r - PAGE_SIZE_4KB\<rparr>) s2;
          serial_putchars (''[ISR] User Stack Expand'' @ [CHR 0x0A]) s3
        }
        else do {
          s1 \<leftarrow> serial_putchars (''[ISR] User Stack Overflow'' @ [CHR 0x0A]) s;
          s2 \<leftarrow> thread_exit sstacks_addr rsp s1;
          if current_thread s2 = t then None else Some s2
        }
      else None)"

section \<open>Exceptions and interrupts\<close>

definition exceptions :: "string list" where
  "exceptions = [''Division By Zero.'', ''Debug.'', ''Non Maskable Interrupt.'', ''Breakpoint.'', ''Into Detected Overflow.'',
     ''Out Of Bounds.'', ''Invalid Opcode.'', ''No Coprocessor.'', ''Double Fault.'', ''Coprocessor Segment Overrun.'',
     ''Bad TSS.'', ''Segment not present.'', ''Stack fault.'', ''General Protection Fault.'', ''Page Fault.'',
     ''Unknown Interrupt.'', ''Coprocessor Fault.'', ''Aligment Fault.'', ''Machine Check.''] @ replicate 13 ''Reserved.''"

definition isr_handler :: "u64 \<Rightarrow> u64 \<Rightarrow> u64 \<Rightarrow> u64 \<Rightarrow> 'a schedstate_scheme \<Rightarrow> 'a schedstate_scheme option" where
  "isr_handler sstacks_addr rsp fault_address int_no s = do {
     s1 \<leftarrow> serial_putchars (''[ISR] '' @ exceptions ! unat int_no @ [CHR 0x0A]) s;
     if int_no = 0x0e then page_fault_handler sstacks_addr rsp fault_address s1 else Some s1
   }"

text \<open>
  \<^verbatim>\<open>call\<close> runs the registered function at an address; the null pointer of an unregistered line is called
  as well.
\<close>

definition irq_handler ::
  "(u64 \<Rightarrow> 'a schedstate_scheme \<Rightarrow> 'a schedstate_scheme option) \<Rightarrow> u64 \<Rightarrow> 'a schedstate_scheme \<Rightarrow> 'a schedstate_scheme option" where
  "irq_handler call int_no s = do { s1 \<leftarrow> call (irq_handlers s (unat (int_no - 32))) s; Some (lapic_eoi s1) }"

definition exception_handler ::
  "(u64 \<Rightarrow> 'a schedstate_scheme \<Rightarrow> 'a schedstate_scheme option) \<Rightarrow> u64 \<Rightarrow> u64 \<Rightarrow> u64 \<Rightarrow> u64 \<Rightarrow>
    'a schedstate_scheme \<Rightarrow> 'a schedstate_scheme option" where
  "exception_handler call sstacks_addr rsp fault_address int_no s = do {
     s1 \<leftarrow> (if int_no < 32 then isr_handler sstacks_addr rsp fault_address int_no s else Some s);
     s2 \<leftarrow> (if int_no > 31 \<and> int_no < 48 then irq_handler call int_no s1 else Some s1);
     Some (if int_no = 255 then lapic_eoi s2 else s2)
   }"

section \<open>System calls\<close>

definition write_msr64 :: "u32 \<Rightarrow> u64 \<Rightarrow> 'a machine_scheme \<Rightarrow> 'a machine_scheme" where
  "write_msr64 i v s = write_msr i (ucast v) (ucast (drop_bit 32 v)) s"

abbreviation FLAGS_IF :: u64 where "FLAGS_IF \<equiv> 0x200"
abbreviation FLAGS_DF :: u64 where "FLAGS_DF \<equiv> 0x40"
abbreviation FLAGS_TF :: u64 where "FLAGS_TF \<equiv> 0x100"

definition init_syscalls :: "u64 \<Rightarrow> u64 \<Rightarrow> 'a schedstate_scheme \<Rightarrow> 'a schedstate_scheme" where
  "init_syscalls syscall_entry sstacks_addr s =
     (let (low, high) = read_msr 0xC0000080 s;
          efer = (push_bit 32 (ucast high) OR ucast low) OR (1 :: u64);
          s1 = write_msr64 0xC0000080 efer s;
          s2 = write_msr64 0xC0000081 (push_bit 48 0x10 OR push_bit 32 0x08) s1;
          s3 = write_msr64 0xC0000082 syscall_entry s2;
          s4 = write_msr64 0xC0000084 (FLAGS_IF OR FLAGS_DF OR FLAGS_TF) s3
      in init_kernel_gs_base sstacks_addr s4)"

definition syscall_handler :: "u64 \<Rightarrow> u64 \<Rightarrow> u64 \<Rightarrow> 'a schedstate_scheme \<Rightarrow> 'a schedstate_scheme option" where
  "syscall_handler sstacks_addr rsp sys_num s =
     (if sys_num = 60 then do {
        msg \<leftarrow> render serial_conv (''[THREAD %d] SYS EXIT'' @ [CHR 0x0A]) [Num (th_tid (threads s (current_thread s)))];
        s1 \<leftarrow> serial_putchars msg s;
        thread_exit sstacks_addr rsp s1
      }
      else Some s)"

section \<open>What a gate decodes to\<close>

text \<open>How the processor reads a gate: bit 7 of the flags is the present bit.\<close>

definition gate_present :: "idt_entry \<Rightarrow> bool" where
  "gate_present e \<longleftrightarrow> bit (flags e) 7"

definition gate_handler :: "idt_entry \<Rightarrow> u64" where
  "gate_handler e = push_bit 32 (ucast (offset_3 e)) OR push_bit 16 (ucast (offset_2 e)) OR ucast (offset_1 e)"

text \<open>A present interrupt gate of ring 0 in the kernel code segment, with handler and stack.\<close>

definition interrupt_gate :: "u64 \<Rightarrow> u8 \<Rightarrow> idt_entry \<Rightarrow> bool" where
  "interrupt_gate h stack e \<longleftrightarrow> gate_present e \<and> gate_handler e = h \<and> flags e AND 0x7F = 0x0E \<and> selector e = 0x08 \<and>
     ist e = stack \<and> reserved e = 0"

definition make_gate :: "u64 \<Rightarrow> u8 \<Rightarrow> u8 \<Rightarrow> idt_entry" where
  "make_gate h fl ist_no = \<lparr>offset_1 = ucast (h AND 0xFFFF), selector = 0x08, ist = ist_no AND 0x07, flags = fl,
     offset_2 = ucast (drop_bit 16 h AND 0xFFFF), offset_3 = ucast (drop_bit 32 h AND 0xFFFFFFFF), reserved = 0\<rparr>"

lemma setIDTGate_entries:
  "idt_entries (setIDTGate v h fl i s) = (idt_entries s)(unat v := make_gate h fl i)"
  by (simp add: setIDTGate_def make_gate_def)

lemma mask_words: "(0xFFFF :: u64) = mask 16" "(0xFFFFFFFF :: u64) = mask 32"
  by (simp_all add: mask_eq_exp_minus_1)

lemma gate_handler_make: "gate_handler (make_gate h fl i) = h"
proof (rule bit_word_eqI)
  fix n assume "n < LENGTH(64)"
  then show "bit (gate_handler (make_gate h fl i)) n = bit h n"
    by (cases "n < 16"; cases "n < 32") (auto simp: gate_handler_def make_gate_def mask_words bit_simps)
qed

lemma make_gate_interrupt: "i = 0 \<or> i = 1 \<Longrightarrow> interrupt_gate h i (make_gate h 0x8E i)"
  by (auto simp: interrupt_gate_def gate_handler_make) (auto simp: make_gate_def gate_present_def)

lemma setIDTGate_loop:
  "b \<le> 256 \<Longrightarrow> idt_entries (fold (\<lambda>v. setIDTGate (of_nat v) (h v) fl i) [a..<b] s) n =
     (if a \<le> n \<and> n < b then make_gate (h n) fl i else idt_entries s n)"
proof (induction b)
  case (Suc b)
  then have "unat (of_nat b :: u8) = b" by (simp add: unat_of_nat)
  with Suc show ?case by (auto simp: setIDTGate_entries)
qed simp

lemma idt_entries_outb: "idt_entries (remap_PIC s) = idt_entries s"
  by (simp add: remap_PIC_def outb_def)

section \<open>Properties\<close>

text \<open>
  C23: The interrupt descriptor table is well formed. After \<^verbatim>\<open>init_IDT\<close> exactly the vectors 0 to 47, 0x81, 0xEF
  and 255 have a present gate, each is a ring 0 interrupt gate in the kernel code segment whose split
  offset decodes to the stub of its vector, and only the double fault runs on its own stack.
\<close>

theorem init_IDT_gates:
  assumes "v < 256"
  shows "let e = idt_entries (init_IDT st idt_addr s) v in
    (gate_present e \<longleftrightarrow> v < 48 \<or> v \<in> {0x81, 0xEF, 255}) \<and>
    (v < 32 \<longrightarrow> interrupt_gate (isr_stub_table st v) (if v = 8 then 1 else 0) e) \<and>
    (32 \<le> v \<and> v < 48 \<longrightarrow> interrupt_gate (irq_stub_table st (v - 32)) 0 e) \<and>
    (v = 0x81 \<longrightarrow> interrupt_gate (yield_handler st) 0 e) \<and>
    (v = 0xEF \<longrightarrow> interrupt_gate (lapic_timer_handler st) 0 e) \<and>
    (v = 255 \<longrightarrow> interrupt_gate (isr255 st) 0 e)"
proof -
  have e: "idt_entries (init_IDT st idt_addr s) v =
     (if v = 255 then make_gate (isr255 st) 0x8E 0 else if v = 0xEF then make_gate (lapic_timer_handler st) 0x8E 0
      else if v = 0x81 then make_gate (yield_handler st) 0x8E 0
      else if 32 \<le> v \<and> v < 48 then make_gate (irq_stub_table st (v - 32)) 0x8E 0
      else if v = 8 then make_gate (isr_stub_table st 8) 0x8E 1
      else if v < 32 then make_gate (isr_stub_table st v) 0x8E 0 else make_gate 0 0 0)"
    using assms by (simp add: init_IDT_def Let_def setIDTGate_loop setIDTGate_entries del: upt_rec_numeral)
  have p: "gate_present (make_gate h 0x8E i)" "\<not> gate_present (make_gate 0 0 0)" for h i
    by (simp_all add: make_gate_def gate_present_def)
  show ?thesis unfolding e Let_def using p make_gate_interrupt by auto
qed

text \<open>A machine before \<^verbatim>\<open>init_IDT\<close>, and stubs 16 bytes apart.\<close>

definition cpu_example :: cpustate where
  "cpu_example = schedstate.extend sched_example
     \<lparr>gdt_entries = (\<lambda>_. \<lparr>limit_low = 0, base_low = 0, base_mid = 0, access = 0, limit_high_flags = 0, base_high = 0\<rparr>),
      gdtr = (0, 0), tss = \<lparr>tss_rsp1 = 0, tss_rsp2 = 0, tss_ist = (\<lambda>_. 0), tss_iopb = 0\<rparr>,
      idt_entries = (\<lambda>_. make_gate 0 0 0), idtr = (0, 0)\<rparr>"

definition stubs_example :: stubs where
  "stubs_example = \<lparr>isr_stub_table = (\<lambda>v. 0xFFFFFFFF80001000 + 16 * of_nat v),
     irq_stub_table = (\<lambda>v. 0xFFFFFFFF80001200 + 16 * of_nat v), yield_handler = 0xFFFFFFFF80002000,
     lapic_timer_handler = 0xFFFFFFFF80003000, isr255 = 0xFFFFFFFF80004000\<rparr>"

theorem init_IDT_gates_witness:
  "interrupt_gate 0xFFFFFFFF80001080 1 (idt_entries (init_IDT stubs_example 0x9000 cpu_example) 8)"
  using init_IDT_gates [of 8 stubs_example "0x9000" cpu_example] by (simp add: stubs_example_def Let_def)

end
