(* ===== verification/Fs.thy ===== *)
theory Fs
  imports Interrupts
begin

text \<open>
  The ramdisk and its file system: \<^verbatim>\<open>fs.c\<close>, \<^verbatim>\<open>dfs.c\<close> and \<^verbatim>\<open>vfs.c\<close>. The disk is read through the direct map,
  so an address of it is the physical one plus \<^verbatim>\<open>DIRECT_OFFSET\<close>. Nodes and their contexts come from
  \<^verbatim>\<open>kmalloc\<close> and are stores indexed by address.
\<close>

section \<open>State\<close>

record ramdisk =
  rd_type :: u32
  rd_size :: u32
  rd_start :: u64
  rd_end :: u64

record dfs_vfs_ctx =
  ctx_inode_num :: u32
  ctx_inode :: u64

record vfs_node =
  vn_name :: "nat \<Rightarrow> u8"
  vn_type :: u8
  vn_size :: u32
  vn_ops :: u64
  vn_priv :: u64

record fsstate = cpustate +
  ramdisk :: ramdisk
  vfs_nodes :: "u64 \<Rightarrow> vfs_node"
  dfs_ctxs :: "u64 \<Rightarrow> dfs_vfs_ctx"

abbreviation DFS_MAGIC :: u64 where "DFS_MAGIC \<equiv> 0x00534644"
abbreviation DFS_BLOCKSIZE32 :: u32 where "DFS_BLOCKSIZE32 \<equiv> 0x1000"
abbreviation DFS_TYPE_FILE :: u8 where "DFS_TYPE_FILE \<equiv> 1"
abbreviation SIZEOF_INODE :: u64 where "SIZEOF_INODE \<equiv> 128"

text \<open>Memory as seen through the direct map.\<close>

definition direct :: "'a machine_scheme \<Rightarrow> mem" where
  "direct s a = pmem s (a - DIRECT_OFFSET)"

section \<open>On-disk structures\<close>

record extent =
  logical_block :: u32
  ex_length :: u32
  start_block :: u64

definition read_extent :: "mem \<Rightarrow> u64 \<Rightarrow> extent" where
  "read_extent m p = \<lparr>logical_block = ld32 m p, ex_length = ld32 m (p + 4), start_block = ld64 m (p + 8)\<rparr>"

record inode =
  in_size :: u64
  in_type :: u16
  links_count :: u16
  in_flags :: u32
  extents :: "extent list"

definition read_inode :: "mem \<Rightarrow> u64 \<Rightarrow> inode" where
  "read_inode m p = \<lparr>in_size = ld64 m p, in_type = ld16 m (p + 8), links_count = ld16 m (p + 10), in_flags = ld32 m (p + 12),
     extents = map (\<lambda>i. read_extent m (p + 16 + 16 * of_nat i)) [0..<4]\<rparr>"

record superblock =
  sb_magic :: u64
  sb_block_size :: u32
  sb_total_blocks :: u32
  sb_total_inodes :: u32
  sb_free_blocks :: u32
  sb_free_inodes :: u32
  block_bitmap_block :: u32
  inode_bitmap_block :: u32
  inode_table_block :: u32
  data_blocks_start :: u32

definition read_superblock :: "mem \<Rightarrow> u64 \<Rightarrow> superblock" where
  "read_superblock m p = \<lparr>sb_magic = ld64 m p, sb_block_size = ld32 m (p + 8), sb_total_blocks = ld32 m (p + 12),
     sb_total_inodes = ld32 m (p + 16), sb_free_blocks = ld32 m (p + 20), sb_free_inodes = ld32 m (p + 24),
     block_bitmap_block = ld32 m (p + 28), inode_bitmap_block = ld32 m (p + 32), inode_table_block = ld32 m (p + 36),
     data_blocks_start = ld32 m (p + 40)\<rparr>"

section \<open>Operations\<close>

text \<open>
  The first module decides, whatever its name; its \<^verbatim>\<open>type\<close> and \<^verbatim>\<open>size\<close> are those of the tag. Without a
  module the kernel hangs: None.
\<close>

partial_function (option) module_tag :: "mem \<Rightarrow> u64 \<Rightarrow> u64 option" where
  "module_tag m p =
     (if tag_type (read_tag m p) = MULTIBOOT_TAG_TYPE_END then None
      else if tag_type (read_tag m p) = MULTIBOOT_TAG_TYPE_MODULE then Some p
      else module_tag m (next_tag m p))"

definition parse_ramdisk :: "u32 \<Rightarrow> 'a fsstate_scheme \<Rightarrow> 'a fsstate_scheme option" where
  "parse_ramdisk bootInfoAddr s = do {
     p \<leftarrow> module_tag (kmem s) (first_tag bootInfoAddr);
     Some (if has_signature (kmem s) (p + 16) ''ramdisk''
       then s\<lparr>ramdisk := \<lparr>rd_type = tag_type (read_tag (kmem s) p), rd_size = tag_size (read_tag (kmem s) p),
         rd_start = ucast (ld32 (kmem s) (p + 8)) + DIRECT_OFFSET, rd_end = ucast (ld32 (kmem s) (p + 12)) + DIRECT_OFFSET\<rparr>\<rparr>
       else s)
   }"

definition superblock_of :: "'a fsstate_scheme \<Rightarrow> superblock" where
  "superblock_of s = read_superblock (direct s) (rd_start (ramdisk s) + 0x1000)"

definition check_dfs :: "'a fsstate_scheme \<Rightarrow> bool" where
  "check_dfs s \<longleftrightarrow> sb_magic (superblock_of s) = DFS_MAGIC"

text \<open>\<^verbatim>\<open>memcpy\<close> from the direct map.\<close>

primrec copy_in :: "nat \<Rightarrow> u64 \<Rightarrow> u64 \<Rightarrow> 'a machine_scheme \<Rightarrow> 'a machine_scheme" where
  "copy_in 0 dst src s = s"
| "copy_in (Suc n) dst src s = copy_in n (dst + 1) (src + 1) (s\<lparr>kmem := (kmem s)(dst := direct s src)\<rparr>)"

text \<open>
  The result is an \<^verbatim>\<open>int\<close>, -1 for an error. The length in bytes is a 32-bit product. \<^verbatim>\<open>memcpy\<close> starts at the
  first byte of the extent, not at \<^verbatim>\<open>offset\<close>.
\<close>

definition dfs_read :: "u64 \<Rightarrow> u32 \<Rightarrow> u64 \<Rightarrow> u64 \<Rightarrow> 'a fsstate_scheme \<Rightarrow> u32 \<times> 'a fsstate_scheme" where
  "dfs_read node offset sz buffer s =
     (if node = 0 \<or> sz = 0 \<or> buffer = 0 \<or> vn_type (vfs_nodes s node) \<noteq> DFS_TYPE_FILE then (-1, s)
      else
        let ctx = dfs_ctxs s (vn_priv (vfs_nodes s node));
            ext = extents (read_inode (direct s) (ctx_inode ctx)) ! 0;
            len = ex_length ext * DFS_BLOCKSIZE32
        in if offset > len then (-1, s)
           else if offset = len then (0, s)
           else
             let start = rd_start (ramdisk s) + start_block ext * 0x1000;
                 sz1 = (if sz + ucast offset > ucast len then ucast (len - offset) else sz)
             in (ucast sz1, copy_in (unat sz1) buffer start s))"

text \<open>\<^verbatim>\<open>dfs_ops_addr\<close> is the address of the operations table. None: the magic number is wrong and the kernel hangs.\<close>

definition mount_ramdisk :: "u64 \<Rightarrow> 'a fsstate_scheme \<Rightarrow> (u64 \<times> 'a fsstate_scheme) option" where
  "mount_ramdisk dfs_ops_addr s =
     (if \<not> check_dfs s then None
      else do {
        (root_node, s1) \<leftarrow> kmalloc 80 s;
        if root_node = 0 then Some (0, s1)
        else do {
          (root_ctx, s2) \<leftarrow> kmalloc 16 s1;
          if root_ctx = 0 then do { s3 \<leftarrow> kfree root_node s2; Some (0, s3) }
          else do {
            let ctx_node = rd_start (ramdisk s2) + ucast (inode_table_block (superblock_of s2) * DFS_BLOCKSIZE32) + SIZEOF_INODE;
            let node = read_inode (direct s2) ctx_node;
            let r = vfs_nodes s2 root_node;
            let s3 = s2\<lparr>dfs_ctxs := (dfs_ctxs s2)(root_ctx := \<lparr>ctx_inode_num = 1, ctx_inode = ctx_node\<rparr>),
              vfs_nodes := (vfs_nodes s2)(root_node := \<lparr>vn_name = (vn_name r)(0 := of_char (CHR ''/''), 1 := 0),
                vn_type = ucast (in_type node), vn_size = ucast (in_size node), vn_ops = dfs_ops_addr, vn_priv = root_ctx\<rparr>)\<rparr>;
            s4 \<leftarrow> serial_putchars (''[FS] Successfully mounted DFS'' @ [CHR 0x0A]) s3;
            Some (root_node, s4)
          }
        }
      })"

section \<open>Reading\<close>

lemma direct_kmem [simp]: "direct (s\<lparr>kmem := m\<rparr>) = direct s"
  by (simp add: direct_def fun_eq_iff)

lemma offset_pred:
  fixes a dst :: u64
  assumes "a \<noteq> dst"
  shows "unat (a - dst) = Suc (unat (a - (dst + 1)))"
proof -
  have "a - dst \<noteq> 0" "0 < unat (a - dst)" using assms by (simp_all add: unat_gt_0)
  then have "unat (a - dst) = Suc (unat (a - dst - 1))" using unat_minus_one [of "a - dst"] by linarith
  then show ?thesis by (simp add: algebra_simps)
qed

lemma copy_in_get:
  "n \<le> 2 ^ 64 \<Longrightarrow> kmem (copy_in n dst src s) a = (if unat (a - dst) < n then direct s (src + (a - dst)) else kmem s a)"
proof (induction n arbitrary: dst src s)
  case (Suc n)
  show ?case
  proof (cases "a = dst")
    case True
    have "dst - (dst + 1) = -1" by simp
    then have "unat (dst - (dst + 1)) = 2 ^ 64 - 1" by (simp only: unsigned_minus_1_eq_mask) (simp add: mask_eq_exp_minus_1)
    then show ?thesis using Suc True by simp
  next
    case False
    then show ?thesis using Suc offset_pred [OF False] by simp
  qed
qed simp

section \<open>Properties\<close>

text \<open>
  C25: \<^verbatim>\<open>dfs_read\<close> of a file whose first extent is valid returns the number of bytes asked for, cut at the end of
  the extent, and writes just that many bytes of the buffer. They are the first bytes of the extent,
  whatever the offset.
\<close>

theorem dfs_read_from_start:
  assumes "node \<noteq> 0" "buffer \<noteq> 0" "sz \<noteq> 0" "vn_type (vfs_nodes s node) = DFS_TYPE_FILE"
    and "ext = extents (read_inode (direct s) (ctx_inode (dfs_ctxs s (vn_priv (vfs_nodes s node))))) ! 0"
    and "unat (ex_length ext) * 4096 < 2 ^ 32" "unat offset < unat (ex_length ext) * 4096" "unat sz \<le> 2 ^ 63"
    and "n = min (unat sz) (unat (ex_length ext) * 4096 - unat offset)"
  shows "\<exists>s'. dfs_read node offset sz buffer s = (of_nat n, s') \<and> 0 < n \<and>
    (\<forall>i < n. kmem s' (buffer + of_nat i) = direct s (rd_start (ramdisk s) + start_block ext * 0x1000 + of_nat i)) \<and>
    (\<forall>a. (\<forall>i < n. a \<noteq> buffer + of_nat i) \<longrightarrow> kmem s' a = kmem s a)"
proof -
  define len where "len = ex_length ext * DFS_BLOCKSIZE32"
  have ul: "unat len = unat (ex_length ext) * 4096" unfolding len_def using assms(6) by (simp add: unat_word_ariths)
  have lt: "offset < len" using assms(7) ul by (simp add: word_less_nat_alt)
  define sz1 where "sz1 = (if sz + ucast offset > ucast len then ucast (len - offset) else sz)"
  have "unat (sz + ucast offset) = unat sz + unat offset"
    using assms(8) unsigned_less [where w = offset and 'a = nat] by (simp add: unat_add_64 unat_ucast_32)
  then have cut: "sz + ucast offset > ucast len \<longleftrightarrow> unat len < unat sz + unat offset"
    by (simp add: word_less_nat_alt unat_ucast_32)
  have "unat (len - offset) = unat len - unat offset" using lt by (simp add: Word.unat_sub word_le_nat_alt word_less_nat_alt)
  then have n: "unat sz1 = n" unfolding sz1_def cut using assms(9) lt ul by (auto simp: unat_ucast_32 min_def)
  have n64: "n \<le> 2 ^ 64" using unsigned_less [where w = sz1 and 'a = nat] n by simp
  have "dfs_read node offset sz buffer s = (ucast sz1, copy_in n buffer (rd_start (ramdisk s) + start_block ext * 0x1000) s)"
    unfolding n [symmetric] using assms(1-4) lt
    by (simp add: dfs_read_def Let_def sz1_def order_less_imp_not_less less_imp_neq flip: assms(5) len_def)
  moreover have "ucast sz1 = (of_nat n :: u32)" unfolding n [symmetric] by simp
  moreover have "unat (of_nat i :: u64) = i" if "i < n" for i using that n64 by (simp add: unat_of_nat)
  moreover have "a = buffer + of_nat (unat (a - buffer))" for a by simp
  moreover have "0 < n" using assms(3,7,9) by (simp add: unat_gt_0)
  ultimately show ?thesis using n64 by (intro exI [of _ "copy_in n buffer (rd_start (ramdisk s) + start_block ext * 0x1000) s"])
      (auto simp: copy_in_get)
qed

text \<open>A file of one block at 0x2000 of the disk, which starts at physical address 0, with its inode at 0x3000.\<close>

definition fs_example :: fsstate where
  "fs_example = (cpustate.extend cpu_example
     \<lparr>ramdisk = \<lparr>rd_type = 3, rd_size = 0, rd_start = DIRECT_OFFSET, rd_end = DIRECT_OFFSET + 0x4000\<rparr>,
      vfs_nodes = (\<lambda>_. \<lparr>vn_name = (\<lambda>_. 0), vn_type = DFS_TYPE_FILE, vn_size = 4096, vn_ops = 0, vn_priv = 0x200\<rparr>),
      dfs_ctxs = (\<lambda>_. \<lparr>ctx_inode_num = 2, ctx_inode = 0xFFFF800000003000\<rparr>)\<rparr>)
     \<lparr>pmem := (\<lambda>_. 0)(0x3014 := 1, 0x3018 := 2, 0x2000 := 65, 0x2004 := 66)\<rparr>"

theorem dfs_read_from_start_witness:
  "\<exists>s'. dfs_read 0x100 4 8 0x5000 fs_example = (8, s') \<and> kmem s' 0x5000 = 65"
proof -
  have p: "pmem fs_example = (\<lambda>_. 0)(0x3014 := 1, 0x3018 := 2, 0x2000 := 65, 0x2004 := 66)"
    and f: "rd_start (ramdisk fs_example) = DIRECT_OFFSET" "vn_type (vfs_nodes fs_example 0x100) = DFS_TYPE_FILE"
      "ctx_inode (dfs_ctxs fs_example (vn_priv (vfs_nodes fs_example 0x100))) = 0xFFFF800000003000"
    by (simp_all add: fs_example_def cpustate.defs)
  have d: "direct fs_example = (\<lambda>a. pmem fs_example (a - DIRECT_OFFSET))" by (simp add: direct_def fun_eq_iff)
  define ext where "ext = extents (read_inode (direct fs_example) 0xFFFF800000003000) ! 0"
  have e: "ex_length ext = 1" "start_block ext = 2"
    by (simp_all add: ext_def read_inode_def read_extent_def d p ld32_def ld64_def load_bytes_4 load_bytes_8 del: upt_rec_numeral upt_conv_Cons)
  have "\<exists>s'. dfs_read 0x100 4 8 0x5000 fs_example = (of_nat 8, s') \<and> 0 < (8 :: nat) \<and>
    (\<forall>i < 8. kmem s' (0x5000 + of_nat i) = direct fs_example (rd_start (ramdisk fs_example) + start_block ext * 0x1000 + of_nat i)) \<and>
    (\<forall>a. (\<forall>i < 8. a \<noteq> 0x5000 + of_nat i) \<longrightarrow> kmem s' a = kmem fs_example a)"
    by (rule dfs_read_from_start) (simp_all add: f ext_def [symmetric] e)
  then obtain s' where s': "dfs_read 0x100 4 8 0x5000 fs_example = (of_nat 8, s')"
    "\<forall>i < 8. kmem s' (0x5000 + of_nat i) = direct fs_example (rd_start (ramdisk fs_example) + start_block ext * 0x1000 + of_nat i)"
    by blast
  from s'(2) [rule_format, of 0] have "kmem s' 0x5000 = 65" by (simp add: f e d p)
  with s'(1) show ?thesis by simp
qed

end
