(* ===== verification/Kernel.thy ===== *)
theory Kernel
  imports Fs
begin

text \<open>
  The start of the system, \<^verbatim>\<open>kernel/kernel.c\<close>: every component initialised in the order of the code. The
  addresses the linker gives to code and data are arguments.
\<close>

record linker =
  lk_kernel_start :: u64
  lk_kernel_end :: u64
  lk_font8x16 :: u64
  lk_gdt_entries :: u64
  lk_tss :: u64
  lk_ist1_stack_top :: u64
  lk_idt_entries :: u64
  lk_stubs :: stubs
  lk_sstacks :: u64
  lk_syscall_entry :: u64
  lk_thread_exit :: u64
  lk_idle_thread_entry :: u64
  lk_third_thread :: u64
  lk_PIT_handler :: u64
  lk_dfs_ops :: u64

text \<open>
  The result is the state in which the endless loop begins, with interrupts on. None: an
  initialisation hangs or faults.
\<close>

definition kernel_main :: "linker \<Rightarrow> u32 \<Rightarrow> 'a fsstate_scheme \<Rightarrow> 'a fsstate_scheme option" where
  "kernel_main lk physBootInfo s = do {
     let s1 = init_IDT (lk_stubs lk) (lk_idt_entries lk)
       (init_GDT (lk_gdt_entries lk) (lk_tss lk) (lk_ist1_stack_top lk) (serial_init s));
     s2 \<leftarrow> init_PMM (lk_kernel_start lk) (lk_kernel_end lk) physBootInfo s1;
     s3 \<leftarrow> init_VMM physBootInfo s2;
     s4 \<leftarrow> init_kheap s3;
     s5 \<leftarrow> init_LFB (lk_font8x16 lk) physBootInfo s4;
     s6 \<leftarrow> parse_acpi physBootInfo s5;
     s7 \<leftarrow> init_scheduler (lk_thread_exit lk) (lk_idle_thread_entry lk) (lk_third_thread lk) (init_LAPIC s6);
     s8 \<leftarrow> init_PIT (lk_PIT_handler lk) 10 s7;
     s9 \<leftarrow> init_lapic_timer 0xEF 1 s8;
     s10 \<leftarrow> parse_ramdisk physBootInfo (init_syscalls (lk_syscall_entry lk) (lk_sstacks lk) s9);
     (root, s11) \<leftarrow> mount_ramdisk (lk_dfs_ops lk) s10;
     Some (sti s11)
   }"

end
