(* ===== verification/Mutex.thy ===== *)
theory Mutex
  imports Thread
begin

text \<open>
  The blocking lock of \<^verbatim>\<open>kernel/mutex.c\<close> on top of the scheduler: a spin lock around a flag and a queue of
  blocked threads, linked by \<^verbatim>\<open>next_blocked\<close>. An operation that yields gives the state in which the next
  thread goes on.
\<close>

section \<open>State and operations\<close>

record mutex =
  m_lock :: spinlock
  locked :: bool
  blocked_head :: u64
  blocked_tail :: u64

definition mutex_init :: mutex where
  "mutex_init = \<lparr>m_lock = \<lparr>lock = False\<rparr>, locked = False, blocked_head = 0, blocked_tail = 0\<rparr>"

definition mutex_enter :: "mutex \<Rightarrow> 'a schedstate_scheme \<Rightarrow> (u64 \<times> mutex \<times> 'a schedstate_scheme) option" where
  "mutex_enter m s = do { (rflags, l, s1) \<leftarrow> spin_lock_irqsave (m_lock m) s; Some (rflags, m\<lparr>m_lock := l\<rparr>, s1) }"

definition mutex_leave :: "u64 \<Rightarrow> mutex \<Rightarrow> 'a schedstate_scheme \<Rightarrow> mutex \<times> 'a schedstate_scheme" where
  "mutex_leave rflags m s = (let (l, s1) = spin_lock_irqrestore (m_lock m) rflags s in (m\<lparr>m_lock := l\<rparr>, s1))"

abbreviation set_next_blocked :: "u64 \<Rightarrow> u64 \<Rightarrow> 'a schedstate_scheme \<Rightarrow> 'a schedstate_scheme" where
  "set_next_blocked t n \<equiv> upd_thread t (\<lambda>r. r\<lparr>next_blocked := n\<rparr>)"

definition mutex_block :: "u64 \<Rightarrow> mutex \<Rightarrow> 'a schedstate_scheme \<Rightarrow> mutex \<times> 'a schedstate_scheme" where
  "mutex_block t m s =
     (let s1 = set_next_blocked t 0 (set_state t BLOCKED s)
      in if blocked_head m = 0 then (m\<lparr>blocked_head := t, blocked_tail := t\<rparr>, s1)
         else (m\<lparr>blocked_tail := t\<rparr>, set_next_blocked (blocked_tail m) t s1))"

text \<open>
  On the blocking path the spin lock is cleared without restoring the flags. \<^verbatim>\<open>sstacks_addr\<close> and \<^verbatim>\<open>rsp\<close> are the
  arguments of the yield.
\<close>

definition mutex_lock ::
  "u64 \<Rightarrow> u64 \<Rightarrow> mutex \<Rightarrow> 'a schedstate_scheme \<Rightarrow> (mutex \<times> 'a schedstate_scheme) option" where
  "mutex_lock sstacks_addr rsp m s = do {
     (rflags, m1, s1) \<leftarrow> mutex_enter m s;
     if \<not> locked m1 then Some (mutex_leave rflags (m1\<lparr>locked := True\<rparr>) s1)
     else do {
       let (m2, s2) = mutex_block (current_thread s1) m1 s1;
       let m3 = m2\<lparr>m_lock := (m_lock m2)\<lparr>lock := False\<rparr>\<rparr>;
       s3 \<leftarrow> yield sstacks_addr rsp s2;
       Some (m3, s3)
     }
   }"

definition mutex_unlock :: "mutex \<Rightarrow> 'a schedstate_scheme \<Rightarrow> (mutex \<times> 'a schedstate_scheme) option" where
  "mutex_unlock m s = do {
     (rflags, m1, s1) \<leftarrow> mutex_enter m s;
     if blocked_head m1 = 0 then Some (mutex_leave rflags (m1\<lparr>locked := False\<rparr>) s1)
     else
       let wake_thread = blocked_head m1;
           m2 = m1\<lparr>blocked_head := next_blocked (threads s1 wake_thread)\<rparr>;
           m3 = (if blocked_head m2 = 0 then m2\<lparr>blocked_tail := 0\<rparr> else m2);
           s2 = set_next_blocked wake_thread 0 (set_state wake_thread READY s1)
       in Some (mutex_leave rflags m3 s2)
   }"

section \<open>Threads sharing a mutex\<close>

text \<open>
  What can happen next: a timer interrupt or yield, an operation on the mutex by the current thread,
  or the start of a new thread, whose structure is none of the \<^verbatim>\<open>live\<close> ones.
\<close>

definition listed :: "u64 \<Rightarrow> 'a schedstate_scheme \<Rightarrow> bool" where
  "listed t s \<longleftrightarrow> (\<exists>xs. ring s xs \<and> t \<in> set xs)"

inductive mutex_step ::
  "u64 \<Rightarrow> u64 set \<Rightarrow> mutex \<times> 'a schedstate_scheme \<Rightarrow> mutex \<times> 'a schedstate_scheme \<Rightarrow> bool" for g live where
  tick: "scheduler_handler g rsp s = Some (rsp', s') \<Longrightarrow> mutex_step g live (m, s) (m, s')"
| acquire: "mutex_lock g rsp m s = Some (m', s') \<Longrightarrow> mutex_step g live (m, s) (m', s')"
| release: "mutex_unlock m s = Some (m', s') \<Longrightarrow> mutex_step g live (m, s) (m', s')"
| start: "t \<notin> live \<Longrightarrow> t \<noteq> 0 \<Longrightarrow> \<not> listed t s \<Longrightarrow> mutex_step g live (m, s) (m, enqueue_thread t s)"

inductive_cases mutex_stepE: "mutex_step g live (m, s) (m', s')"

text \<open>The thread \<^verbatim>\<open>t\<close> is out of the ring.\<close>

definition waits :: "u64 \<Rightarrow> 'a schedstate_scheme \<Rightarrow> bool" where
  "waits t s \<longleftrightarrow> (\<exists>xs. ring s xs \<and> current_thread s \<in> set xs \<and> t \<notin> set xs)"

text \<open>The parts of the state that the ring is made of.\<close>

definition same_ring :: "'a schedstate_scheme \<Rightarrow> 'a schedstate_scheme \<Rightarrow> bool" where
  "same_ring s s' \<longleftrightarrow> ready_list_head s' = ready_list_head s \<and> current_thread s' = current_thread s \<and>
     (\<forall>a. th_next (threads s' a) = th_next (threads s a) \<and> th_prev (threads s' a) = th_prev (threads s a))"

lemma same_ring_ring: "same_ring s s' \<Longrightarrow> ring s' xs = ring s xs"
  by (rule ring_cong) (auto simp: same_ring_def)

lemma same_ring_waits: "same_ring s s' \<Longrightarrow> waits t s' = waits t s"
  by (auto simp: waits_def same_ring_ring) (auto simp: same_ring_def)

lemma mutex_enter_ring:
  "mutex_enter m s = Some (rflags, m1, s1) \<Longrightarrow>
    \<not> lock (m_lock m) \<and> m1 = m\<lparr>m_lock := \<lparr>lock = True\<rparr>\<rparr> \<and> same_ring s s1 \<and> threads s1 = threads s"
  by (auto simp: mutex_enter_def spin_lock_irqsave_def cli_def same_ring_def split: if_splits)

lemma mutex_enter_free:
  "\<not> lock (m_lock m) \<Longrightarrow> \<exists>rflags s1. mutex_enter m s = Some (rflags, m\<lparr>m_lock := \<lparr>lock = True\<rparr>\<rparr>, s1)"
  by (auto simp: mutex_enter_def spin_lock_irqsave_def split: if_splits)

lemma mutex_leave_ring:
  "mutex_leave rflags m s = (m1, s1) \<Longrightarrow> m1 = m\<lparr>m_lock := \<lparr>lock = False\<rparr>\<rparr> \<and> same_ring s s1 \<and> threads s1 = threads s"
  by (auto simp: mutex_leave_def spin_lock_irqrestore_def write_rflags_def same_ring_def)

lemma mutex_block_ring:
  "mutex_block t m s = (m1, s1) \<Longrightarrow>
    same_ring s s1 \<and> locked m1 = locked m \<and> m_lock m1 = m_lock m \<and> th_state (threads s1 t) = BLOCKED \<and>
    (blocked_head m = 0 \<longrightarrow> blocked_head m1 = t \<and> next_blocked (threads s1 t) = 0)"
  by (auto simp: mutex_block_def Let_def same_ring_def split: if_splits)

lemma same_ring_trans: "same_ring s1 s2 \<Longrightarrow> same_ring s2 s3 \<Longrightarrow> same_ring s1 s3"
  by (simp add: same_ring_def)

lemma yield_waits:
  assumes "waits t s" "yield g rsp s = Some s'"
  shows "waits t s'"
proof -
  obtain xs where xs: "ring s xs" "current_thread s \<in> set xs" "t \<notin> set xs" using assms(1) by (auto simp: waits_def)
  obtain r' where "scheduler_handler g rsp s = Some (r', s')" using assms(2) by (auto simp: yield_def bind_eq_Some_conv)
  from scheduler_handler_ring [OF xs(1,2) this] xs(3) show ?thesis by (auto simp: waits_def)
qed

lemma mutex_lock_cases:
  assumes "mutex_lock g rsp m s = Some (m', s')"
  obtains "same_ring s s'"
  | s2 where "same_ring s s2" "yield g rsp s2 = Some s'" "locked m" "locked m'" "\<not> lock (m_lock m')"
      "th_state (threads s2 (current_thread s)) = BLOCKED"
      "blocked_head m = 0 \<Longrightarrow> blocked_head m' = current_thread s \<and> next_blocked (threads s2 (current_thread s)) = 0"
proof -
  obtain rflags m1 s1 where e: "mutex_enter m s = Some (rflags, m1, s1)" using assms by (auto simp: mutex_lock_def bind_eq_Some_conv)
  note e' = mutex_enter_ring [OF e]
  show thesis
  proof (cases "locked m")
    case False
    then have "mutex_leave rflags (m1\<lparr>locked := True\<rparr>) s1 = (m', s')" using assms e e' by (simp add: mutex_lock_def)
    from mutex_leave_ring [OF this] e' same_ring_trans that(1) show thesis by blast
  next
    case True
    obtain m2 s2 where b: "mutex_block (current_thread s1) m1 s1 = (m2, s2)" by (cases "mutex_block (current_thread s1) m1 s1")
    note b' = mutex_block_ring [OF b]
    have "m' = m2\<lparr>m_lock := (m_lock m2)\<lparr>lock := False\<rparr>\<rparr>" "yield g rsp s2 = Some s'"
      using assms e e' b True by (auto simp: mutex_lock_def Let_def bind_eq_Some_conv)
    moreover have "current_thread s1 = current_thread s" using e' by (simp add: same_ring_def)
    ultimately show thesis using that(2) [of s2] b' e' True same_ring_trans by auto
  qed
qed

lemma mutex_unlock_ring:
  assumes "mutex_unlock m s = Some (m', s')"
  shows "same_ring s s'"
proof -
  obtain rflags m1 s1 where e: "mutex_enter m s = Some (rflags, m1, s1)" using assms by (auto simp: mutex_unlock_def bind_eq_Some_conv)
  have "\<exists>m2 s2. mutex_leave rflags m2 s2 = (m', s') \<and> same_ring s1 s2"
    using assms e by (auto simp: mutex_unlock_def Let_def split: if_splits)
        (intro exI conjI, assumption, simp add: same_ring_def)+
  then obtain m2 s2 where "mutex_leave rflags m2 s2 = (m', s')" "same_ring s1 s2" by blast
  with mutex_leave_ring [OF this(1)] mutex_enter_ring [OF e] same_ring_trans show ?thesis by blast
qed

text \<open>Once out of the ring, no step brings a live thread back.\<close>

lemma mutex_step_waits:
  "mutex_step g live (m, s) (m', s') \<Longrightarrow> t \<in> live \<Longrightarrow> waits t s \<Longrightarrow> waits t s'"
proof (erule mutex_stepE)
  fix rsp rsp' assume h: "scheduler_handler g rsp s = Some (rsp', s')" and w: "waits t s"
  have "yield g rsp s = Some s'" by (simp add: yield_def h)
  with w show "waits t s'" by (rule yield_waits)
next
  fix rsp assume "mutex_lock g rsp m s = Some (m', s')" and w: "waits t s"
  then show "waits t s'"
    by (cases rule: mutex_lock_cases) (use w same_ring_waits yield_waits in blast)+
next
  assume "mutex_unlock m s = Some (m', s')" and "waits t s"
  then show "waits t s'" using mutex_unlock_ring same_ring_waits by blast
next
  fix u assume a: "t \<in> live" "u \<notin> live" "u \<noteq> 0" "\<not> listed u s" "s' = enqueue_thread u s" and w: "waits t s"
  obtain ys where ys: "ring s ys" "current_thread s \<in> set ys" "t \<notin> set ys" using w by (auto simp: waits_def)
  then have "u \<notin> set ys" using a(4) by (auto simp: listed_def)
  from enqueue_ring [OF ys(1) this a(3)] ys(2,3) a(1,2,5) show "waits t s'"
    by (intro waits_def [THEN iffD2] exI [of _ "ys @ [u]"]) (auto simp: enqueue_thread_def Let_def)
qed

lemma mutex_steps_waits:
  "(mutex_step g live)\<^sup>*\<^sup>* ms ms' \<Longrightarrow> t \<in> live \<Longrightarrow> waits t (snd ms) \<Longrightarrow> waits t (snd ms')"
proof (induction rule: rtranclp_induct)
  case (step ms1 ms2)
  then show ?case using mutex_step_waits [of g live "fst ms1" "snd ms1" "fst ms2" "snd ms2" t] by simp
qed

lemma mutex_lock_blocks:
  assumes r: "ring s xs" "t \<in> set xs" "current_thread s = t" and l: "locked m" "\<not> lock (m_lock m)" "blocked_head m = 0"
    and u: "u \<in> set xs" "u \<noteq> t" "runnable (th_state (threads s u))"
  shows "\<exists>m1 s1. mutex_lock g rsp m s = Some (m1, s1) \<and> waits t s1 \<and> locked m1 \<and> \<not> lock (m_lock m1) \<and>
    blocked_head m1 = t \<and> t \<noteq> 0"
proof -
  obtain us vs where xs: "xs = us @ t # vs" using r(2) by (metis split_list)
  have t: "t \<noteq> 0" "t \<notin> set (us @ vs)" using r(1,2) by (auto simp: ring_def xs)
  have uw: "u \<in> set (us @ vs)" using u(1,2) by (auto simp: xs)
  then have ne: "us @ vs \<noteq> []" by (metis empty_iff list.set(1))
  obtain rflags s1 where e: "mutex_enter m s = Some (rflags, m\<lparr>m_lock := \<lparr>lock = True\<rparr>\<rparr>, s1)" using mutex_enter_free [OF l(2)] by blast
  note e' = mutex_enter_ring [OF e]
  let ?m1 = "m\<lparr>m_lock := \<lparr>lock = True\<rparr>\<rparr>"
  obtain m2 s2 where b: "mutex_block t ?m1 s1 = (m2, s2)" by (cases "mutex_block t ?m1 s1")
  note b' = mutex_block_ring [OF b]
  have same: "same_ring s s2" using e' b' same_ring_trans by blast
  then have r2: "ring s2 (us @ t # vs)" "current_thread s2 = t" using r(1,3) same_ring_ring [OF same] by (auto simp: xs same_ring_def)
  have "\<not> runnable (th_state (threads s2 t))" using b' by (simp add: runnable_def)
  note h = scheduler_handler_gone [OF r2 this ne, of g rsp]
  have "threads s2 u = threads s u" using b e' u(2) l(3) by (auto simp: mutex_block_def Let_def)
  then have "find (\<lambda>a. runnable (th_state (threads s2 a))) (us @ vs) \<noteq> None" using uw u(3) by (auto simp: find_None_iff simp del: set_append)
  with h obtain nxt s3 where h: "scheduler_handler g rsp s2 = Some (th_rsp (threads s2 nxt), s3)" "current_thread s3 = nxt"
    "ring s3 (us @ vs)" "find (\<lambda>a. runnable (th_state (threads s2 a))) (us @ vs) = Some nxt" by (auto split: option.splits)
  have "nxt \<in> set (us @ vs)" using h(4) by (metis find_Some_iff nth_mem)
  then have "waits t s3" using h(2,3) t(2) by (auto simp: waits_def)
  moreover have "current_thread s1 = t" using e' r(3) by (simp add: same_ring_def)
  ultimately show ?thesis using l b b' t(1) by (simp add: mutex_lock_def e yield_def h(1))
qed

lemma mutex_unlock_wakes:
  assumes "\<not> lock (m_lock m)" "blocked_head m \<noteq> 0"
  shows "\<exists>m1 s1. mutex_unlock m s = Some (m1, s1) \<and> th_state (threads s1 (blocked_head m)) = READY \<and> locked m1 = locked m"
proof -
  obtain rflags s1 where e: "mutex_enter m s = Some (rflags, m\<lparr>m_lock := \<lparr>lock = True\<rparr>\<rparr>, s1)" using mutex_enter_free [OF assms(1)] by blast
  show ?thesis using assms(2)
    by (simp add: mutex_unlock_def e Let_def mutex_leave_def spin_lock_irqrestore_def write_rflags_def)
qed

section \<open>Properties\<close>

text \<open>
  C22: The wake-up of \<^verbatim>\<open>mutex_unlock\<close> is lost. A thread that blocks in \<^verbatim>\<open>mutex_lock\<close> while another thread can
  run leaves the ready list; \<^verbatim>\<open>mutex_unlock\<close> passes the mutex to it, still locked, and marks it ready but
  does not put it back into the list, so whatever the other threads do, it never runs again.
\<close>

theorem mutex_lost_wakeup:
  assumes "ring s xs" "t \<in> set xs" "current_thread s = t" "t \<in> live" "locked m" "\<not> lock (m_lock m)" "blocked_head m = 0"
    and "u \<in> set xs" "u \<noteq> t" "runnable (th_state (threads s u))"
  shows "\<exists>m1 s1 m2 s2. mutex_lock g rsp m s = Some (m1, s1) \<and> mutex_unlock m1 s1 = Some (m2, s2) \<and>
    locked m2 \<and> th_state (threads s2 t) = READY \<and>
    (\<forall>m3 s3. (mutex_step g live)\<^sup>*\<^sup>* (m2, s2) (m3, s3) \<longrightarrow> current_thread s3 \<noteq> t)"
proof -
  obtain m1 s1 where 1: "mutex_lock g rsp m s = Some (m1, s1)" "waits t s1" "locked m1" "\<not> lock (m_lock m1)" "blocked_head m1 = t" "t \<noteq> 0"
    using mutex_lock_blocks [OF assms(1-3,5-10), of g rsp] by blast
  then obtain m2 s2 where 2: "mutex_unlock m1 s1 = Some (m2, s2)" "th_state (threads s2 t) = READY" "locked m2"
    using mutex_unlock_wakes [of m1 s1] by auto
  have "waits t s2" using same_ring_waits [OF mutex_unlock_ring [OF 2(1)]] 1(2) by blast
  then have "current_thread s3 \<noteq> t" if "(mutex_step g live)\<^sup>*\<^sup>* (m2, s2) (m3, s3)" for m3 s3
    using mutex_steps_waits [OF that assms(4)] by (auto simp: waits_def)
  with 1(1) 2 show ?thesis by blast
qed

theorem mutex_lost_wakeup_witness:
  "\<exists>m1 s1 m2 s2. mutex_lock 0 0x5100 (mutex_init\<lparr>locked := True\<rparr>) sched_example = Some (m1, s1) \<and>
    mutex_unlock m1 s1 = Some (m2, s2) \<and> locked m2 \<and> th_state (threads s2 0x1000) = READY \<and>
    (\<forall>m3 s3. (mutex_step 0 {0x1000, 0x2000})\<^sup>*\<^sup>* (m2, s2) (m3, s3) \<longrightarrow> current_thread s3 \<noteq> 0x1000)"
  by (rule mutex_lost_wakeup [where u = "0x2000", OF sched_example_ring(1) _ sched_example_ring(2)])
    (use sched_example_ring(3) in \<open>simp_all add: mutex_init_def\<close>)

end
