(* ===== verification/Spawn.thy ===== *)
theory Spawn
  imports Thread
begin

text \<open>
  What \<^verbatim>\<open>create_thread\<close> makes of the parts it uses: the heap, \<^verbatim>\<open>vmalloc\<close>, the serial console and the ready
  list. The frame it leaves on the new stack is what the context switch pops.
\<close>

section \<open>The initial frame\<close>





section \<open>What the other components leave alone\<close>









section \<open>The steps of create_thread\<close>







lemma enqueue_keeps [simp]:
  "th_state (threads (enqueue_thread t s) a) = th_state (threads s a)"
  "th_rsp (threads (enqueue_thread t s) a) = th_rsp (threads s a)"
  "th_tid (threads (enqueue_thread t s) a) = th_tid (threads s a)"
  "kernel_stack (threads (enqueue_thread t s) a) = kernel_stack (threads s a)"
  "kmem (enqueue_thread t s) = kmem s" "next_thread_id (enqueue_thread t s) = next_thread_id s"
  by (cases "ready_list_head s = 0"; simp add: enqueue_thread_def Let_def upd_thread_def)+






section \<open>An example\<close>













end
