(* ===== verification/Spec2Isabelle.thy ===== *)
theory Spec2Isabelle
  imports Kernel Mutex Spawn
begin

text \<open>
  A verification development for the kernel of PointerOS, a hobby x86-64 operating system in C. Paths
  below are relative to \<^verbatim>\<open>src/\<close>. Every function is modelled as it is written: state is a record that is
  passed along, machine integers are words of their width, memory is a map from 64-bit addresses to
  bytes, a loop whose counter can wrap or that polls a device is a \<^verbatim>\<open>partial_function (option)\<close>, and None
  is a kernel that hangs or faults.

  \<^bold>\<open>The state.\<close> One record, extended by each component in the order of the boot sequence:
  \<^verbatim>\<open>machine\<close> (registers, MSRs, interrupt flag, device log, \<^verbatim>\<open>kmem\<close>, \<^verbatim>\<open>pmem\<close>), \<^verbatim>\<open>pmm\<close>, \<^verbatim>\<open>kheap\<close>, \<^verbatim>\<open>slabs\<close>, \<^verbatim>\<open>kmstate\<close>,
  \<^verbatim>\<open>vmstate\<close>, \<^verbatim>\<open>usstate\<close>, \<^verbatim>\<open>lfbstate\<close>, \<^verbatim>\<open>klogstate\<close>, \<^verbatim>\<open>apicstate\<close>, \<^verbatim>\<open>schedstate\<close>, \<^verbatim>\<open>cpustate\<close>, \<^verbatim>\<open>fsstate\<close>. Operations are
  polymorphic in the extension, so those of a lower component run unchanged on the state of a higher
  one. \<^verbatim>\<open>kmem\<close> is memory at kernel addresses, \<^verbatim>\<open>pmem\<close> physical memory behind the direct map; the allocator
  of frames, which never gives a frame twice, is the reason that they can be kept apart.

  \<^bold>\<open>Foundations.\<close>
  \<^item> \<^verbatim>\<open>Prelude\<close>, \<^verbatim>\<open>Memory\<close>: integer types, constants of the headers, C conversions, little-endian loads and stores.
  \<^item> \<^verbatim>\<open>Machine\<close>: \<^verbatim>\<open>arch/x86_64/inlineasm.c\<close> and \<^verbatim>\<open>kernel/spinlock.c\<close>. Device answers are arbitrary functions of
    the state; there is one processor, so a held spin lock is never released while one waits for it.
  \<^item> \<^verbatim>\<open>Cstring\<close>: \<^verbatim>\<open>libc/string.c\<close>. \<^verbatim>\<open>Digits\<close>, \<^verbatim>\<open>Format\<close>: number printing and the meaning of format strings.
  \<^item> \<^verbatim>\<open>Dlist_Links\<close>: the locale \<^verbatim>\<open>dlist\<close>, the interface of the intrusive doubly linked lists, interpreted on the
    free lists of \<^verbatim>\<open>Buddy\<close>, the slab lists of \<^verbatim>\<open>Slab\<close> and the range lists of \<^verbatim>\<open>Ranges\<close>.

  \<^bold>\<open>Physical and virtual memory.\<close>
  \<^item> \<^verbatim>\<open>Pmm\<close>, \<^verbatim>\<open>Multiboot\<close>: \<^verbatim>\<open>mm/pmm.c\<close> and the walk over the boot information (\<^verbatim>\<open>include/multiboot2.h\<close>). \<^verbatim>\<open>init_PMM\<close>
    frees exactly the available memory above 1 MiB less the kernel image and the bitmap; allocation takes
    the lowest free frame; the locale \<^verbatim>\<open>frame_source\<close> gives that successive frames are distinct.
    \<^verbatim>\<open>pmm_alloc_pages\<close> is first fit below 2 GiB, and can run past the end of the bitmap.
  \<^item> \<^verbatim>\<open>Vmm\<close>: \<^verbatim>\<open>mm/vmm.c\<close>, against the page walk of the processor, in which the address of a table is in the bits
    12 to 51 of an entry and the page-size bit is reserved at the top level: mapping a page changes the
    translation of just that page, unmapping restores it, the direct map covers all of memory. Until the
    direct map is there, tables are reached through the 128 MiB window of \<^verbatim>\<open>boot.s\<close>, and an access beyond it faults;
    the theorem asks for free frames inside. Examples have the page tables of \<^verbatim>\<open>boot.s\<close> in memory.
  \<^item> \<^verbatim>\<open>Ranges\<close>, \<^verbatim>\<open>Vmalloc\<close>, \<^verbatim>\<open>Stack\<close>: \<^verbatim>\<open>mm/vmalloc.c\<close> and \<^verbatim>\<open>mm/stack.c\<close>. Both keep an ordered list of disjoint
    ranges; the locale \<^verbatim>\<open>ranges\<close> proves insertion once for the ascending and the descending one. \<^verbatim>\<open>vmalloc\<close> is
    taken to have the addresses from \<^verbatim>\<open>VMALLOC_START\<close> to the heap, where the kernel maps no huge pages.

  \<^bold>\<open>The kernel heap.\<close>
  \<^item> \<^verbatim>\<open>Buddy_Abs\<close>, \<^verbatim>\<open>Buddy\<close>: \<^verbatim>\<open>mm/buddy.c\<close>. The specification is a tiling of the heap by blocks; \<^verbatim>\<open>buddy_alloc\<close> and
    \<^verbatim>\<open>buddy_free\<close> on raw bytes refine its operations, no two free buddies stay unmerged, allocation fails
    only when there is no aligned free run.
  \<^item> \<^verbatim>\<open>Slab\<close>, \<^verbatim>\<open>Kmalloc\<close>: \<^verbatim>\<open>mm/slab.c\<close> and \<^verbatim>\<open>mm/kmalloc.c\<close>. The abstract state is the set of objects that clients
    hold; \<^verbatim>\<open>kheap_use\<close> is the state machine of clients. Objects are disjoint and their bytes are left alone;
    when all have been returned the heap is one block again.

  \<^bold>\<open>Output.\<close>
  \<^item> \<^verbatim>\<open>Serial\<close>: \<^verbatim>\<open>serial.c\<close>, with \<^verbatim>\<open>serial_print\<close> equal to the text its format stands for, as long as no string
    argument has a \<^verbatim>\<open>%\<close> and no pointer is above 4 GiB, and \<^verbatim>\<open>itoa\<close> to the positional notation. The meaning of a format
    (\<^verbatim>\<open>serial_conv\<close>, \<^verbatim>\<open>kprintf_conv\<close>) is stated apart from what the code prints (\<^verbatim>\<open>serial_code_conv\<close>,
    \<^verbatim>\<open>kprintf_code_conv\<close>); the conditions of the two theorems are where they agree.
  \<^item> \<^verbatim>\<open>Font\<close>, \<^verbatim>\<open>Lfb\<close>: \<^verbatim>\<open>font8x16.h\<close> and \<^verbatim>\<open>drivers/lfb/lfb.c\<close>. Pixels in byte memory refine a terminal of characters with
    wrapping and scrolling. The locale \<^verbatim>\<open>char_sink\<close> is what printing needs of an output.
  \<^item> \<^verbatim>\<open>Klog\<close>: \<^verbatim>\<open>drivers/lfb/klog.c\<close> and \<^verbatim>\<open>kprintf\<close>: the ring of 4096 entries returns what was written, in order, up to
    the part that was overwritten; the 256-byte buffer of \<^verbatim>\<open>kprintf\<close>, the second \<^verbatim>\<open>char_sink\<close>, is never overrun,
    and what it logs is the text of the format unless \<^verbatim>\<open>%d\<close> is to print the most negative \<^verbatim>\<open>int\<close>.

  \<^bold>\<open>Interrupts, threads, file system.\<close>
  \<^item> \<^verbatim>\<open>Apic\<close>: \<^verbatim>\<open>acpi.c\<close>, \<^verbatim>\<open>lapic.c\<close>, \<^verbatim>\<open>ioapic.c\<close> and the timers. The walk over a well-formed MADT ends and keeps at most
    16 overrides.
  \<^item> \<^verbatim>\<open>Thread\<close>: \<^verbatim>\<open>thread.c\<close>, \<^verbatim>\<open>scheduler.c\<close>, \<^verbatim>\<open>process.c\<close>. The ready threads form a ring; the scheduler is fair and
    returns to a thread the stack pointer it was left with. Thread and process structures are stores
    indexed by their address.
  \<^item> \<^verbatim>\<open>Spawn\<close>: \<^verbatim>\<open>create_thread\<close> on top of heap, \<^verbatim>\<open>vmalloc\<close>, console and ready list: a new thread starts at its entry point.
  \<^item> \<^verbatim>\<open>Mutex\<close>: \<^verbatim>\<open>kernel/mutex.c\<close>, and the step relation of threads that share a mutex: the wake-up of a blocked
    thread is lost.
  \<^item> \<^verbatim>\<open>Interrupts\<close>: \<^verbatim>\<open>gdt.c\<close>, \<^verbatim>\<open>idt.c\<close>, \<^verbatim>\<open>mm/page_fault.c\<close>, \<^verbatim>\<open>syscalls.c\<close>. Every gate of the interrupt table decodes
    to its stub.
  \<^item> \<^verbatim>\<open>Fs\<close>, \<^verbatim>\<open>Kernel\<close>: \<^verbatim>\<open>fs/*.c\<close> on the ramdisk's on-disk layout, and \<^verbatim>\<open>kernel_main\<close>, the composition of all
    initialisations.

  \<^bold>\<open>Bounds and termination.\<close> There is no fuel: recursion is structural, has a measure (as \<^verbatim>\<open>pmm_scan\<close>,
  \<^verbatim>\<open>buddy_merge\<close>), or is partial, and then a theorem that needs the result proves that there is one.
  Devices that are polled are assumed to become ready, as named hypotheses of the theorems. Lengths
  and capacities are those of the code: heap 16 MiB, 12 orders, 8 caches, ring 4096, \<^verbatim>\<open>kprintf\<close> buffer 256, 16
  overrides.

  \<^bold>\<open>Not modelled.\<close> Assembly (\<^verbatim>\<open>boot.s\<close>, \<^verbatim>\<open>idt.s\<close>, \<^verbatim>\<open>gdt.s\<close>, \<^verbatim>\<open>yield.s\<close>, \<^verbatim>\<open>syscalls.s\<close>, \<^verbatim>\<open>lapic_timer.s\<close>) and the linker
  script: the addresses they define, the stack pointer at a context switch and the content of CR2 are
  arguments, and of the mapping that \<^verbatim>\<open>boot.s\<close> leaves only the size of the window is used. A second processor: the locks are modelled with one. Interrupts inside an operation: an
  operation runs to its end or to its yield. The body of \<^verbatim>\<open>dfs_finddir\<close>, which is empty. Names and
  constants of \<^verbatim>\<open>multiboot2.h\<close> that no code reads. The boot information is read at kernel addresses by some
  components and through the direct map by others; no definition relates the two views, and a buffer that a
  caller of \<^verbatim>\<open>dfs_read\<close> takes from the direct map is not the memory the disk is read from. Calls of
  \<^verbatim>\<open>serial_print\<close> and \<^verbatim>\<open>kprintf\<close> with a literal format stand for the text they render, as
  \<^verbatim>\<open>serial_print_renders\<close> and \<^verbatim>\<open>kprintf_renders\<close> justify.
\<close>

end
